(* ===== verification/Prelude.thy ===== *)
theory Prelude imports "HOL-Library.Word" begin

text \<open>
  What every component of the daemon's model shares.

  A piece of Rust code that may fail, panic, end the process or not return is a function of
  the world it runs in to an outcome and the world it leaves: \<open>('w, 'e, 'a) io\<close>.
  The outcome \<open>exec\<close> has the five ways a Rust call can end; \<open>bind_io\<close> is the
  sequencing with Rust's \<open>?\<close> operator, \<open>finally_drop\<close> and \<open>on_exit_drop\<close> are
  the drop of a local at the end of its scope, \<open>run_loop\<close> is \<open>loop\<close>/\<open>while\<close> with
  fuel. The theory also holds the arithmetic lemmas on machine words the components share.
\<close>

section \<open>Lemma collections\<close>

named_theorems exec_defs \<open>the sequencing combinators, for unfolding a routine into cases\<close>
named_theorems sys_defs \<open>the calls into the kernel and into other threads\<close>
named_theorems trace_simps \<open>how the accounting functions read a trace\<close>

section \<open>Machine integers\<close>

type_synonym u8 = "8 word"
type_synonym u64 = "64 word"
type_synonym i64 = "64 word"
type_synonym usize = "64 word"
type_synonym raw_fd = "32 word"
type_synonym uid = "32 word"
type_synonym bytes = "u8 list"

section \<open>Outcomes of a call\<close>

text \<open>
  \<open>Ok\<close> and \<open>Err\<close> are Rust's \<open>Result\<close>; \<open>Panic\<close> is an unwinding panic; \<open>Exit\<close> is the
  end of the process; \<open>NoReturn\<close> is a call that has not returned (a loop whose fuel is
  used up, or one that blocks for ever).
\<close>

datatype exit_status = ExitCode u8 | Killed

datatype ('e, 'a) exec = Ok 'a | Err 'e | Panic | Exit exit_status | NoReturn

type_synonym ('w, 'e, 'a) io = "'w \<Rightarrow> ('e, 'a) exec \<times> 'w"

definition ret :: "'a \<Rightarrow> ('w, 'e, 'a) io" where
  "ret a w = (Ok a, w)"

definition throw :: "'e \<Rightarrow> ('w, 'e, 'a) io" where
  "throw e w = (Err e, w)"

definition panic :: "('w, 'e, 'a) io" where
  "panic w = (Panic, w)"

definition bind_io :: "('w, 'e, 'a) io \<Rightarrow> ('a \<Rightarrow> ('w, 'e, 'b) io) \<Rightarrow> ('w, 'e, 'b) io" where
  "bind_io m f w =
     (case m w of
        (Ok a, w') \<Rightarrow> f a w'
      | (Err e, w') \<Rightarrow> (Err e, w')
      | (Panic, w') \<Rightarrow> (Panic, w')
      | (Exit x, w') \<Rightarrow> (Exit x, w')
      | (NoReturn, w') \<Rightarrow> (NoReturn, w'))"

text \<open>\<open>Result::map_err\<close>, and a \<open>match\<close> on the \<open>Result\<close> in place of \<open>?\<close>.\<close>

definition map_err :: "('e \<Rightarrow> 'f) \<Rightarrow> ('w, 'e, 'a) io \<Rightarrow> ('w, 'f, 'a) io" where
  "map_err g m w =
     (case m w of
        (Ok a, w') \<Rightarrow> (Ok a, w')
      | (Err e, w') \<Rightarrow> (Err (g e), w')
      | (Panic, w') \<Rightarrow> (Panic, w')
      | (Exit x, w') \<Rightarrow> (Exit x, w')
      | (NoReturn, w') \<Rightarrow> (NoReturn, w'))"

definition match_io ::
  "('w, 'e, 'a) io \<Rightarrow> ('e \<Rightarrow> ('w, 'f, 'b) io) \<Rightarrow> ('a \<Rightarrow> ('w, 'f, 'b) io) \<Rightarrow> ('w, 'f, 'b) io" where
  "match_io m on_err on_ok w =
     (case m w of
        (Ok a, w') \<Rightarrow> on_ok a w'
      | (Err e, w') \<Rightarrow> on_err e w'
      | (Panic, w') \<Rightarrow> (Panic, w')
      | (Exit x, w') \<Rightarrow> (Exit x, w')
      | (NoReturn, w') \<Rightarrow> (NoReturn, w'))"

text \<open>
  Drop glue. A local that stays in its scope is dropped however the scope is left by return
  or unwinding (\<open>finally_drop\<close>); one that is moved out by the successful return is dropped
  only on the other two ways out (\<open>on_exit_drop\<close>). Nothing is dropped when the process
  ends or the call does not return.
\<close>

definition finally_drop :: "('w \<Rightarrow> 'w) \<Rightarrow> ('w, 'e, 'a) io \<Rightarrow> ('w, 'e, 'a) io" where
  "finally_drop d m w =
     (case m w of
        (Ok a, w') \<Rightarrow> (Ok a, d w')
      | (Err e, w') \<Rightarrow> (Err e, d w')
      | (Panic, w') \<Rightarrow> (Panic, d w')
      | (Exit x, w') \<Rightarrow> (Exit x, w')
      | (NoReturn, w') \<Rightarrow> (NoReturn, w'))"

definition on_exit_drop :: "('w \<Rightarrow> 'w) \<Rightarrow> ('w, 'e, 'a) io \<Rightarrow> ('w, 'e, 'a) io" where
  "on_exit_drop d m w =
     (case m w of
        (Ok a, w') \<Rightarrow> (Ok a, w')
      | (Err e, w') \<Rightarrow> (Err e, d w')
      | (Panic, w') \<Rightarrow> (Panic, d w')
      | (Exit x, w') \<Rightarrow> (Exit x, w')
      | (NoReturn, w') \<Rightarrow> (NoReturn, w'))"

text \<open>\<open>Result::unwrap\<close> on an option: panics on \<open>None\<close>.\<close>

definition unwrap :: "'a option \<Rightarrow> ('w, 'e, 'a) io" where
  "unwrap x = (case x of None \<Rightarrow> panic | Some a \<Rightarrow> ret a)"

text \<open>
  A method with \<open>&mut self\<close> is a routine on the object beside the rest of the world, so that
  what it changed before it failed stays changed.
\<close>

definition lift_io :: "('w, 'e, 'a) io \<Rightarrow> ('s \<times> 'w, 'e, 'a) io" where
  "lift_io m sw = (case m (snd sw) of (r, w') \<Rightarrow> (r, (fst sw, w')))"

definition get_self :: "('s \<times> 'w, 'e, 's) io" where
  "get_self sw = (Ok (fst sw), sw)"

definition set_self :: "('s \<Rightarrow> 's) \<Rightarrow> ('s \<times> 'w, 'e, unit) io" where
  "set_self f sw = (Ok (), (f (fst sw), snd sw))"

text \<open>\<open>std::panic::catch_unwind\<close>: whether the closure panicked.\<close>

definition catch_unwind :: "('w, 'e, 'a) io \<Rightarrow> ('w, 'e, bool) io" where
  "catch_unwind m w =
     (case m w of
        (Ok a, w') \<Rightarrow> (Ok False, w')
      | (Err e, w') \<Rightarrow> (Err e, w')
      | (Panic, w') \<Rightarrow> (Ok True, w')
      | (Exit x, w') \<Rightarrow> (Exit x, w')
      | (NoReturn, w') \<Rightarrow> (NoReturn, w'))"

lemmas combinator_defs [exec_defs] =
  bind_io_def match_io_def map_err_def finally_drop_def on_exit_drop_def
  ret_def throw_def panic_def unwrap_def lift_io_def get_self_def set_self_def
  catch_unwind_def

lemma bind_io_ret [simp]: "bind_io (ret a) f = f a"
  by (rule ext) (simp add: exec_defs)

lemma bind_io_throw [simp]: "bind_io (throw e) f = throw e"
  by (rule ext) (simp add: exec_defs)

lemma bind_io_assoc: "bind_io (bind_io m f) g = bind_io m (\<lambda>a. bind_io (f a) g)"
  by (rule ext) (simp add: exec_defs split: prod.split exec.split)

lemma bind_io_Ok:
  "bind_io m f w = (Ok b, w'') \<longleftrightarrow> (\<exists>a w'. m w = (Ok a, w') \<and> f a w' = (Ok b, w''))"
  by (auto simp: bind_io_def split: prod.splits exec.splits)

lemma map_err_Ok [simp]: "map_err g m w = (Ok a, w') \<longleftrightarrow> m w = (Ok a, w')"
  by (auto simp: map_err_def split: prod.splits exec.splits)

section \<open>Indexing\<close>

text \<open>\<open>Vec\<close> indexing and \<open>last\<close>: \<open>None\<close> where Rust panics or returns \<open>None\<close>.\<close>

definition nth_opt :: "'a list \<Rightarrow> nat \<Rightarrow> 'a option" where
  "nth_opt xs i = (if i < length xs then Some (xs ! i) else None)"

definition last_opt :: "'a list \<Rightarrow> 'a option" where
  "last_opt xs = (if xs = [] then None else Some (last xs))"

lemma last_opt_simps [simp]: "last_opt [] = None" "last_opt (xs @ [x]) = Some x"
  by (simp_all add: last_opt_def)

lemma nth_opt_last: "xs \<noteq> [] \<Longrightarrow> nth_opt xs (length xs - 1) = last_opt xs"
  by (simp add: nth_opt_def last_opt_def last_conv_nth)

lemma nth_opt_append [simp]: "i < length xs \<Longrightarrow> nth_opt (xs @ ys) i = nth_opt xs i"
  by (simp add: nth_opt_def nth_append)

section \<open>Loops\<close>

text \<open>
  One turn of a loop ends in \<open>Next\<close> (the next turn starts from that state) or \<open>Stop\<close>
  (\<open>break\<close> or \<open>return\<close> with a result). \<open>run_loop n\<close> runs at most \<open>n\<close> turns.
\<close>

datatype ('s, 'r) turn = Next 's | Stop 'r

fun run_loop ::
  "nat \<Rightarrow> ('s \<Rightarrow> ('w, 'e, ('s, 'r) turn) io) \<Rightarrow> 's \<Rightarrow> ('w, 'e, 'r) io" where
  "run_loop 0 body s w = (NoReturn, w)"
| "run_loop (Suc n) body s w =
     (case body s w of
        (Ok (Next s'), w') \<Rightarrow> run_loop n body s' w'
      | (Ok (Stop r), w') \<Rightarrow> (Ok r, w')
      | (Err e, w') \<Rightarrow> (Err e, w')
      | (Panic, w') \<Rightarrow> (Panic, w')
      | (Exit x, w') \<Rightarrow> (Exit x, w')
      | (NoReturn, w') \<Rightarrow> (NoReturn, w'))"

text \<open>More fuel never changes a loop that has ended.\<close>

lemma run_loop_more_fuel:
  assumes "fst (run_loop n body s w) \<noteq> NoReturn" and "n \<le> m"
  shows "run_loop m body s w = run_loop n body s w"
  using assms
proof (induction n arbitrary: m s w)
  case 0
  then show ?case by simp
next
  case (Suc n)
  from Suc.prems(2) obtain k where m: "m = Suc k" and "n \<le> k"
    by (cases m) auto
  obtain x w' where b: "body s w = (x, w')"
    by (cases "body s w")
  show ?case
  proof (cases x)
    case (Ok t)
    with Suc.prems(1) b m Suc.IH [OF _ \<open>n \<le> k\<close>] show ?thesis
      by (cases t) simp_all
  qed (use b m in simp_all)
qed

text \<open>
  The contract between a loop and its body: what every turn keeps holds when the loop ends,
  and for as long as it runs.
\<close>

locale loop_invariant =
  fixes body :: "'s \<Rightarrow> ('w, 'e, ('s, 'r) turn) io"
    and inv :: "'s \<Rightarrow> 'w \<Rightarrow> bool"
    and post :: "('e, 'r) exec \<Rightarrow> 'w \<Rightarrow> bool"
  assumes next_turn: "inv s w \<Longrightarrow> body s w = (Ok (Next s'), w') \<Longrightarrow> inv s' w'"
    and stop: "inv s w \<Longrightarrow> body s w = (Ok (Stop r), w') \<Longrightarrow> post (Ok r) w'"
    and err: "inv s w \<Longrightarrow> body s w = (Err e, w') \<Longrightarrow> post (Err e) w'"
    and panics: "inv s w \<Longrightarrow> body s w = (Panic, w') \<Longrightarrow> post Panic w'"
    and exits: "inv s w \<Longrightarrow> body s w = (Exit x, w') \<Longrightarrow> post (Exit x) w'"
begin

lemma run_post:
  "inv s w \<Longrightarrow> run_loop n body s w = (r, w') \<Longrightarrow> r \<noteq> NoReturn \<Longrightarrow> post r w'"
proof (induction n arbitrary: s w)
  case 0
  then show ?case by simp
next
  case (Suc n)
  obtain x v where b: "body s w = (x, v)"
    by (cases "body s w")
  note facts = next_turn stop err panics exits
  show ?case
  proof (cases x)
    case (Ok t)
    with Suc.prems b Suc.IH facts(1,2) [OF Suc.prems(1)] show ?thesis
      by (cases t) auto
  qed (use Suc.prems b facts(3-5) [OF Suc.prems(1)] in auto)
qed

end

text \<open>What holds of a loop however it ends, and also when its fuel is used up.\<close>

lemma run_loop_reaches:
  assumes run: "run_loop n body s w = (r, w')" and start: "J s w"
    and body: "\<And>s w x v. J s w \<Longrightarrow> body s w = (x, v)
      \<Longrightarrow> (case x of Ok (Next s') \<Rightarrow> J s' v | Ok (Stop a) \<Rightarrow> post (Ok a) v
           | Err e \<Rightarrow> post (Err e) v | Panic \<Rightarrow> post Panic v | Exit c \<Rightarrow> post (Exit c) v
           | NoReturn \<Rightarrow> post NoReturn v)"
    and fuel: "\<And>s w. J s w \<Longrightarrow> post NoReturn w"
  shows "post r w'"
  using run start
proof (induction n arbitrary: s w)
  case 0
  then show ?case using fuel by simp
next
  case (Suc n)
  obtain x v where b: "body s w = (x, v)" by (cases "body s w")
  note now = body [OF Suc.prems(2) b]
  show ?case
  proof (cases x)
    case (Ok t)
    with Suc b now show ?thesis by (cases t) auto
  qed (use Suc.prems b now in auto)
qed

section \<open>Arithmetic on words\<close>

lemma word_add_no_wrap:
  fixes a b :: "'a::len word"
  assumes "unat a + unat b < 2 ^ LENGTH('a)"
  shows "unat (a + b) = unat a + unat b"
  using assms by (simp add: unat_word_ariths)

lemma word_sub_no_wrap:
  fixes a b :: "'a::len word"
  assumes "b \<le> a"
  shows "unat (a - b) = unat a - unat b"
  using assms by (rule unat_sub)

lemma sint_sub_no_wrap:
  fixes a b :: i64
  assumes "- (2 ^ 63) \<le> sint a - sint b" and "sint a - sint b < 2 ^ 63"
  shows "sint (a - b) = sint a - sint b"
  using assms by (simp add: sint_word_ariths signed_take_bit_int_eq_self)

end
