(* ===== verification/Errors.thy ===== *)
theory Errors imports Prelude begin

text \<open>
  The constants of \<open>src/constants.rs\<close> and the errors the daemon produces:
  \<open>src/linux/runtime_error.rs\<close>, \<open>src/shutdown_signal.rs\<close> and the
  \<open>IgnoredRootRequestError\<close> of \<open>src/linux/welcome_thread.rs\<close>, with their \<open>Display\<close>
  texts. A Rust \<open>String\<close> is a \<open>string\<close> whose characters are its UTF-8 bytes.
\<close>

section \<open>Constants\<close>

definition USER_NAME :: string where "USER_NAME = ''garnd''"
definition GROUP_NAME :: string where "GROUP_NAME = ''garnd''"
definition SHM_FILE_NAME :: string where "SHM_FILE_NAME = ''shm''"
definition EXIT_CODE_SUCCESS :: u8 where "EXIT_CODE_SUCCESS = 0"
definition EXIT_CODE_FAILURE :: u8 where "EXIT_CODE_FAILURE = 1"
definition WORKING_DIR_ENV_OPTION :: string where
  "WORKING_DIR_ENV_OPTION = ''GARND_WORKING_DIR''"
definition CIRCUIT_BREAKER_EPOCH_SECONDS :: usize where "CIRCUIT_BREAKER_EPOCH_SECONDS = 3"
definition CIRCUIT_BREAKER_RELOADS_PER_EPOCH :: usize where
  "CIRCUIT_BREAKER_RELOADS_PER_EPOCH = 100"

section \<open>Runtime errors\<close>

datatype runtime_error =
    PrivilegeChecksDisabled
  | UserNonexistent
  | GroupNonexistent
  | RunAsWrongUser
  | RunAsWrongGroup
  | RunWithRootGroup
  | RunWithCapabilities
  | MayObtainNewPrivileges
  | SecureBitsNotSet
  | ServiceAlreadyRunning
  | WelcomeSocketFailed
  | GetPageSizeFailed
  | ResourceNameAlreadyInUse (resource_name: string)
  | ResourceAlignmentLargerThanPage (al_page_size: usize) (al_alignment: usize)
  | ResourceTooLargeForPage (tl_page_size: usize) (tl_size: usize)
  | ResourceTypeMismatch (requested_type: string) (resource_type: string)

text \<open>The decimal form \<open>{n}\<close> of an unsigned integer.\<close>

definition digit_char :: "nat \<Rightarrow> char" where
  "digit_char d = char_of (48 + d)"

fun show_nat :: "nat \<Rightarrow> string" where
  "show_nat n = (if n < 10 then [digit_char n] else show_nat (n div 10) @ [digit_char (n mod 10)])"

declare show_nat.simps [simp del]

definition show_usize :: "usize \<Rightarrow> string" where
  "show_usize x = show_nat (unat x)"

fun display_runtime_error :: "runtime_error \<Rightarrow> string" where
  "display_runtime_error PrivilegeChecksDisabled = ''privilege checks are disabled in debug mode''"
| "display_runtime_error UserNonexistent = ''unable to find user '' @ [CHR 0x27] @ USER_NAME @ [CHR 0x27]"
| "display_runtime_error GroupNonexistent = ''unable to find group '' @ [CHR 0x27] @ GROUP_NAME @ [CHR 0x27]"
| "display_runtime_error RunAsWrongUser =
     ''service must be run as user '' @ [CHR 0x27] @ USER_NAME @ [CHR 0x27]
       @ '' (real, effective, saved and file system)''"
| "display_runtime_error RunAsWrongGroup =
     ''service must be run as group '' @ [CHR 0x27] @ GROUP_NAME @ [CHR 0x27]
       @ '' (real, effective, saved and file system)''"
| "display_runtime_error RunWithRootGroup =
     ''service must not be run with '' @ [CHR 0x27] @ ''root'' @ [CHR 0x27] @ '' as a supplementary group''"
| "display_runtime_error RunWithCapabilities =
     ''service must not be run with any permitted or bounding capabilities''"
| "display_runtime_error MayObtainNewPrivileges =
     ''service must be run with the '' @ [CHR 0x27] @ ''no new privs'' @ [CHR 0x27] @ '' attribute''"
| "display_runtime_error SecureBitsNotSet =
     ''service must be run with all secure bits and all locks set except for ''
       @ [CHR 0x27] @ ''keep_caps'' @ [CHR 0x27]"
| "display_runtime_error ServiceAlreadyRunning =
     ''service is either already running or another process impersonates it''"
| "display_runtime_error WelcomeSocketFailed = ''welcome socket broke down unexpectedly''"
| "display_runtime_error GetPageSizeFailed =
     ''could not determine the system'' @ [CHR 0x27] @ ''s page size''"
| "display_runtime_error (ResourceNameAlreadyInUse n) =
     ''a resource with the same name ('' @ [CHR 0x22] @ n @ [CHR 0x22] @ '') already exists''"
| "display_runtime_error (ResourceAlignmentLargerThanPage p a) =
     ''tried to move a resource into share memory whose alignment is larger than the page size (page size = ''
       @ show_usize p @ '', alignment = '' @ show_usize a @ '')''"
| "display_runtime_error (ResourceTooLargeForPage p s) =
     ''tried to move a resource into shared memory which is larger than a whole page (page size = ''
       @ show_usize p @ '', resource size = '' @ show_usize s @ '')''"
| "display_runtime_error (ResourceTypeMismatch q r) =
     ''tried to access a resource of the wrong type (requested type = '' @ q
       @ '', resource_type = '' @ r @ '')''"

section \<open>All errors\<close>

text \<open>
  \<open>DetailedError\<close> of the crate garnshared wraps an error together with the place it arose;
  \<open>add_metadata\<close> makes it and \<open>error()\<close> reads the wrapped error back. The daemon only ever
  looks at the wrapped error, so a \<open>detailed_error\<close> is that error. Errors of the kernel,
  of the standard library and of third-party crates come with the code the caller can see.
\<close>

datatype errno = EADDRINUSE | EINTR | EAGAIN | EOTHER nat

datatype detailed_error =
    ShutdownSignal
  | ReloadRequest
  | RuntimeError runtime_error
  | IgnoredRootRequestError
  | NixError errno
  | IoError nat
  | SendError
  | RecvError
  | TryRecvDisconnected
  | Utf8Error
  | TryFromIntError
  | ForeignError nat

text \<open>
  The texts of the daemon's own errors; those of the others belong to the crates that
  define them and are a parameter.
\<close>

fun display_error :: "(detailed_error \<Rightarrow> string) \<Rightarrow> detailed_error \<Rightarrow> string" where
  "display_error _ ShutdownSignal = ''Service shutdown requested.''"
| "display_error _ ReloadRequest = ''Service reload requested.''"
| "display_error _ (RuntimeError e) = display_runtime_error e"
| "display_error _ IgnoredRootRequestError =
     ''a root process tried to contact this service; ignored the request''"
| "display_error foreign e = foreign e"

text \<open>The downcasts \<open>err.error().is::<T>()\<close> the main thread makes.\<close>

definition is_shutdown_signal :: "detailed_error \<Rightarrow> bool" where
  "is_shutdown_signal e = (e = ShutdownSignal)"

definition is_reload_request :: "detailed_error \<Rightarrow> bool" where
  "is_reload_request e = (e = ReloadRequest)"

section \<open>The decimal form is faithful\<close>

lemma show_nat_nonempty [simp]: "show_nat n \<noteq> []"
  by (subst show_nat.simps) simp

lemma of_char_digit_char [simp]: "d < 10 \<Longrightarrow> of_char (digit_char d) = 48 + d"
  by (simp add: digit_char_def of_char_mod_256 take_bit_eq_mod)

lemma digit_char_inj: "d < 10 \<Longrightarrow> d' < 10 \<Longrightarrow> digit_char d = digit_char d' \<longleftrightarrow> d = d'"
  by (metis of_char_digit_char add_left_cancel)

lemma show_nat_inject: "show_nat m = show_nat n \<longleftrightarrow> m = n"
proof
  show "show_nat m = show_nat n \<Longrightarrow> m = n"
  proof (induction m arbitrary: n rule: show_nat.induct)
    case (1 m)
    have step: "show_nat k = (if k < 10 then [digit_char k]
        else show_nat (k div 10) @ [digit_char (k mod 10)])" for k
      by (subst show_nat.simps) simp
    show ?case
    proof (cases "m < 10")
      case True
      with "1.prems" step [of m] have "[digit_char m] = show_nat n" by simp
      with True step [of n] show ?thesis
        by (cases "n < 10") (auto simp: digit_char_inj Cons_eq_append_conv)
    next
      case False
      with "1.prems" step [of m] step [of n] have n: "\<not> n < 10"
        by (auto simp: Cons_eq_append_conv split: if_splits)
      with False "1.prems" step [of m] step [of n]
      have "show_nat (m div 10) = show_nat (n div 10)" "m mod 10 = n mod 10"
        by (simp_all add: digit_char_inj)
      with "1.IH" [OF False] have "m div 10 = n div 10" by blast
      with \<open>m mod 10 = n mod 10\<close> show ?thesis
        by (metis div_mult_mod_eq)
    qed
  qed
qed simp

lemma show_usize_inject [simp]: "show_usize x = show_usize y \<longleftrightarrow> x = y"
  by (simp add: show_usize_def show_nat_inject word_unat_eq_iff)

text \<open>A decimal form holds digits only, so a separator after it can be found.\<close>

lemma show_nat_digits: "c \<in> set (show_nat n) \<Longrightarrow> \<exists>d<10. c = digit_char d"
proof (induction n rule: show_nat.induct)
  case (1 n)
  then show ?case
    by (subst (asm) (2) show_nat.simps) (force split: if_splits)
qed

lemma comma_not_digit: "CHR '','' \<notin> set (show_usize x)"
proof
  assume "CHR '','' \<in> set (show_usize x)"
  then obtain d where d: "d < 10" "CHR '','' = digit_char d"
    using show_nat_digits by (auto simp: show_usize_def)
  then have "of_char (CHR '','') = 48 + d"
    by (metis of_char_digit_char)
  then show False by simp
qed

lemma append_sep_inject:
  "c \<notin> set xs \<Longrightarrow> c \<notin> set ys \<Longrightarrow>
   xs @ c # us = ys @ c # vs \<longleftrightarrow> xs = ys \<and> us = vs"
proof (induction xs arbitrary: ys)
  case Nil
  then show ?case by (cases ys) auto
next
  case (Cons x xs)
  then show ?case by (cases ys) auto
qed

end
