(* ===== verification/Kernel.thy ===== *)
theory Kernel imports Errors begin

text \<open>
  The boundary of the model: everything the daemon calls that is not code under \<open>src/\<close>.

  The Linux kernel, the other threads of the process (as one thread sees them) and the
  third-party crates answer calls in a way the model does not fix. An \<open>os\<close> holds one function
  per type of answer; each may look at the whole history of calls, so every behaviour of the
  outside is some \<open>os\<close> and a theorem over all \<open>os\<close> holds whatever is answered, errors
  included. Each call and its answer is appended to the trace of the world, so a property can
  speak of what was called, in which order and with which result. The message formats of the
  crate garnshared are the fields of a \<open>garnshared\<close> record.

  What the documentation of the kernel promises is a named predicate on an \<open>os\<close> and is a
  hypothesis of the theorems that need it: \<open>fresh_fds\<close> (a descriptor returned is not one that
  is open), \<open>recv_bounded\<close> (no more bytes than asked for).
\<close>

section \<open>Calls, answers and the trace\<close>

datatype poll_flag = POLLIN | POLLERR | POLLHUP | POLLNVAL

text \<open>\<open>PollFd::revents\<close> is \<open>None\<close> when the kernel sets a bit the library does not know.\<close>

type_synonym revents = "poll_flag set option"

datatype epoll_flag = EPOLLIN | EPOLLRDHUP | EPOLLERR | EPOLLHUP

datatype epoll_event = EpollEvent (ev_flags: "epoll_flag set") (ev_data: u64)

datatype timespec = Timespec (tv_sec: i64) (tv_nsec: i64)

text \<open>The answers of \<open>Receiver::try_recv\<close>.\<close>

datatype 'a try_recv = Received 'a | Empty | Disconnected

type_synonym addr = u64
type_synonym type_uuid = nat
type_synonym thread_id = nat

text \<open>Calls that return a new descriptor.\<close>

datatype fd_call = Accept raw_fd | Dup raw_fd | EventFdNew | EpollCreate | MemfdCreate string | SocketNew

datatype signal = SIGTERM | SIGINT | SIGHUP

datatype signal_handler = TerminationSignalHandler | ReloadSignalHandler

text \<open>
  Calls that only succeed or fail. \<open>Sigaction\<close> is given the signal, the handler and the mask; the
  only flag the daemon sets is \<open>SA_RESTART\<close>.
\<close>

datatype unit_call =
    Listen raw_fd
  | Ftruncate raw_fd usize
  | AddSeals raw_fd
  | EpollAdd raw_fd raw_fd "epoll_flag set" u64
  | Munmap addr usize
  | Construct addr type_uuid
  | SetPassCred raw_fd
  | NewAbstract string
  | Bind raw_fd string
  | Sigaction signal signal_handler "signal list"
  | Notify "(string \<times> string) list"
  | EventFdWrite raw_fd u64
  | KillSelf

text \<open>Calls that return a number: a length, a counter or an address.\<close>

datatype num_call =
    Send raw_fd bytes
  | SendMsg raw_fd bytes raw_fd
  | EventFdRead raw_fd
  | Mmap raw_fd usize

text \<open>
  Calls answered by yes or no: is the receiving end of the channel still there, did the joined
  thread or the destructor end without a panic.
\<close>

datatype bool_call =
    SendToMain detailed_error
  | SendClosedName string
  | SendListener thread_id raw_fd
  | SendSyncResponse "detailed_error + unit"
  | Join thread_id
  | DropInPlace addr type_uuid

text \<open>Calls without an answer the daemon looks at.\<close>

datatype act = Close raw_fd | LogError detailed_error | Stderr string

text \<open>
  What a new thread is to run. The welcome thread is given the welcome socket, which it owns from
  then on, and the shutdown and the reload event.
\<close>

datatype thread_role = WelcomeThread raw_fd raw_fd raw_fd | EnvironmentThread string

text \<open>A call with its answer.\<close>

datatype event =
    FdAns fd_call "detailed_error + raw_fd"
  | UnitAns unit_call "detailed_error + unit"
  | NumAns num_call "detailed_error + u64"
  | BoolAns bool_call bool
  | Did act
  | PeerUid raw_fd "detailed_error + uid"
  | Recv raw_fd usize "detailed_error + bytes"
  | Poll "raw_fd list" "detailed_error + (revents \<times> revents \<times> revents \<times> revents)"
  | EpollWait raw_fd usize "detailed_error + epoll_event list"
  | SysconfPageSize "detailed_error + i64 option"
  | ClockGettime "detailed_error + timespec"
  | Spawn thread_role "detailed_error + thread_id"
  | RecvClosedName "string try_recv"
  | RecvListener "raw_fd try_recv"
  | RecvSyncResponse thread_id "(detailed_error + unit) option"
  | RecvReport "detailed_error option"
  | TryRecvReport "detailed_error option"

record os =
  ask_fd :: "event list \<Rightarrow> fd_call \<Rightarrow> detailed_error + raw_fd"
  ask_unit :: "event list \<Rightarrow> unit_call \<Rightarrow> detailed_error + unit"
  ask_num :: "event list \<Rightarrow> num_call \<Rightarrow> detailed_error + u64"
  ask_bool :: "event list \<Rightarrow> bool_call \<Rightarrow> bool"
  ask_uid :: "event list \<Rightarrow> raw_fd \<Rightarrow> detailed_error + uid"
  ask_bytes :: "event list \<Rightarrow> raw_fd \<Rightarrow> usize \<Rightarrow> detailed_error + bytes"
  ask_poll ::
    "event list \<Rightarrow> raw_fd list \<Rightarrow> detailed_error + (revents \<times> revents \<times> revents \<times> revents)"
  ask_epoll :: "event list \<Rightarrow> raw_fd \<Rightarrow> usize \<Rightarrow> detailed_error + epoll_event list"
  ask_sysconf :: "event list \<Rightarrow> detailed_error + i64 option"
  ask_time :: "event list \<Rightarrow> detailed_error + timespec"
  ask_spawn :: "event list \<Rightarrow> thread_role \<Rightarrow> detailed_error + thread_id"
  ask_name :: "event list \<Rightarrow> string try_recv"
  ask_listener :: "event list \<Rightarrow> raw_fd try_recv"
  ask_sync :: "event list \<Rightarrow> thread_id \<Rightarrow> (detailed_error + unit) option"
  ask_report :: "event list \<Rightarrow> detailed_error option"
  ask_try_report :: "event list \<Rightarrow> detailed_error option"
  ask_errno :: "event list \<Rightarrow> nat"

text \<open>
  The world of one thread: the trace, oldest call first, whether the thread is unwinding
  (\<open>std::thread::panicking\<close>), and its \<open>errno\<close> as far as the daemon reads or restores it.
\<close>

record world =
  trace :: "event list"
  panicking :: bool
  errno_cell :: nat

type_synonym ('e, 'a) routine = "(world, 'e, 'a) io"

definition log_event :: "event \<Rightarrow> world \<Rightarrow> world" where
  "log_event e w = w\<lparr>trace := trace w @ [e]\<rparr>"

lemma log_event_simps [simp]:
  "trace (log_event e w) = trace w @ [e]"
  "panicking (log_event e w) = panicking w"
  "errno_cell (log_event e w) = errno_cell w"
  by (simp_all add: log_event_def)

definition answer :: "'e + 'a \<Rightarrow> ('e, 'a) exec" where
  "answer r = (case r of Inl e \<Rightarrow> Err e | Inr a \<Rightarrow> Ok a)"

lemma answer_simps [simp]:
  "answer (Inl e) = Err e" "answer (Inr a) = Ok a"
  "answer r = Ok a \<longleftrightarrow> r = Inr a" "answer r = Err e \<longleftrightarrow> r = Inl e"
  "answer r \<noteq> Panic" "answer r \<noteq> Exit x" "answer r \<noteq> NoReturn"
  by (cases r; simp add: answer_def)+

section \<open>The calls as routines\<close>

definition sys_fd :: "os \<Rightarrow> fd_call \<Rightarrow> (detailed_error, raw_fd) routine" where
  "sys_fd os c w =
     (let r = ask_fd os (trace w) c in (answer r, log_event (FdAns c r) w))"

definition sys_unit :: "os \<Rightarrow> unit_call \<Rightarrow> (detailed_error, unit) routine" where
  "sys_unit os c w =
     (let r = ask_unit os (trace w) c in (answer r, log_event (UnitAns c r) w))"

definition sys_num :: "os \<Rightarrow> num_call \<Rightarrow> (detailed_error, u64) routine" where
  "sys_num os c w =
     (let r = ask_num os (trace w) c in (answer r, log_event (NumAns c r) w))"

definition sys_bool :: "os \<Rightarrow> bool_call \<Rightarrow> ('e, bool) routine" where
  "sys_bool os c w =
     (let r = ask_bool os (trace w) c in (Ok r, log_event (BoolAns c r) w))"

definition sys_uid :: "os \<Rightarrow> raw_fd \<Rightarrow> (detailed_error, uid) routine" where
  "sys_uid os fd w =
     (let r = ask_uid os (trace w) fd in (answer r, log_event (PeerUid fd r) w))"

definition sys_recv :: "os \<Rightarrow> raw_fd \<Rightarrow> usize \<Rightarrow> (detailed_error, bytes) routine" where
  "sys_recv os fd n w =
     (let r = ask_bytes os (trace w) fd n in (answer r, log_event (Recv fd n r) w))"

definition sys_poll :: "os \<Rightarrow> raw_fd list \<Rightarrow> (detailed_error, revents \<times> revents \<times> revents \<times> revents) routine" where
  "sys_poll os fds w =
     (let r = ask_poll os (trace w) fds in (answer r, log_event (Poll fds r) w))"

definition sys_epoll :: "os \<Rightarrow> raw_fd \<Rightarrow> usize \<Rightarrow> (detailed_error, epoll_event list) routine" where
  "sys_epoll os fd n w =
     (let r = ask_epoll os (trace w) fd n in (answer r, log_event (EpollWait fd n r) w))"

definition sys_sysconf :: "os \<Rightarrow> (detailed_error, i64 option) routine" where
  "sys_sysconf os w =
     (let r = ask_sysconf os (trace w) in (answer r, log_event (SysconfPageSize r) w))"

definition sys_time :: "os \<Rightarrow> (detailed_error, timespec) routine" where
  "sys_time os w =
     (let r = ask_time os (trace w) in (answer r, log_event (ClockGettime r) w))"

definition sys_spawn :: "os \<Rightarrow> thread_role \<Rightarrow> (detailed_error, thread_id) routine" where
  "sys_spawn os role w =
     (let r = ask_spawn os (trace w) role in (answer r, log_event (Spawn role r) w))"

definition sys_closed_name :: "os \<Rightarrow> ('e, string try_recv) routine" where
  "sys_closed_name os w =
     (let r = ask_name os (trace w) in (Ok r, log_event (RecvClosedName r) w))"

definition sys_listener :: "os \<Rightarrow> ('e, raw_fd try_recv) routine" where
  "sys_listener os w =
     (let r = ask_listener os (trace w) in (Ok r, log_event (RecvListener r) w))"

definition sys_sync :: "os \<Rightarrow> thread_id \<Rightarrow> ('e, (detailed_error + unit) option) routine" where
  "sys_sync os tid w =
     (let r = ask_sync os (trace w) tid in (Ok r, log_event (RecvSyncResponse tid r) w))"

text \<open>
  The receiving end of the error channel: \<open>recv\<close> is \<open>None\<close> once every sender is gone, \<open>try_iter\<close>
  ends at the first \<open>None\<close>.
\<close>

definition sys_report :: "os \<Rightarrow> ('e, detailed_error option) routine" where
  "sys_report os w =
     (let r = ask_report os (trace w) in (Ok r, log_event (RecvReport r) w))"

definition sys_try_report :: "os \<Rightarrow> ('e, detailed_error option) routine" where
  "sys_try_report os w =
     (let r = ask_try_report os (trace w) in (Ok r, log_event (TryRecvReport r) w))"

definition sys_do :: "act \<Rightarrow> ('e, unit) routine" where
  "sys_do c w = (Ok (), log_event (Did c) w)"

lemmas sys_call_defs [sys_defs] =
  sys_fd_def sys_unit_def sys_num_def sys_bool_def sys_uid_def sys_recv_def sys_poll_def
  sys_epoll_def sys_sysconf_def sys_time_def sys_spawn_def sys_closed_name_def
  sys_listener_def sys_sync_def sys_report_def sys_try_report_def sys_do_def Let_def

text \<open>
  \<open>libc::write\<close> to standard error: its result is ignored, and it may leave any value in
  \<open>errno\<close>.
\<close>

definition write_stderr :: "os \<Rightarrow> string \<Rightarrow> world \<Rightarrow> world" where
  "write_stderr os s w =
     (log_event (Did (Stderr s)) w)\<lparr>errno_cell := ask_errno os (trace w)\<rparr>"

lemma write_stderr_simps [simp]:
  "trace (write_stderr os s w) = trace w @ [Did (Stderr s)]"
  "panicking (write_stderr os s w) = panicking w"
  by (simp_all add: write_stderr_def)

text \<open>The drop of an \<open>OwnedFd\<close>.\<close>

definition close_fd :: "raw_fd \<Rightarrow> world \<Rightarrow> world" where
  "close_fd fd w = log_event (Did (Close fd)) w"

lemma close_fd_simps [simp]:
  "trace (close_fd fd w) = trace w @ [Did (Close fd)]"
  "panicking (close_fd fd w) = panicking w"
  "errno_cell (close_fd fd w) = errno_cell w"
  by (simp_all add: close_fd_def)

section \<open>Descriptors: who owns what\<close>

text \<open>
  The descriptors a thread owns, read off its trace: it owns one from the call that returned
  it, or from the channel it was received on, until it closes it or sends it away.
\<close>

fun own :: "event \<Rightarrow> raw_fd set \<Rightarrow> raw_fd set" where
  "own (FdAns c (Inr fd)) S = insert fd S"
| "own (RecvListener (Received fd)) S = insert fd S"
| "own (BoolAns (SendListener tid fd) b) S = S - {fd}"
| "own (Did (Close fd)) S = S - {fd}"
| "own (Spawn (WelcomeThread socket _ _) (Inr tid)) S = S - {socket}"
| "own _ S = S"

definition owned_from :: "raw_fd set \<Rightarrow> event list \<Rightarrow> raw_fd set" where
  "owned_from S tr = fold own tr S"

definition owned :: "event list \<Rightarrow> raw_fd set" where
  "owned tr = owned_from {} tr"

lemma owned_from_append [trace_simps]: "owned_from S (xs @ ys) = owned_from (owned_from S xs) ys"
  by (simp add: owned_from_def)

lemma owned_from_Nil [trace_simps]: "owned_from S [] = S"
  by (simp add: owned_from_def)

lemma owned_from_Cons [trace_simps]: "owned_from S (x # xs) = owned_from (own x S) xs"
  by (simp add: owned_from_def)

lemma owned_snoc [trace_simps]: "owned (tr @ [e]) = own e (owned tr)"
  by (simp add: owned_def trace_simps)

lemma owned_append [trace_simps]: "owned (tr @ x # xs) = owned_from (own x (owned tr)) xs"
  by (simp add: owned_def trace_simps)

text \<open>A trace closes only descriptors that are owned when they are closed: no double close.\<close>

fun closes_from :: "raw_fd set \<Rightarrow> event list \<Rightarrow> bool" where
  "closes_from S [] \<longleftrightarrow> True"
| "closes_from S (e # es) \<longleftrightarrow>
     (case e of Did (Close fd) \<Rightarrow> fd \<in> S | _ \<Rightarrow> True) \<and> closes_from (own e S) es"

definition closes_only_owned :: "event list \<Rightarrow> bool" where
  "closes_only_owned tr = closes_from {} tr"

lemma closes_from_append:
  "closes_from S (xs @ ys) \<longleftrightarrow> closes_from S xs \<and> closes_from (owned_from S xs) ys"
  by (induction xs arbitrary: S) (auto simp: owned_from_def)

lemma closes_only_owned_append [trace_simps]:
  "closes_only_owned (tr @ es) \<longleftrightarrow> closes_only_owned tr \<and> closes_from (owned tr) es"
  by (simp add: closes_only_owned_def owned_def closes_from_append)

text \<open>What the kernel documents: a new descriptor is one that is not open.\<close>

definition fresh_fds :: "os \<Rightarrow> bool" where
  "fresh_fds os \<longleftrightarrow> (\<forall>tr c fd. ask_fd os tr c = Inr fd \<longrightarrow> fd \<notin> owned tr)"

lemma fresh_fdsD: "fresh_fds os \<Longrightarrow> ask_fd os tr c = Inr fd \<Longrightarrow> fd \<notin> owned tr"
  by (simp add: fresh_fds_def)

text \<open>\<open>recv\<close> never returns more bytes than the buffer holds.\<close>

definition recv_bounded :: "os \<Rightarrow> bool" where
  "recv_bounded os \<longleftrightarrow>
     (\<forall>tr fd n bs. ask_bytes os tr fd n = Inr bs \<longrightarrow> length bs \<le> unat n)"

text \<open>The threads a trace has spawned; their identifiers are never used again.\<close>

fun spawned :: "event list \<Rightarrow> thread_id set" where
  "spawned [] = {}"
| "spawned (Spawn _ (Inr t) # es) = insert t (spawned es)"
| "spawned (_ # es) = spawned es"

lemma spawned_append [simp]: "spawned (xs @ ys) = spawned xs \<union> spawned ys"
  by (induction xs rule: spawned.induct) auto

definition fresh_threads :: "os \<Rightarrow> bool" where
  "fresh_threads os \<longleftrightarrow> (\<forall>tr role t. ask_spawn os tr role = Inr t \<longrightarrow> t \<notin> spawned tr)"

section \<open>The message formats of garnshared\<close>

datatype welcome_request = OpenEnvironment string

datatype welcome_response = WelcomeMalformedRequest | OpenEnvironmentOk

datatype environment_request = OpenMutex string

datatype environment_response = EnvironmentMalformedRequest | OpenMutexOk usize usize

text \<open>
  The Rust type of a resource, as far as the allocator sees it: its UUID, its layout and the
  name \<open>any::type_name\<close> gives it.
\<close>

record rust_type =
  type_uuid :: type_uuid
  size_of :: usize
  align_of :: usize
  type_name :: string

record garnshared =
  welcome_max_size :: usize
  deserialize_welcome :: "string \<Rightarrow> detailed_error + welcome_request"
  serialize_welcome :: "welcome_response \<Rightarrow> detailed_error + string"
  welcome_internal_error :: string
  environment_max_size :: usize
  deserialize_environment :: "string \<Rightarrow> detailed_error + environment_request"
  serialize_environment :: "environment_response \<Rightarrow> detailed_error + string"
  environment_internal_error :: string
  pthread_mutex :: rust_type
  abstract_sock_name_prefix :: string
  welcome_sock_abstract_name :: string
  default_working_dir :: string
  extract_error_message :: "thread_id \<Rightarrow> string"
  display_foreign :: "detailed_error \<Rightarrow> string"

text \<open>A pure fallible computation as a routine.\<close>

definition pure_io :: "'e + 'a \<Rightarrow> ('e, 'a) routine" where
  "pure_io r w = (answer r, w)"

declare pure_io_def [exec_defs]

section \<open>A kernel to run examples on\<close>

text \<open>
  A kernel whose answers are fixed by the type of the call: descriptors are numbered by the
  length of the trace (with an error should that one be open, or after a thousand calls), every
  other call succeeds.
  Examples change the answers they need.
\<close>

definition next_fd :: "event list \<Rightarrow> detailed_error + raw_fd" where
  "next_fd tr =
     (let fd = of_nat (length tr) + 100
      in if fd \<in> owned tr \<or> 1000 < length tr then Inl (NixError (EOTHER 24)) else Inr fd)"

definition calm_os :: os where
  "calm_os =
     \<lparr>ask_fd = (\<lambda>tr c. next_fd tr),
      ask_unit = (\<lambda>tr c. Inr ()),
      ask_num = (\<lambda>tr c. Inr 0),
      ask_bool = (\<lambda>tr c. True),
      ask_uid = (\<lambda>tr fd. Inr 1000),
      ask_bytes = (\<lambda>tr fd n. Inr []),
      ask_poll = (\<lambda>tr fds. Inr (Some {}, Some {}, Some {}, Some {})),
      ask_epoll = (\<lambda>tr fd n. Inr []),
      ask_sysconf = (\<lambda>tr. Inr (Some 4096)),
      ask_time = (\<lambda>tr. Inr (Timespec 1000 0)),
      ask_spawn = (\<lambda>tr role. if length tr \<in> spawned tr then Inl (IoError 11) else Inr (length tr)),
      ask_name = (\<lambda>tr. Empty),
      ask_listener = (\<lambda>tr. Empty),
      ask_sync = (\<lambda>tr tid. Some (Inr ())),
      ask_report = (\<lambda>tr. Some ShutdownSignal),
      ask_try_report = (\<lambda>tr. None),
      ask_errno = (\<lambda>tr. 5)\<rparr>"

definition start_world :: world where
  "start_world = \<lparr>trace = [], panicking = False, errno_cell = 0\<rparr>"

lemma calm_os_fresh: "fresh_fds calm_os"
  by (auto simp: fresh_fds_def calm_os_def next_fd_def Let_def split: if_splits)

lemma calm_os_threads: "fresh_threads calm_os"
  by (auto simp: fresh_threads_def calm_os_def split: if_splits)

lemmas calm_eval = calm_os_def start_world_def next_fd_def owned_def owned_from_def Let_def

text \<open>
  Message formats for examples: a request is a letter, the name and zero bytes up to the size
  of the message.
\<close>

definition demo_name :: "string \<Rightarrow> string" where
  "demo_name s = takeWhile (\<lambda>c. c \<noteq> CHR 0x00) s"

definition demo_gs :: garnshared where
  "demo_gs =
     \<lparr>welcome_max_size = 8,
      deserialize_welcome = (\<lambda>s. case s of [] \<Rightarrow> Inl (ForeignError 1)
        | c # cs \<Rightarrow> if c = CHR ''E'' then Inr (OpenEnvironment (demo_name cs)) else Inl (ForeignError 1)),
      serialize_welcome = (\<lambda>r. Inr (case r of WelcomeMalformedRequest \<Rightarrow> ''bad'' | OpenEnvironmentOk \<Rightarrow> ''ok'')),
      welcome_internal_error = ''err'',
      environment_max_size = 8,
      deserialize_environment = (\<lambda>s. case s of [] \<Rightarrow> Inl (ForeignError 1)
        | c # cs \<Rightarrow> if c = CHR ''M'' then Inr (OpenMutex (demo_name cs)) else Inl (ForeignError 1)),
      serialize_environment = (\<lambda>r. Inr (case r of EnvironmentMalformedRequest \<Rightarrow> ''bad'' | OpenMutexOk p off \<Rightarrow> ''ok'')),
      environment_internal_error = ''err'',
      pthread_mutex = \<lparr>type_uuid = 7, size_of = 40, align_of = 8, type_name = ''PthreadMutex''\<rparr>,
      abstract_sock_name_prefix = ''garn'',
      welcome_sock_abstract_name = ''welcome'',
      default_working_dir = ''/'',
      extract_error_message = (\<lambda>tid. ''panic''),
      display_foreign = (\<lambda>e. ''foreign'')\<rparr>"

end
