(* ===== verification/Circuit_Breaker.thy ===== *)
theory Circuit_Breaker imports Kernel begin

text \<open>
  \<open>src/linux/circuit_breaker.rs\<close>: the guard against reload loops. The three atomics are the
  record \<open>breaker\<close>; \<open>breaker_step\<close> is what one call does at a given time (\<open>None\<close>: the
  process is killed), \<open>circuit_breaker\<close> is the function with its clock call and
  \<open>instant_exit\<close>. The lemmas show that the difference of seconds is the whole number of
  seconds elapsed, that no integer wraps, how many reloads an epoch lets through, and that the
  breaker only trips when they really happened.
\<close>

section \<open>Time stamps\<close>

text \<open>What \<open>clock_gettime(2)\<close> documents of a time stamp of the monotonic clock.\<close>

definition valid_time :: "timespec \<Rightarrow> bool" where
  "valid_time t \<longleftrightarrow> 0 \<le> sint (tv_sec t) \<and> 0 \<le> sint (tv_nsec t) \<and> sint (tv_nsec t) < 10 ^ 9"

definition nanos :: "timespec \<Rightarrow> int" where
  "nanos t = sint (tv_sec t) * 10 ^ 9 + sint (tv_nsec t)"

instantiation timespec :: linorder begin

definition less_eq_timespec :: "timespec \<Rightarrow> timespec \<Rightarrow> bool" where
  "less_eq_timespec s t \<longleftrightarrow> sint (tv_sec s) < sint (tv_sec t)
     \<or> sint (tv_sec s) = sint (tv_sec t) \<and> sint (tv_nsec s) \<le> sint (tv_nsec t)"

definition less_timespec :: "timespec \<Rightarrow> timespec \<Rightarrow> bool" where
  "less_timespec s t \<longleftrightarrow> sint (tv_sec s) < sint (tv_sec t)
     \<or> sint (tv_sec s) = sint (tv_sec t) \<and> sint (tv_nsec s) < sint (tv_nsec t)"

instance
proof
  fix s t u :: timespec
  show "s < t \<longleftrightarrow> s \<le> t \<and> \<not> t \<le> s"
    by (auto simp: less_timespec_def less_eq_timespec_def)
  show "s \<le> s"
    by (simp add: less_eq_timespec_def)
  show "s \<le> t \<Longrightarrow> t \<le> u \<Longrightarrow> s \<le> u"
    by (auto simp: less_eq_timespec_def)
  show "s \<le> t \<Longrightarrow> t \<le> s \<Longrightarrow> s = t"
    by (cases s; cases t) (auto simp: less_eq_timespec_def intro: signed_word_eqI)
  show "s \<le> t \<or> t \<le> s"
    by (auto simp: less_eq_timespec_def)
qed

end

lemma nanos_mono: "valid_time s \<Longrightarrow> valid_time t \<Longrightarrow> s \<le> t \<longleftrightarrow> nanos s \<le> nanos t"
  by (auto simp: valid_time_def nanos_def less_eq_timespec_def)

section \<open>The breaker\<close>

record breaker =
  epoch_start_seconds :: i64
  epoch_start_nanoseconds :: i64
  reloads_since_epoch_start :: usize

definition breaker_init :: breaker where
  "breaker_init = \<lparr>epoch_start_seconds = 0, epoch_start_nanoseconds = 0,
     reloads_since_epoch_start = 0\<rparr>"

definition seconds_since_epoch_start :: "breaker \<Rightarrow> timespec \<Rightarrow> i64" where
  "seconds_since_epoch_start b t =
     tv_sec t - epoch_start_seconds b
       - (if sint (tv_nsec t) < sint (epoch_start_nanoseconds b) then 1 else 0)"

definition breaker_step :: "timespec \<Rightarrow> breaker \<Rightarrow> breaker option" where
  "breaker_step t b =
     (if sint CIRCUIT_BREAKER_EPOCH_SECONDS < sint (seconds_since_epoch_start b t)
      then Some \<lparr>epoch_start_seconds = tv_sec t, epoch_start_nanoseconds = tv_nsec t,
              reloads_since_epoch_start = 1\<rparr>
      else if CIRCUIT_BREAKER_RELOADS_PER_EPOCH \<le> reloads_since_epoch_start b + 1
      then None
      else Some (b\<lparr>reloads_since_epoch_start := reloads_since_epoch_start b + 1\<rparr>))"

text \<open>
  \<open>kill(getpid(), SIGKILL)\<close>, then \<open>pause()\<close> for ever: the function returns on no path.
\<close>

definition instant_exit :: "os \<Rightarrow> ('e, 'a) routine" where
  "instant_exit os w =
     (case sys_unit os KillSelf w of
        (Ok _, w') \<Rightarrow> (Exit Killed, w')
      | (_, w') \<Rightarrow> (NoReturn, w'))"

definition circuit_breaker :: "os \<Rightarrow> breaker \<Rightarrow> ('e, breaker) routine" where
  "circuit_breaker os b =
     match_io (sys_time os)
       (\<lambda>_. instant_exit os)
       (\<lambda>current_time.
          case breaker_step current_time b of
            None \<Rightarrow> instant_exit os
          | Some b' \<Rightarrow> ret b')"

text \<open>A sequence of calls at given times; \<open>None\<close> once the process has been killed.\<close>

fun breaker_run :: "timespec list \<Rightarrow> breaker \<Rightarrow> breaker option" where
  "breaker_run [] b = Some b"
| "breaker_run (t # ts) b =
     (case breaker_step t b of None \<Rightarrow> None | Some b' \<Rightarrow> breaker_run ts b')"

definition epoch_start :: "breaker \<Rightarrow> timespec" where
  "epoch_start b = Timespec (epoch_start_seconds b) (epoch_start_nanoseconds b)"

text \<open>
  The invariant of the atomics: the epoch start is a time stamp, the counter stays below the
  limit.
\<close>

definition breaker_wf :: "breaker \<Rightarrow> bool" where
  "breaker_wf b \<longleftrightarrow> valid_time (epoch_start b) \<and> unat (reloads_since_epoch_start b) \<le> 99"

lemma breaker_wf_init [simp]: "breaker_wf breaker_init"
  by (simp add: breaker_wf_def breaker_init_def epoch_start_def valid_time_def)

section \<open>The elapsed seconds\<close>

lemma nanos_bounds: "valid_time t \<Longrightarrow> 0 \<le> nanos t"
  by (simp add: valid_time_def nanos_def)

lemma sint_lt: "sint (x :: i64) < 2 ^ 63"
  using sint_less [of x] by simp

text \<open>
  The borrow from the nanoseconds makes the subtraction the floor of the elapsed time, and
  nothing wraps.
\<close>

lemma elapsed_seconds:
  assumes "breaker_wf b" and "valid_time t" and "epoch_start b \<le> t"
  shows "sint (seconds_since_epoch_start b t) = (nanos t - nanos (epoch_start b)) div 10 ^ 9"
proof -
  define s0 n0 s n where d: "s0 = sint (epoch_start_seconds b)"
    "n0 = sint (epoch_start_nanoseconds b)" "s = sint (tv_sec t)" "n = sint (tv_nsec t)"
  have v: "0 \<le> s0" "0 \<le> n0" "n0 < 10 ^ 9" "0 \<le> s" "0 \<le> n" "n < 10 ^ 9" "s < 2 ^ 63" "s0 < 2 ^ 63"
    using assms(1,2) sint_lt by (auto simp: breaker_wf_def valid_time_def epoch_start_def d)
  have le: "s0 < s \<or> s0 = s \<and> n0 \<le> n"
    using assms(3) by (simp add: less_eq_timespec_def epoch_start_def d)
  have sub: "sint (tv_sec t - epoch_start_seconds b) = s - s0"
    using v by (subst sint_sub_no_wrap) (auto simp: d)
  have "sint (seconds_since_epoch_start b t) = s - s0 - (if n < n0 then 1 else 0)"
  proof (cases "n < n0")
    case True
    with le have "s0 < s" by auto
    with True v sub show ?thesis
      by (simp add: seconds_since_epoch_start_def d [symmetric])
        (subst sint_sub_no_wrap, auto)
  next
    case False
    with sub show ?thesis by (simp add: seconds_since_epoch_start_def d [symmetric])
  qed
  also have "\<dots> = ((s * 10 ^ 9 + n) - (s0 * 10 ^ 9 + n0)) div 10 ^ 9"
  proof -
    have eq: "(s * 10 ^ 9 + n) - (s0 * 10 ^ 9 + n0) = (n - n0) + (s - s0) * 10 ^ 9"
      by (simp add: algebra_simps)
    have "(n - n0) div 10 ^ 9 = (if n < n0 then - 1 else 0)"
      using v by (auto simp: div_pos_pos_trivial div_eq_minus1)
    moreover have "((n - n0) + (s - s0) * 10 ^ 9) div 10 ^ 9 = (s - s0) + (n - n0) div 10 ^ 9"
      by (rule div_mult_self1) simp
    ultimately show ?thesis
      unfolding eq by simp
  qed
  finally show ?thesis
    by (simp add: nanos_def epoch_start_def d)
qed

section \<open>What one call does\<close>

lemma limits [simp]:
  "sint CIRCUIT_BREAKER_EPOCH_SECONDS = 3" "CIRCUIT_BREAKER_RELOADS_PER_EPOCH = 100"
  by (simp_all add: CIRCUIT_BREAKER_EPOCH_SECONDS_def CIRCUIT_BREAKER_RELOADS_PER_EPOCH_def)

text \<open>The breaker's view at time \<open>t\<close>: well-formed, and its epoch began before.\<close>

definition breaker_at :: "timespec \<Rightarrow> breaker \<Rightarrow> bool" where
  "breaker_at t b \<longleftrightarrow> breaker_wf b \<and> valid_time t \<and> epoch_start b \<le> t"

definition elapsed :: "breaker \<Rightarrow> timespec \<Rightarrow> int" where
  "elapsed b t = nanos t - nanos (epoch_start b)"

lemma reloads_add_one:
  "breaker_wf b \<Longrightarrow> unat (reloads_since_epoch_start b + 1) = unat (reloads_since_epoch_start b) + 1"
  by (subst word_add_no_wrap) (auto simp: breaker_wf_def)

lemma epoch_over_iff:
  assumes "breaker_at t b"
  shows "3 < sint (seconds_since_epoch_start b t) \<longleftrightarrow> 4 * 10 ^ 9 \<le> elapsed b t"
  using assms elapsed_seconds [of b t]
  by (simp add: breaker_at_def elapsed_def) linarith

text \<open>The three cases of a call, with the wrap-around and the borrow gone.\<close>

lemma breaker_step_cases:
  assumes "breaker_at t b"
  shows "breaker_step t b =
     (if 4 * 10 ^ 9 \<le> elapsed b t
      then Some \<lparr>epoch_start_seconds = tv_sec t, epoch_start_nanoseconds = tv_nsec t,
             reloads_since_epoch_start = 1\<rparr>
      else if 99 \<le> unat (reloads_since_epoch_start b) then None
      else Some (b\<lparr>reloads_since_epoch_start := reloads_since_epoch_start b + 1\<rparr>))"
  using epoch_over_iff [OF assms] reloads_add_one [of b] assms
  by (simp add: breaker_step_def breaker_at_def word_le_nat_alt)

lemma epoch_start_update [simp]:
  "epoch_start (b\<lparr>reloads_since_epoch_start := n\<rparr>) = epoch_start b"
  "epoch_start \<lparr>epoch_start_seconds = tv_sec t, epoch_start_nanoseconds = tv_nsec t,
     reloads_since_epoch_start = n\<rparr> = t"
  by (simp_all add: epoch_start_def)

lemma breaker_step_at:
  assumes at: "breaker_at t b" and step: "breaker_step t b = Some b'"
    and later: "valid_time u" "t \<le> u"
  shows "breaker_at u b'"
  using step later at reloads_add_one [of b] unfolding breaker_step_cases [OF at]
  by (auto simp: breaker_at_def breaker_wf_def split: if_splits)

section \<open>Sequences of calls\<close>

definition clock_run :: "timespec list \<Rightarrow> bool" where
  "clock_run ts \<longleftrightarrow> sorted ts \<and> (\<forall>t \<in> set ts. valid_time t)"

lemma clock_run_Cons [simp]:
  "clock_run (t # ts) \<longleftrightarrow> valid_time t \<and> (\<forall>u \<in> set ts. t \<le> u) \<and> clock_run ts"
  by (auto simp: clock_run_def)

text \<open>Within an epoch every call is counted.\<close>

lemma breaker_run_epoch:
  assumes "breaker_run ts b = Some b'" and "clock_run ts" and "\<forall>t \<in> set ts. breaker_at t b"
    and "\<forall>t \<in> set ts. elapsed b t < 4 * 10 ^ 9" and "breaker_wf b"
  shows "unat (reloads_since_epoch_start b) + length ts \<le> 99"
  using assms
proof (induction ts arbitrary: b)
  case Nil
  then show ?case by (simp add: breaker_wf_def)
next
  case (Cons t ts)
  let ?b = "b\<lparr>reloads_since_epoch_start := reloads_since_epoch_start b + 1\<rparr>"
  have at: "breaker_at t b" using Cons.prems(3) by simp
  have lt: "\<not> 4 * 10 ^ 9 \<le> elapsed b t" using Cons.prems(4) by auto
  have few: "\<not> 99 \<le> unat (reloads_since_epoch_start b)"
    using Cons.prems(1) lt by (auto simp: breaker_step_cases [OF at] split: if_splits)
  have step: "breaker_step t b = Some ?b"
    using lt few by (simp add: breaker_step_cases [OF at])
  have "breaker_run ts ?b = Some b'"
    using Cons.prems(1) step by simp
  moreover have "\<forall>u \<in> set ts. breaker_at u ?b"
    using Cons.prems(2) breaker_step_at [OF at step] by (auto simp: clock_run_def)
  moreover have "breaker_wf ?b"
    using few Cons.prems(5) reloads_add_one [of b] by (simp add: breaker_wf_def)
  ultimately have "unat (reloads_since_epoch_start ?b) + length ts \<le> 99"
    using Cons.IH [of ?b] Cons.prems(2,4) by (simp add: elapsed_def)
  then show ?case
    using reloads_add_one [OF Cons.prems(5)] by simp
qed

lemma breaker_run_window:
  assumes "breaker_run ts b = Some b'" and "clock_run ts" and "\<forall>t \<in> set ts. breaker_at t b"
    and "breaker_wf b" and "\<forall>t \<in> set ts. \<forall>u \<in> set ts. nanos u - nanos t < 4 * 10 ^ 9"
  shows "unat (reloads_since_epoch_start b) + length ts \<le> 198"
  using assms
proof (induction ts arbitrary: b)
  case Nil
  then show ?case by (simp add: breaker_wf_def)
next
  case (Cons t ts)
  have at: "breaker_at t b" using Cons.prems(3) by simp
  obtain c where step: "breaker_step t b = Some c" and run: "breaker_run ts c = Some b'"
    using Cons.prems(1) by (auto split: option.splits)
  have at': "\<forall>u \<in> set ts. breaker_at u c"
    using Cons.prems(2) breaker_step_at [OF at step] by (auto simp: clock_run_def)
  have wf: "breaker_wf c"
    using breaker_step_at [OF at step, of t] at by (simp add: breaker_at_def)
  show ?case
  proof (cases "4 * 10 ^ 9 \<le> elapsed b t")
    case True
    then have c: "c = \<lparr>epoch_start_seconds = tv_sec t, epoch_start_nanoseconds = tv_nsec t,
        reloads_since_epoch_start = 1\<rparr>"
      using step by (simp add: breaker_step_cases [OF at])
    have "\<forall>u \<in> set ts. elapsed c u < 4 * 10 ^ 9"
      using Cons.prems(5) by (simp add: elapsed_def c)
    from breaker_run_epoch [OF run _ at' this wf] Cons.prems(2)
    have "length ts \<le> 98" by (simp add: c)
    with Cons.prems(4) show ?thesis by (simp add: breaker_wf_def)
  next
    case False
    then have c: "c = b\<lparr>reloads_since_epoch_start := reloads_since_epoch_start b + 1\<rparr>"
      using step by (simp add: breaker_step_cases [OF at] split: if_splits)
    with Cons.IH [OF run _ at' wf] Cons.prems(2,5) reloads_add_one [OF Cons.prems(4)]
    show ?thesis by simp
  qed
qed

text \<open>The counter never exceeds the number of calls made since the epoch began.\<close>

lemma breaker_run_counts:
  assumes "breaker_run ts b = Some b'" and "clock_run (us @ ts)"
    and "\<forall>t \<in> set ts. breaker_at t b" and "breaker_wf b"
    and "unat (reloads_since_epoch_start b) \<le> length (filter (\<lambda>x. epoch_start b \<le> x) us)"
  shows "unat (reloads_since_epoch_start b')
           \<le> length (filter (\<lambda>x. epoch_start b' \<le> x) (us @ ts))"
  using assms
proof (induction ts arbitrary: b us)
  case Nil
  then show ?case by simp
next
  case (Cons t ts)
  have at: "breaker_at t b" using Cons.prems(3) by simp
  obtain c where step: "breaker_step t b = Some c" and run: "breaker_run ts c = Some b'"
    using Cons.prems(1) by (auto split: option.splits)
  have at': "\<forall>u \<in> set ts. breaker_at u c"
    using Cons.prems(2) breaker_step_at [OF at step] by (auto simp: clock_run_def sorted_append)
  have wf: "breaker_wf c"
    using breaker_step_at [OF at step, of t] at by (simp add: breaker_at_def)
  have "unat (reloads_since_epoch_start c) \<le> length (filter (\<lambda>x. epoch_start c \<le> x) (us @ [t]))"
    using step Cons.prems(5) reloads_add_one [OF Cons.prems(4)] at
    unfolding breaker_step_cases [OF at]
    by (auto simp: breaker_at_def split: if_splits)
  from Cons.IH [OF run _ at' wf this] Cons.prems(2) show ?case by simp
qed

text \<open>From the start of the process every time stamp lies in the breaker's view.\<close>

lemma breaker_init_at: "valid_time t \<Longrightarrow> breaker_at t breaker_init"
  by (auto simp: breaker_at_def breaker_init_def epoch_start_def breaker_wf_def valid_time_def
      less_eq_timespec_def)

lemma breaker_run_at:
  assumes "breaker_run ts b = Some b'" and "clock_run (ts @ [u])"
    and "\<forall>t \<in> set (ts @ [u]). breaker_at t b"
  shows "breaker_at u b'"
  using assms
proof (induction ts arbitrary: b)
  case Nil
  then show ?case by simp
next
  case (Cons t ts)
  then obtain c where step: "breaker_step t b = Some c" and run: "breaker_run ts c = Some b'"
    by (auto split: option.splits)
  have at: "breaker_at t b" using Cons.prems(3) by simp
  have "\<forall>v \<in> set (ts @ [u]). breaker_at v c"
    using Cons.prems(2) breaker_step_at [OF at step] by (auto simp: clock_run_def)
  with Cons.IH [OF run] Cons.prems(2) show ?case by simp
qed

section \<open>Properties\<close>

text \<open>
  C25: the breaker bounds the reload rate. If the process survives a sequence of reloads whose
  time stamps (monotonic, valid) lie within less than four seconds, there are at most 198 of
  them: the 99 an epoch lets through, at most twice. Holds from every breaker state whose
  epoch began before the first of them.
\<close>

theorem breaker_bounds_reload_rate:
  assumes "breaker_run ts b = Some b'" and "clock_run ts" and "breaker_wf b"
    and "\<forall>t \<in> set ts. epoch_start b \<le> t"
    and "\<forall>t \<in> set ts. \<forall>u \<in> set ts. nanos u - nanos t < 4 * 10 ^ 9"
  shows "length ts \<le> 198"
  using breaker_run_window [OF assms(1,2) _ assms(3,5)] assms(2,3,4)
  by (simp add: breaker_at_def clock_run_def)

theorem breaker_bounds_reload_rate_witness:
  "length [Timespec 10 0, Timespec 11 5] \<le> 198"
proof -
  let ?b = "\<lparr>epoch_start_seconds = 10, epoch_start_nanoseconds = 0, reloads_since_epoch_start = 2\<rparr>"
  have "breaker_run [Timespec 10 0, Timespec 11 5] breaker_init = Some ?b"
    by (simp add: breaker_step_def breaker_init_def seconds_since_epoch_start_def)
  then show ?thesis
    by (rule breaker_bounds_reload_rate)
      (auto simp: clock_run_def valid_time_def less_eq_timespec_def breaker_init_def epoch_start_def
        breaker_wf_def nanos_def)
qed

text \<open>
  C26: the breaker does not trip without cause. If a daemon that started with the initial atomics
  has survived the reloads at the times \<open>ts\<close> and is killed at time \<open>u\<close>, at least 99 of
  those reloads happened within the four seconds before \<open>u\<close>.
\<close>

theorem breaker_trips_only_on_a_loop:
  assumes "breaker_run ts breaker_init = Some b" and "clock_run (ts @ [u])"
    and "breaker_step u b = None"
  shows "99 \<le> length (filter (\<lambda>t. nanos u - nanos t < 4 * 10 ^ 9) ts)"
proof -
  have all: "\<forall>t \<in> set (ts @ [u]). breaker_at t breaker_init"
    using assms(2) breaker_init_at by (auto simp: clock_run_def)
  have at: "breaker_at u b"
    by (rule breaker_run_at [OF assms(1,2) all])
  then have late: "elapsed b u < 4 * 10 ^ 9" and full: "99 \<le> unat (reloads_since_epoch_start b)"
    using assms(3) by (auto simp: breaker_step_cases split: if_splits)
  have "unat (reloads_since_epoch_start b) \<le> length (filter (\<lambda>t. epoch_start b \<le> t) ts)"
    using breaker_run_counts [OF assms(1) _ _ breaker_wf_init, of "[]"] assms(2) all
    by (simp add: clock_run_def sorted_append breaker_init_def)
  also have "\<dots> \<le> length (filter (\<lambda>t. nanos u - nanos t < 4 * 10 ^ 9) ts)"
  proof -
    have "nanos u - nanos t < 4 * 10 ^ 9" if "t \<in> set ts" "epoch_start b \<le> t" for t
      using that late at assms(2) nanos_mono [of "epoch_start b" t]
      by (auto simp: elapsed_def breaker_at_def breaker_wf_def clock_run_def)
    then have "filter (\<lambda>t. epoch_start b \<le> t) ts
        = filter (\<lambda>t. epoch_start b \<le> t) (filter (\<lambda>t. nanos u - nanos t < 4 * 10 ^ 9) ts)"
      by (auto simp: filter_filter intro: filter_cong)
    then show ?thesis by (metis length_filter_le)
  qed
  finally show ?thesis using full by simp
qed

theorem breaker_trips_only_on_a_loop_witness:
  "99 \<le> length (filter (\<lambda>t. nanos (Timespec 1 0) - nanos t < 4 * 10 ^ 9)
            (replicate 99 (Timespec 1 0)))"
proof -
  let ?b = "\<lparr>epoch_start_seconds = 0, epoch_start_nanoseconds = 0, reloads_since_epoch_start = 99\<rparr>"
  have "breaker_run (replicate 99 (Timespec 1 0)) breaker_init = Some ?b"
    by code_simp
  moreover have "clock_run (replicate 99 (Timespec 1 0) @ [Timespec 1 0])"
    by (auto simp: clock_run_def sorted_append valid_time_def)
  moreover have "breaker_step (Timespec 1 0) ?b = None"
    by (simp add: breaker_step_def seconds_since_epoch_start_def)
  ultimately show ?thesis
    by (rule breaker_trips_only_on_a_loop)
qed

text \<open>
  C27: one call of \<open>circuit_breaker\<close>. The clock is read once. If it could be read, the call returns
  when at least four whole seconds have passed since the epoch began, with a new epoch, or when fewer than
  99 reloads were counted, with this one counted too; then it has made no other call. In every
  other case its last call is the \<open>SIGKILL\<close> to the process itself, after which the process is dead, or, when
  even that signal could not be sent, waits for ever. It never panics and never returns an error.
\<close>

theorem circuit_breaker_outcomes:
  assumes run: "circuit_breaker os b w = (r :: ('e, breaker) exec, w')"
    and clock: "\<And>t. ask_time os (trace w) = Inr t \<Longrightarrow> breaker_at t b"
  shows "let c = ask_time os (trace w); read = trace w @ [ClockGettime c]; k = ask_unit os read KillSelf
    in (\<exists>t. c = Inr t \<and> 4 * 10 ^ 9 \<le> elapsed b t \<and> trace w' = read
          \<and> r = Ok \<lparr>epoch_start_seconds = tv_sec t, epoch_start_nanoseconds = tv_nsec t, reloads_since_epoch_start = 1\<rparr>)
     \<or> (\<exists>t. c = Inr t \<and> elapsed b t < 4 * 10 ^ 9 \<and> unat (reloads_since_epoch_start b) < 99 \<and> trace w' = read
          \<and> r = Ok (b\<lparr>reloads_since_epoch_start := reloads_since_epoch_start b + 1\<rparr>))
     \<or> ((\<exists>e. c = Inl e) \<or> (\<exists>t. c = Inr t \<and> elapsed b t < 4 * 10 ^ 9 \<and> 99 \<le> unat (reloads_since_epoch_start b)))
        \<and> trace w' = read @ [UnitAns KillSelf k] \<and> r = (if isl k then NoReturn else Exit Killed)"
proof (cases "ask_time os (trace w)")
  case (Inl e)
  with run show ?thesis
    by (cases "ask_unit os (trace w @ [ClockGettime (Inl e)]) KillSelf")
      (auto simp: circuit_breaker_def instant_exit_def exec_defs sys_defs)
next
  case (Inr t)
  consider "4 * 10 ^ 9 \<le> elapsed b t" | "elapsed b t < 4 * 10 ^ 9" "unat (reloads_since_epoch_start b) < 99"
    | "elapsed b t < 4 * 10 ^ 9" "99 \<le> unat (reloads_since_epoch_start b)"
    by linarith
  then show ?thesis
    using run Inr clock [OF Inr]
    by cases (cases "ask_unit os (trace w @ [ClockGettime (Inr t)]) KillSelf";
      auto simp: circuit_breaker_def instant_exit_def exec_defs sys_defs breaker_step_cases)+
qed

text \<open>The hundredth reload within an epoch, on a kernel that kills the process when asked to.\<close>

theorem circuit_breaker_outcomes_witness:
  "\<exists>w'. circuit_breaker calm_os \<lparr>epoch_start_seconds = 999, epoch_start_nanoseconds = 0, reloads_since_epoch_start = 99\<rparr>
      start_world = (Exit Killed :: (unit, breaker) exec, w')
    \<and> trace w' = [ClockGettime (Inr (Timespec 1000 0)), UnitAns KillSelf (Inr ())]"
proof -
  let ?b = "\<lparr>epoch_start_seconds = 999, epoch_start_nanoseconds = 0, reloads_since_epoch_start = 99\<rparr>"
  obtain r :: "(unit, breaker) exec" and w' where run: "circuit_breaker calm_os ?b start_world = (r, w')"
    by (cases "circuit_breaker calm_os ?b start_world :: (unit, breaker) exec \<times> world")
  have now: "ask_time calm_os (trace start_world) = Inr (Timespec 1000 0)" by (simp add: calm_os_def)
  have at: "\<And>t. ask_time calm_os (trace start_world) = Inr t \<Longrightarrow> breaker_at t ?b"
    by (auto simp: calm_os_def breaker_at_def breaker_wf_def valid_time_def epoch_start_def less_eq_timespec_def nanos_def)
  have "elapsed ?b (Timespec 1000 0) = 10 ^ 9"
    by (simp add: elapsed_def nanos_def epoch_start_def)
  with circuit_breaker_outcomes [OF run at] run show ?thesis
    by (auto simp: now Let_def calm_os_def start_world_def)
qed

end
