(* ===== verification/Utf8.thy ===== *)
theory Utf8 imports Errors begin

text \<open>
  \<open>core::str::from_utf8\<close>, which both request receivers call on their buffer: the well-formed
  byte sequences of UTF-8 (Unicode, table 3-7), and the zero-filled receive buffer. The
  receivers validate the whole buffer, the zeros after the received bytes included.
\<close>

definition cont :: "u8 \<Rightarrow> bool" where
  "cont b \<longleftrightarrow> 0x80 \<le> b \<and> b \<le> 0xBF"

text \<open>The bytes that may follow a given lead byte of a two, three or four byte sequence.\<close>

definition lead2 :: "u8 \<Rightarrow> bool" where
  "lead2 b \<longleftrightarrow> 0xC2 \<le> b \<and> b \<le> 0xDF"

definition lead3 :: "u8 \<Rightarrow> u8 \<Rightarrow> bool" where
  "lead3 b c \<longleftrightarrow>
     (if b = 0xE0 then 0xA0 \<le> c \<and> c \<le> 0xBF
      else if b = 0xED then 0x80 \<le> c \<and> c \<le> 0x9F
      else 0xE1 \<le> b \<and> b \<le> 0xEF \<and> cont c)"

definition lead4 :: "u8 \<Rightarrow> u8 \<Rightarrow> bool" where
  "lead4 b c \<longleftrightarrow>
     (if b = 0xF0 then 0x90 \<le> c \<and> c \<le> 0xBF
      else if b = 0xF4 then 0x80 \<le> c \<and> c \<le> 0x8F
      else 0xF1 \<le> b \<and> b \<le> 0xF3 \<and> cont c)"

fun utf8_valid :: "bytes \<Rightarrow> bool" where
  "utf8_valid [] = True"
| "utf8_valid (b # bs) =
     (if b < 0x80 then utf8_valid bs
      else
        (case bs of
           [] \<Rightarrow> False
         | c # cs \<Rightarrow>
             if lead2 b then cont c \<and> utf8_valid cs
             else
               (case cs of
                  [] \<Rightarrow> False
                | d # ds \<Rightarrow>
                    if lead3 b c then cont d \<and> utf8_valid ds
                    else
                      (case ds of
                         [] \<Rightarrow> False
                       | e # es \<Rightarrow> lead4 b c \<and> cont d \<and> cont e \<and> utf8_valid es))))"

text \<open>A byte as a character of a \<open>string\<close> and back.\<close>

definition byte_char :: "u8 \<Rightarrow> char" where
  "byte_char b = char_of (unat b)"

definition as_bytes :: "string \<Rightarrow> bytes" where
  "as_bytes s = map (\<lambda>c. of_nat (of_char c)) s"

definition from_utf8 :: "bytes \<Rightarrow> detailed_error + string" where
  "from_utf8 bs = (if utf8_valid bs then Inr (map byte_char bs) else Inl Utf8Error)"

text \<open>\<open>recv\<close> into \<open>vec![0u8; n]\<close>.\<close>

definition fill_buffer :: "nat \<Rightarrow> bytes \<Rightarrow> bytes" where
  "fill_buffer n bs = take n bs @ replicate (n - length bs) 0"

lemma length_fill_buffer [simp]: "length (fill_buffer n bs) = n"
  by (simp add: fill_buffer_def)

lemma as_bytes_byte_char [simp]: "as_bytes (map byte_char bs) = bs"
proof -
  have "word_of_nat (of_char (byte_char b)) = b" for b
  proof -
    have "unat b < 256" using unsigned_less [of b, where ?'a = nat] by simp
    then show ?thesis
      by (simp add: byte_char_def of_char_mod_256)
  qed
  then show ?thesis
    by (simp add: as_bytes_def map_idI o_def)
qed

text \<open>\<open>from_utf8\<close> keeps the bytes.\<close>

lemma from_utf8_bytes: "from_utf8 bs = Inr s \<Longrightarrow> as_bytes s = bs"
  by (auto simp: from_utf8_def split: if_splits)

lemma utf8_valid_zeros: "utf8_valid (replicate n 0)"
  by (induction n) auto

text \<open>Zeros after the text never change whether it is valid, so padding is harmless.\<close>

lemma utf8_valid_padded: "utf8_valid (bs @ replicate n 0) \<longleftrightarrow> utf8_valid bs"
proof (induction bs rule: utf8_valid.induct)
  case 1
  then show ?case by (simp add: utf8_valid_zeros)
next
  case (2 b bs)
  have zero: "\<not> cont 0" "\<And>c. \<not> lead3 c 0" "\<And>c. \<not> lead4 c 0"
    by (auto simp: cont_def lead3_def lead4_def)
  show ?case
  proof (cases n)
    case 0
    then show ?thesis by simp
  next
    case (Suc m)
    consider "bs = []" | c where "bs = [c]" | c d where "bs = [c, d]"
      | c d e es where "bs = c # d # e # es"
      by (metis list.exhaust)
    then show ?thesis
    proof cases
      case 1
      show ?thesis
        by (simp add: 1 Suc zero utf8_valid_zeros split: list.split)
    next
      case 2
      with "2.IH" Suc zero show ?thesis
        by (simp add: utf8_valid_zeros split: list.split)
    next
      case 3
      with "2.IH" Suc zero show ?thesis
        by (simp add: utf8_valid_zeros)
    next
      case 4
      with "2.IH" show ?thesis by simp
    qed
  qed
qed

end
