(* ===== verification/Reporting.thy ===== *)
theory Reporting imports Kernel Utf8 begin

text \<open>
  How errors leave the daemon: the macros \<open>send_error!\<close> and \<open>send_all_errors!\<close> and
  \<open>get_optional_env_var\<close> of \<open>src/util.rs\<close>, \<open>early_failure\<close> of \<open>src/early_failure.rs\<close>,
  the logger of \<open>src/linux/logger.rs\<close>, and \<open>unwrap_or_report_failure!\<close> and
  \<open>error_in_brittle_scenario\<close> of \<open>src/linux/util.rs\<close>; and the drop of a \<open>JoinGuard\<close>
  (\<open>src/join_guard.rs\<close>), which decides between the two ways to report a panicked thread.
\<close>

section \<open>The error channel to the main thread\<close>

definition send_error :: "os \<Rightarrow> detailed_error \<Rightarrow> ('e, unit) routine" where
  "send_error os e = bind_io (sys_bool os (SendToMain e)) (\<lambda>delivered. if delivered then ret () else panic)"

fun send_all_errors :: "os \<Rightarrow> detailed_error list \<Rightarrow> ('e, unit) routine" where
  "send_all_errors os [] = ret ()"
| "send_all_errors os (e # es) = bind_io (send_error os e) (\<lambda>_. send_all_errors os es)"

text \<open>
  The expression's value, or the errors to return: its error, after the client has been sent
  the internal-error response, and the error of that \<open>send\<close> if it failed too.
\<close>

definition unwrap_or_report_failure ::
  "os \<Rightarrow> ('s \<times> world, detailed_error, 'a) io \<Rightarrow> raw_fd \<Rightarrow> string
    \<Rightarrow> ('s \<times> world, detailed_error list, 'a) io" where
  "unwrap_or_report_failure os expr client_fd response =
     match_io expr
       (\<lambda>e. match_io (lift_io (sys_num os (Send client_fd (as_bytes response))))
               (\<lambda>e'. throw [e, e'])
               (\<lambda>_. throw [e]))
       ret"

text \<open>
  What both kinds of threads do with the bytes of a request: the whole zero-initialised buffer
  is the text, and a request that is not UTF-8 or does not parse is answered by the serialized
  \<open>MalformedRequest\<close> of the protocol, if that can be serialized.
\<close>

definition reject_malformed ::
  "os \<Rightarrow> detailed_error + string \<Rightarrow> raw_fd \<Rightarrow> detailed_error \<Rightarrow> (detailed_error list, 'a) routine" where
  "reject_malformed os malformed raw_fd e =
     match_io (pure_io malformed)
       (\<lambda>e'. throw [e, e'])
       (\<lambda>response. match_io (sys_num os (Send raw_fd (as_bytes response)))
          (\<lambda>e'. throw [e, e'])
          (\<lambda>_. throw [e]))"

definition parse_request ::
  "os \<Rightarrow> usize \<Rightarrow> (string \<Rightarrow> detailed_error + 'r) \<Rightarrow> detailed_error + string \<Rightarrow> raw_fd
    \<Rightarrow> (detailed_error list, 'r) routine" where
  "parse_request os max_size deserialize malformed raw_fd =
     bind_io (map_err (\<lambda>e. [e]) (sys_recv os raw_fd max_size)) (\<lambda>received.
     case from_utf8 (fill_buffer (unat max_size) received) of
       Inl e \<Rightarrow> reject_malformed os malformed raw_fd e
     | Inr request_str \<Rightarrow>
         (case deserialize request_str of
            Inl e \<Rightarrow> reject_malformed os malformed raw_fd e
          | Inr request \<Rightarrow> ret request))"

section \<open>Reports outside the channel\<close>

definition logger_log :: "detailed_error \<Rightarrow> ('e, unit) routine" where
  "logger_log e = sys_do (LogError e)"

definition PRELUDE :: string where
  "PRELUDE = ''ERROR IN BRITTLE SCENARIO! '' @ [CHR 0x00]"

definition PRELUDE_LEN :: nat where
  "PRELUDE_LEN = 27"

definition error_in_brittle_scenario :: "os \<Rightarrow> string \<Rightarrow> world \<Rightarrow> world" where
  "error_in_brittle_scenario os msg w =
     (let last_errno = errno_cell w;
          w1 = write_stderr os (take PRELUDE_LEN PRELUDE) w;
          w2 = write_stderr os msg w1;
          w3 = write_stderr os [CHR 0x0A] w2
      in w3\<lparr>errno_cell := last_errno\<rparr>)"

definition early_failure :: "string \<Rightarrow> ('e, 'a) routine" where
  "early_failure message w =
     (Exit (ExitCode EXIT_CODE_FAILURE),
      log_event (Did (Stderr (''EARLY FAILURE! '' @ message @ [CHR 0x0A]))) w)"

datatype var_error = NotPresent | NotUnicode

definition get_optional_env_var ::
  "(string \<Rightarrow> var_error + string) \<Rightarrow> string \<Rightarrow> ('e, string option) routine" where
  "get_optional_env_var env name =
     (case env name of
        Inr s \<Rightarrow> ret (Some s)
      | Inl NotPresent \<Rightarrow> ret None
      | Inl NotUnicode \<Rightarrow>
          early_failure (''environment variable '' @ [CHR 0x27] @ name @ [CHR 0x27]
            @ '' is not a valid UTF8-string''))"

section \<open>Joining a thread\<close>

text \<open>
  \<open>JoinGuard::drop\<close>. A panic of the joined thread is passed on, except while this thread is
  itself unwinding: a second panic would abort the process.
\<close>

definition join_guard_drop :: "os \<Rightarrow> garnshared \<Rightarrow> thread_id \<Rightarrow> ('e, unit) routine" where
  "join_guard_drop os gs tid =
     bind_io (sys_bool os (Join tid))
       (\<lambda>ended. if ended then ret ()
          else (\<lambda>w. if panicking w
                    then (Ok (), error_in_brittle_scenario os
                            (''Joining thread in the destructor of JoinGuard failed: ''
                               @ extract_error_message gs tid) w)
                    else panic w))"

section \<open>Lemmas\<close>

lemma take_PRELUDE [simp]: "take PRELUDE_LEN PRELUDE = ''ERROR IN BRITTLE SCENARIO! ''"
  by (simp add: PRELUDE_def PRELUDE_LEN_def)

lemma error_in_brittle_scenario_simps [simp]:
  "errno_cell (error_in_brittle_scenario os msg w) = errno_cell w"
  "panicking (error_in_brittle_scenario os msg w) = panicking w"
  "trace (error_in_brittle_scenario os msg w)
     = trace w @ [Did (Stderr ''ERROR IN BRITTLE SCENARIO! ''), Did (Stderr msg),
                  Did (Stderr [CHR 0x0A])]"
  by (simp_all add: error_in_brittle_scenario_def Let_def)

text \<open>While the main thread listens, errors are delivered, in order, and nothing panics.\<close>

definition main_listens :: "os \<Rightarrow> bool" where
  "main_listens os \<longleftrightarrow> (\<forall>tr e. ask_bool os tr (SendToMain e))"

definition sent :: "detailed_error \<Rightarrow> event" where
  "sent e = BoolAns (SendToMain e) True"

lemma own_sent [simp]: "own (sent e) S = S"
  by (simp add: sent_def)

lemma sent_inject [simp]: "sent e = sent e' \<longleftrightarrow> e = e'"
  by (simp add: sent_def)

lemma send_error_listens:
  "main_listens os \<Longrightarrow> send_error os e w = (Ok (), log_event (sent e) w)"
  by (simp add: send_error_def exec_defs sys_defs main_listens_def sent_def)

lemma send_all_errors_listens:
  "main_listens os \<Longrightarrow>
   send_all_errors os es w = (Ok (), w\<lparr>trace := trace w @ map sent es\<rparr>)"
proof (induction es arbitrary: w)
  case Nil
  then show ?case by (simp add: exec_defs)
next
  case (Cons e es)
  then show ?case
    by (simp add: bind_io_def send_error_listens log_event_def)
qed

text \<open>Whatever is answered, reporting only sends; it never touches a descriptor.\<close>

lemma send_error_result:
  "send_error os e w = (r, w') \<Longrightarrow>
   \<exists>b. w' = log_event (BoolAns (SendToMain e) b) w \<and> r = (if b then Ok () else Panic)"
  by (auto simp: send_error_def exec_defs sys_defs split: if_splits)

end
