(* ===== verification/Routine.thy ===== *)
theory Routine imports Reporting begin

text \<open>
  Reasoning about routines by their structure. \<open>keeps I m\<close>: the routine \<open>m\<close> keeps the predicate
  \<open>I\<close> of the world, on every way out. \<open>only q m\<close>: every call \<open>m\<close> makes satisfies \<open>q\<close>. Both have
  one rule per combinator (the collection \<open>keeps_rules\<close>), so a routine's proof follows its text.
  The locale \<open>trace_invariant\<close> is the contract of a predicate on traces that calls of some
  kind cannot break. The theory also holds the drop of locals that may panic themselves.
\<close>

named_theorems keeps_rules \<open>one rule per combinator\<close>

section \<open>Drops that run code\<close>

text \<open>
  The end of a scope whose local has a destructor that may panic. During unwinding
  \<open>std::thread::panicking\<close> is true, and a second panic aborts the process.
\<close>

definition with_drop :: "('e, unit) routine \<Rightarrow> ('e, 'a) routine \<Rightarrow> ('e, 'a) routine" where
  "with_drop d m w =
     (case m w of
        (Ok a, w') \<Rightarrow> bind_io d (\<lambda>_. ret a) w'
      | (Err e, w') \<Rightarrow> bind_io d (\<lambda>_. throw e) w'
      | (Panic, w') \<Rightarrow>
          (case d (w'\<lparr>panicking := True\<rparr>) of
             (Ok _, w'') \<Rightarrow> (Panic, w'')
           | (Err _, w'') \<Rightarrow> (Panic, w'')
           | (Panic, w'') \<Rightarrow> (Exit Killed, w'')
           | (Exit x, w'') \<Rightarrow> (Exit x, w'')
           | (NoReturn, w'') \<Rightarrow> (NoReturn, w''))
      | (Exit x, w') \<Rightarrow> (Exit x, w')
      | (NoReturn, w') \<Rightarrow> (NoReturn, w'))"

text \<open>
  The same for a local that the successful way out moves away: it is dropped on an error or a
  panic only. The routine works on an object beside the world.
\<close>

definition drop_on_exit :: "('e, unit) routine \<Rightarrow> ('s \<times> world, 'e, 'a) io \<Rightarrow> ('s \<times> world, 'e, 'a) io" where
  "drop_on_exit d m sw =
     (case m sw of
        (Ok a, s, w') \<Rightarrow> (Ok a, s, w')
      | (Err e, s, w') \<Rightarrow> bind_io (lift_io d) (\<lambda>_. throw e) (s, w')
      | (Panic, s, w') \<Rightarrow> lift_io (with_drop d panic) (s, w')
      | (Exit x, s, w') \<Rightarrow> (Exit x, s, w')
      | (NoReturn, s, w') \<Rightarrow> (NoReturn, s, w'))"

section \<open>Keeping a predicate\<close>

definition keeps :: "('w \<Rightarrow> bool) \<Rightarrow> ('w, 'e, 'a) io \<Rightarrow> bool" where
  "keeps I m \<longleftrightarrow> (\<forall>w r w'. I w \<longrightarrow> m w = (r, w') \<longrightarrow> I w')"

lemma keepsI: "(\<And>w r w'. I w \<Longrightarrow> m w = (r, w') \<Longrightarrow> I w') \<Longrightarrow> keeps I m"
  by (simp add: keeps_def)

lemma keepsD: "keeps I m \<Longrightarrow> I w \<Longrightarrow> m w = (r, w') \<Longrightarrow> I w'"
  by (simp add: keeps_def)

lemma keeps_pure [keeps_rules]:
  "keeps I (ret a)" "keeps I (throw e)" "keeps I panic" "keeps I (unwrap x)"
  by (auto simp: keeps_def exec_defs split: option.splits)

lemma keeps_pure_io [keeps_rules]: "keeps I (pure_io r)"
  by (auto simp: keeps_def pure_io_def)

lemma keeps_bind [keeps_rules]:
  "keeps I m \<Longrightarrow> (\<And>a. keeps I (f a)) \<Longrightarrow> keeps I (bind_io m f)"
  apply (rule keepsI)
  subgoal for w r w'
    by (cases "m w", cases "fst (m w)") (auto simp: bind_io_def dest: keepsD)
  done

lemma keeps_match [keeps_rules]:
  "keeps I m \<Longrightarrow> (\<And>e. keeps I (g e)) \<Longrightarrow> (\<And>a. keeps I (f a)) \<Longrightarrow> keeps I (match_io m g f)"
  apply (rule keepsI)
  subgoal for w r w'
    by (cases "m w", cases "fst (m w)") (auto simp: match_io_def, (meson keepsD)+)
  done

lemma keeps_map_err [keeps_rules]: "keeps I m \<Longrightarrow> keeps I (map_err g m)"
  apply (rule keepsI)
  subgoal for w r w'
    by (cases "m w", cases "fst (m w)") (auto simp: map_err_def dest: keepsD)
  done

lemma keeps_catch_unwind [keeps_rules]: "keeps I m \<Longrightarrow> keeps I (catch_unwind m)"
  apply (rule keepsI)
  subgoal for w r w'
    by (cases "m w", cases "fst (m w)") (auto simp: catch_unwind_def dest: keepsD)
  done

lemma keeps_finally [keeps_rules]:
  "keeps I m \<Longrightarrow> (\<And>w. I w \<Longrightarrow> I (d w)) \<Longrightarrow> keeps I (finally_drop d m)"
  apply (rule keepsI)
  subgoal for w r w'
    by (cases "m w", cases "fst (m w)") (auto simp: finally_drop_def dest: keepsD)
  done

lemma keeps_on_exit [keeps_rules]:
  "keeps I m \<Longrightarrow> (\<And>w. I w \<Longrightarrow> I (d w)) \<Longrightarrow> keeps I (on_exit_drop d m)"
  apply (rule keepsI)
  subgoal for w r w'
    by (cases "m w", cases "fst (m w)") (auto simp: on_exit_drop_def dest: keepsD)
  done

lemma keeps_lift [keeps_rules]:
  "(\<And>s. keeps (\<lambda>w. I (s, w)) m) \<Longrightarrow> keeps I (lift_io m)"
  unfolding keeps_def lift_io_def by (auto split: prod.splits)

lemma keeps_self [keeps_rules]:
  "keeps I get_self"
  "(\<And>s w. I (s, w) \<Longrightarrow> I (f s, w)) \<Longrightarrow> keeps I (set_self f)"
  by (auto simp: keeps_def get_self_def set_self_def)

lemma keeps_case_option [keeps_rules]:
  "keeps I m \<Longrightarrow> (\<And>a. keeps I (f a)) \<Longrightarrow> keeps I (case x of None \<Rightarrow> m | Some a \<Rightarrow> f a)"
  by (cases x) auto

lemma keeps_case_prod [keeps_rules]:
  "(\<And>a b. keeps I (f a b)) \<Longrightarrow> keeps I (case x of (a, b) \<Rightarrow> f a b)"
  by (cases x) auto

lemma keeps_case_try_recv [keeps_rules]:
  "(\<And>a. keeps I (f a)) \<Longrightarrow> keeps I m \<Longrightarrow> keeps I k
   \<Longrightarrow> keeps I (case x of Received a \<Rightarrow> f a | Empty \<Rightarrow> m | Disconnected \<Rightarrow> k)"
  by (cases x) auto

lemma keeps_if [keeps_rules]:
  "(b \<Longrightarrow> keeps I m) \<Longrightarrow> (\<not> b \<Longrightarrow> keeps I k) \<Longrightarrow> keeps I (if b then m else k)"
  by simp

lemma keeps_case_sum [keeps_rules]:
  "(\<And>a. keeps I (f a)) \<Longrightarrow> (\<And>b. keeps I (g b)) \<Longrightarrow> keeps I (case x of Inl a \<Rightarrow> f a | Inr b \<Rightarrow> g b)"
  by (cases x) auto

lemma keeps_run_loop [keeps_rules]:
  assumes "\<And>s. keeps I (body s)"
  shows "keeps I (run_loop n body s)"
proof (induction n arbitrary: s)
  case 0
  then show ?case by (auto simp: keeps_def)
next
  case (Suc n)
  show ?case
  proof (rule keepsI)
    fix w r w' assume I: "I w" and run: "run_loop (Suc n) body s w = (r, w')"
    obtain x v where b: "body s w = (x, v)" by (cases "body s w")
    have v: "I v" by (rule keepsD [OF assms I b])
    show "I w'"
      using run b v keepsD [OF Suc.IH v] by (cases x) (auto split: turn.splits)
  qed
qed

lemma keeps_unwrap_or_report [keeps_rules]:
  "keeps I m \<Longrightarrow> (\<And>s b. keeps (\<lambda>w. I (s, w)) (sys_num os (Send fd b)))
   \<Longrightarrow> keeps I (unwrap_or_report_failure os m fd t)"
  unfolding unwrap_or_report_failure_def by (intro keeps_match keeps_lift keeps_pure)

lemma keeps_with_drop [keeps_rules]:
  assumes m: "keeps I m" and d: "keeps I d" and I: "\<And>w. I w \<Longrightarrow> I (w\<lparr>panicking := True\<rparr>)"
  shows "keeps I (with_drop d m)"
proof (rule keepsI)
  fix w r w' assume "I w" and run: "with_drop d m w = (r, w')"
  obtain x v where mw: "m w = (x, v)" by (cases "m w")
  have v: "I v" by (rule keepsD [OF m \<open>I w\<close> mw])
  have dk: "\<And>y u. d v = (y, u) \<Longrightarrow> I u" "\<And>y u. d (v\<lparr>panicking := True\<rparr>) = (y, u) \<Longrightarrow> I u"
    using keepsD [OF d v] keepsD [OF d I [OF v]] by blast+
  show "I w'"
    using run mw v dk
    by (cases x) (auto simp: with_drop_def exec_defs split: prod.splits exec.splits)
qed

lemma keeps_drop_on_exit [keeps_rules]:
  assumes m: "keeps I m" and d: "\<And>s. keeps (\<lambda>w. I (s, w)) d"
    and I: "\<And>s w. I (s, w) \<Longrightarrow> I (s, w\<lparr>panicking := True\<rparr>)"
  shows "keeps I (drop_on_exit d m)"
proof (rule keepsI)
  fix sw r sw' assume "I sw" and run: "drop_on_exit d m sw = (r, sw')"
  obtain x s v where mw: "m sw = (x, s, v)" by (cases "m sw")
  have v: "I (s, v)" by (rule keepsD [OF m \<open>I sw\<close> mw])
  have err: "keeps I (bind_io (lift_io d) (\<lambda>_. throw e))" for e
    by (intro keeps_bind keeps_lift keeps_pure d)
  have "keeps (\<lambda>w. I (s, w)) (with_drop d panic)" for s
    by (intro keeps_with_drop keeps_pure d I)
  then have pan: "keeps I (lift_io (with_drop d panic))"
    by (intro keeps_lift)
  show "I sw'"
    using run mw v keepsD [OF err v] keepsD [OF pan v]
    by (cases x; cases sw') (auto simp: drop_on_exit_def)
qed

section \<open>Predicates on traces\<close>

text \<open>
  The contract between a predicate on traces and the calls: a call that satisfies \<open>q\<close> keeps
  it. Then a routine whose calls all satisfy \<open>q\<close> keeps it.
\<close>

locale trace_invariant =
  fixes J :: "event list \<Rightarrow> bool" and q :: "event \<Rightarrow> bool"
  assumes snoc: "J tr \<Longrightarrow> q e \<Longrightarrow> J (tr @ [e])"
begin

abbreviation I :: "world \<Rightarrow> bool" where "I w \<equiv> J (trace w)"

lemma log: "I w \<Longrightarrow> q e \<Longrightarrow> I (log_event e w)"
  by (simp add: snoc)

lemma close: "I w \<Longrightarrow> q (Did (Close fd)) \<Longrightarrow> I (close_fd fd w)"
  by (simp add: snoc)

lemma answers:
  "(\<And>r. q (FdAns c r)) \<Longrightarrow> keeps I (sys_fd os c)"
  "(\<And>r. q (UnitAns u r)) \<Longrightarrow> keeps I (sys_unit os u)"
  "(\<And>r. q (NumAns n r)) \<Longrightarrow> keeps I (sys_num os n)"
  "(\<And>r. q (BoolAns b r)) \<Longrightarrow> keeps I (sys_bool os b)"
  "(\<And>r. q (PeerUid fd r)) \<Longrightarrow> keeps I (sys_uid os fd)"
  "(\<And>r. q (Recv fd k r)) \<Longrightarrow> keeps I (sys_recv os fd k)"
  "(\<And>r. q (Poll fds r)) \<Longrightarrow> keeps I (sys_poll os fds)"
  "(\<And>r. q (EpollWait fd k r)) \<Longrightarrow> keeps I (sys_epoll os fd k)"
  "(\<And>r. q (SysconfPageSize r)) \<Longrightarrow> keeps I (sys_sysconf os)"
  "(\<And>r. q (ClockGettime r)) \<Longrightarrow> keeps I (sys_time os)"
  "(\<And>r. q (Spawn role r)) \<Longrightarrow> keeps I (sys_spawn os role)"
  "(\<And>r. q (RecvClosedName r)) \<Longrightarrow> keeps I (sys_closed_name os)"
  "(\<And>r. q (RecvListener r)) \<Longrightarrow> keeps I (sys_listener os)"
  "(\<And>r. q (RecvSyncResponse t r)) \<Longrightarrow> keeps I (sys_sync os t)"
  "(\<And>r. q (RecvReport r)) \<Longrightarrow> keeps I (sys_report os)"
  "(\<And>r. q (TryRecvReport r)) \<Longrightarrow> keeps I (sys_try_report os)"
  "q (Did a) \<Longrightarrow> keeps I (sys_do a)"
  by (auto simp: keeps_def sys_defs snoc)

lemma reports:
  "(\<And>e r. q (BoolAns (SendToMain e) r)) \<Longrightarrow> keeps I (send_error os e)"
  "(\<And>e r. q (BoolAns (SendToMain e) r)) \<Longrightarrow> keeps I (send_all_errors os es)"
proof -
  show one: "keeps I (send_error os e)" if "\<And>e r. q (BoolAns (SendToMain e) r)" for e
    unfolding send_error_def by (intro keeps_bind answers keeps_if keeps_pure that)
  show "keeps I (send_all_errors os es)" if "\<And>e r. q (BoolAns (SendToMain e) r)"
    by (induction es) (simp_all add: keeps_pure keeps_bind one that)
qed

lemma requests:
  assumes "\<And>r. q (Recv fd n r)" and "\<And>b r. q (NumAns (Send fd b) r)"
  shows "keeps I (parse_request os n des mal fd)"
  unfolding parse_request_def reject_malformed_def
  by (intro keeps_bind keeps_map_err keeps_case_sum keeps_match keeps_pure keeps_pure_io answers assms)

lemma brittle:
  assumes "I w" and "\<And>s. q (Did (Stderr s))"
  shows "I (error_in_brittle_scenario os msg w)"
  using snoc [OF snoc [OF snoc [OF assms(1) assms(2)] assms(2)] assms(2)] by simp

end

section \<open>The calls a routine makes\<close>

text \<open>
  \<open>extends tr0 q\<close>: a trace that continues \<open>tr0\<close> by calls satisfying \<open>q\<close>. Every such predicate
  is a trace invariant, so the rules above compute the alphabet of a routine.
\<close>

definition extends :: "event list \<Rightarrow> (event \<Rightarrow> bool) \<Rightarrow> event list \<Rightarrow> bool" where
  "extends tr0 q tr \<longleftrightarrow> (\<exists>es. tr = tr0 @ es \<and> list_all q es)"

interpretation alphabet: trace_invariant "extends tr0 q" q for tr0 q
  by unfold_locales (auto simp: extends_def)

lemma extends_refl [simp]: "extends tr q tr"
  by (simp add: extends_def)

definition only :: "(event \<Rightarrow> bool) \<Rightarrow> ('e, 'a) routine \<Rightarrow> bool" where
  "only q m \<longleftrightarrow> (\<forall>tr0. keeps (\<lambda>w. extends tr0 q (trace w)) m)"

definition only_self :: "(event \<Rightarrow> bool) \<Rightarrow> ('s \<times> world, 'e, 'a) io \<Rightarrow> bool" where
  "only_self q m \<longleftrightarrow> (\<forall>tr0. keeps (\<lambda>sw. extends tr0 q (trace (snd sw))) m)"

lemma only_result:
  assumes "only q m" and "m w = (r, w')"
  shows "\<exists>es. trace w' = trace w @ es \<and> list_all q es"
  using assms(1) [unfolded only_def, rule_format, THEN keepsD, OF extends_refl assms(2)]
  by (simp add: extends_def)

lemma only_self_result:
  assumes "only_self q m" and "m (s, w) = (r, s', w')"
  shows "\<exists>es. trace w' = trace w @ es \<and> list_all q es"
  using assms(1) [unfolded only_self_def, THEN spec, of "trace w", THEN keepsD, of "(s, w)", OF _ assms(2)]
  by (simp add: extends_def)

text \<open>A trace invariant is kept by every routine whose calls cannot break it.\<close>

context trace_invariant begin

lemma extends_keeps: "extends tr0 q tr \<Longrightarrow> J tr0 \<Longrightarrow> J tr"
proof -
  have "list_all q es \<Longrightarrow> J tr0 \<Longrightarrow> J (tr0 @ es)" for es
    by (induction es rule: rev_induct) (simp, simp del: append_assoc add: append_assoc [symmetric] snoc)
  then show "extends tr0 q tr \<Longrightarrow> J tr0 \<Longrightarrow> J tr"
    by (auto simp: extends_def)
qed

lemma only_keeps:
  assumes "only q m"
  shows "keeps I m"
proof (rule keepsI)
  fix w r w' assume J: "J (trace w)" and run: "m w = (r, w')"
  have "extends (trace w) q (trace w')"
    using only_result [OF assms run] by (simp add: extends_def)
  from extends_keeps [OF this J] show "J (trace w')" .
qed

lemma only_self_keeps:
  assumes "only_self q m"
  shows "keeps (\<lambda>sw. I (snd sw)) m"
proof (rule keepsI)
  fix w r w' assume J: "J (trace (snd w))" and run: "m w = (r, w')"
  have "extends (trace (snd w)) q (trace (snd w'))"
    using only_self_result [OF assms, of "fst w" "snd w" r "fst w'" "snd w'"] run
    by (simp add: extends_def)
  from extends_keeps [OF this J] show "J (trace (snd w'))" .
qed

end

section \<open>Routines that handle their errors\<close>

text \<open>A thread's body returns nothing: every error is reported on the way.\<close>

definition no_err :: "('w, 'e, 'a) io \<Rightarrow> bool" where
  "no_err m \<longleftrightarrow> (\<forall>w e. fst (m w) \<noteq> Err e)"

named_theorems no_err_rules \<open>one rule per combinator\<close>

lemma no_errD: "no_err m \<Longrightarrow> m w = (r, w') \<Longrightarrow> r \<noteq> Err e"
  by (metis no_err_def fst_conv)

lemma no_err_calls [no_err_rules]:
  "no_err (ret a)" "no_err panic" "no_err (unwrap x)" "no_err get_self" "no_err (set_self f)"
  "no_err (sys_bool os b)" "no_err (sys_do c)" "no_err (sys_listener os)" "no_err (sys_closed_name os)"
  "no_err (sys_sync os t)" "no_err (sys_report os)" "no_err (sys_try_report os)"
  by (auto simp: no_err_def exec_defs sys_defs split: option.splits)

lemma no_err_bind [no_err_rules]: "no_err m \<Longrightarrow> (\<And>a. no_err (f a)) \<Longrightarrow> no_err (bind_io m f)"
  by (auto simp: no_err_def bind_io_def split: prod.splits exec.splits) (metis fst_conv)

lemma no_err_match [no_err_rules]:
  "(\<And>e. no_err (g e)) \<Longrightarrow> (\<And>a. no_err (f a)) \<Longrightarrow> no_err (match_io m g f)"
  by (auto simp: no_err_def match_io_def split: prod.splits exec.splits)

lemma no_err_lift [no_err_rules]: "no_err m \<Longrightarrow> no_err (lift_io m)"
  by (auto simp: no_err_def lift_io_def split: prod.splits) (metis fst_conv)

lemma no_err_if [no_err_rules]: "(b \<Longrightarrow> no_err m) \<Longrightarrow> (\<not> b \<Longrightarrow> no_err k) \<Longrightarrow> no_err (if b then m else k)"
  by simp

lemma no_err_finally [no_err_rules]: "no_err m \<Longrightarrow> no_err (finally_drop d m)"
  by (auto simp: no_err_def finally_drop_def split: prod.splits exec.splits) (metis fst_conv)

lemma no_err_catch [no_err_rules]: "no_err m \<Longrightarrow> no_err (catch_unwind m)"
  by (auto simp: no_err_def catch_unwind_def split: prod.splits exec.splits) (metis fst_conv)

lemma no_err_case_try_recv [no_err_rules]:
  "(\<And>a. no_err (f a)) \<Longrightarrow> no_err m \<Longrightarrow> no_err k
   \<Longrightarrow> no_err (case x of Received a \<Rightarrow> f a | Empty \<Rightarrow> m | Disconnected \<Rightarrow> k)"
  by (cases x) auto

lemma no_err_case_option [no_err_rules]:
  "no_err m \<Longrightarrow> (\<And>a. no_err (f a)) \<Longrightarrow> no_err (case x of None \<Rightarrow> m | Some a \<Rightarrow> f a)"
  by (cases x) auto

lemma no_err_run_loop [no_err_rules]:
  assumes "\<And>s. no_err (body s)"
  shows "no_err (run_loop n body s)"
proof (induction n arbitrary: s)
  case (Suc n)
  show ?case
    unfolding no_err_def
  proof (intro allI)
    fix w e
    obtain x v where b: "body s w = (x, v)" by (cases "body s w")
    show "fst (run_loop (Suc n) body s w) \<noteq> Err e"
      using b no_errD [OF assms b] Suc.IH
      by (cases x) (auto simp: no_err_def split: turn.splits)
  qed
qed (simp add: no_err_def)

lemma no_err_with_drop [no_err_rules]: "no_err m \<Longrightarrow> no_err d \<Longrightarrow> no_err (with_drop d m)"
  unfolding no_err_def
proof (intro allI)
  fix w e assume m: "\<forall>w e. fst (m w) \<noteq> Err e" and d: "\<forall>w e. fst (d w) \<noteq> Err e"
  obtain x v where mw: "m w = (x, v)" by (cases "m w")
  obtain y u z t where dv: "d v = (y, u)" "d (v\<lparr>panicking := True\<rparr>) = (z, t)"
    by (cases "d v", cases "d (v\<lparr>panicking := True\<rparr>)")
  have "x \<noteq> Err e" "y \<noteq> Err e" using m d mw dv by (metis fst_conv)+
  then show "fst (with_drop d m w) \<noteq> Err e"
    using mw dv m [THEN spec, of w] by (cases x; cases y; cases z) (auto simp: with_drop_def exec_defs)
qed

lemma no_err_reports [no_err_rules]: "no_err (send_error os e)" "no_err (send_all_errors os es)"
proof -
  show one: "no_err (send_error os e)" for e
    unfolding send_error_def by (intro no_err_rules)
  show "no_err (send_all_errors os es)"
    by (induction es) (auto intro: no_err_rules one)
qed

end
