(* ===== verification/Shm_Allocator.thy ===== *)
theory Shm_Allocator imports Reporting begin

text \<open>
  \<open>src/linux/shm_allocator.rs\<close>: the bump allocator that places named resources in pages of
  shared memory. The struct is the record \<open>shm_allocator\<close>; its \<open>HashMap\<close> is a map, its
  \<open>Vec\<close> of pages a list, the boxed destructor closure is the type whose value it drops.
  \<open>usize\<close> arithmetic is word arithmetic, so a wrap-around would show; the lemmas prove that
  none happens. Indices into the \<open>Vec\<close> are \<open>nat\<close>: a \<open>Vec\<close> never has \<open>2 ^ 63\<close> entries.
\<close>

section \<open>Data\<close>

record client_resource_location =
  loc_page :: nat
  loc_offset :: usize
  loc_fd :: raw_fd

record resource_metadata =
  res_type_id :: type_uuid
  res_page :: nat
  res_offset :: usize
  res_destructor :: rust_type

record shm_page =
  page_fd :: raw_fd
  page_mem :: addr

record shm_allocator =
  resources :: "string \<rightharpoonup> resource_metadata"
  page_size :: usize
  pages :: "shm_page list"
  free_ptr :: usize

section \<open>Operations\<close>

definition shm_new :: "os \<Rightarrow> (detailed_error, shm_allocator) routine" where
  "shm_new os =
     bind_io (sys_sysconf os)
       (\<lambda>answer.
          case answer of
            None \<Rightarrow> throw (RuntimeError GetPageSizeFailed)
          | Some res \<Rightarrow>
              if res = 0 then throw (RuntimeError GetPageSizeFailed)
              else if sint res < 0 then panic
              else ret \<lparr>resources = Map.empty, page_size = res, pages = [], free_ptr = 0\<rparr>)"

definition is_multiple_of :: "usize \<Rightarrow> usize \<Rightarrow> bool" where
  "is_multiple_of a b \<longleftrightarrow> (if b = 0 then a = 0 else a mod b = 0)"

definition get_aligned_free_pointer :: "shm_allocator \<Rightarrow> usize \<Rightarrow> usize \<Rightarrow> usize option" where
  "get_aligned_free_pointer self sz align =
     (let aligned_free_ptr =
        (if is_multiple_of (free_ptr self) align then free_ptr self
         else free_ptr self + (align - free_ptr self mod align))
      in if page_size self < aligned_free_ptr + sz then None
         else Some aligned_free_ptr)"

text \<open>\<open>off_t::try_from\<close> of a \<open>usize\<close>: \<open>off_t\<close> is a signed 64-bit integer.\<close>

definition off_t_try_from :: "usize \<Rightarrow> detailed_error + i64" where
  "off_t_try_from n = (if sint n < 0 then Inl TryFromIntError else Inr n)"

definition create_new_page :: "os \<Rightarrow> (shm_allocator \<times> world, detailed_error, unit) io" where
  "create_new_page os =
     bind_io get_self (\<lambda>self.
     bind_io (lift_io (sys_fd os (MemfdCreate SHM_FILE_NAME))) (\<lambda>shm_fd.
     on_exit_drop (apsnd (close_fd shm_fd))
       (bind_io (lift_io (pure_io (off_t_try_from (page_size self)))) (\<lambda>len.
        bind_io (lift_io (sys_unit os (Ftruncate shm_fd len))) (\<lambda>_.
        bind_io (lift_io (sys_unit os (AddSeals shm_fd))) (\<lambda>_.
        bind_io (if page_size self = 0 then panic else ret ()) (\<lambda>_.
        bind_io (lift_io (sys_num os (Mmap shm_fd (page_size self)))) (\<lambda>res.
        set_self (\<lambda>self. self\<lparr>free_ptr := 0,
          pages := pages self @ [\<lparr>page_fd = shm_fd, page_mem = res\<rparr>]\<rparr>)))))))))"

text \<open>
  The part of \<open>construct_in_shm\<close> that finds the slot: make the first page if there is none,
  else a new one if the resource does not fit the current one, and move the free pointer.
\<close>

definition reserve_slot :: "os \<Rightarrow> rust_type \<Rightarrow> (shm_allocator \<times> world, detailed_error, usize) io" where
  "reserve_slot os T =
     bind_io get_self (\<lambda>self.
     bind_io (if pages self = [] then create_new_page os else ret ()) (\<lambda>_.
     bind_io get_self (\<lambda>self.
     bind_io
       (case get_aligned_free_pointer self (size_of T) (align_of T) of
          Some p \<Rightarrow> ret (Some p)
        | None \<Rightarrow>
            bind_io (create_new_page os) (\<lambda>_.
            bind_io get_self (\<lambda>self.
            ret (get_aligned_free_pointer self (size_of T) (align_of T)))))
       (\<lambda>aligned.
     bind_io (unwrap aligned) (\<lambda>aligned_free_ptr.
     bind_io (set_self (\<lambda>self. self\<lparr>free_ptr := aligned_free_ptr + size_of T\<rparr>)) (\<lambda>_.
     ret aligned_free_ptr))))))"

definition construct_in_shm ::
  "os \<Rightarrow> rust_type \<Rightarrow> string \<Rightarrow> (addr \<Rightarrow> (detailed_error, unit) routine)
    \<Rightarrow> (shm_allocator \<times> world, detailed_error, client_resource_location) io" where
  "construct_in_shm os T name placement_constructor =
     bind_io get_self (\<lambda>self.
     if resources self name \<noteq> None
     then throw (RuntimeError (ResourceNameAlreadyInUse name))
     else if page_size self < size_of T
     then throw (RuntimeError (ResourceTooLargeForPage (page_size self) (size_of T)))
     else if page_size self < align_of T
     then throw (RuntimeError (ResourceAlignmentLargerThanPage (page_size self) (align_of T)))
     else
       bind_io (reserve_slot os T) (\<lambda>aligned_free_ptr.
       bind_io get_self (\<lambda>self.
       bind_io (unwrap (last_opt (pages self))) (\<lambda>page.
       bind_io (lift_io (placement_constructor (page_mem page + aligned_free_ptr))) (\<lambda>_.
       bind_io
         (set_self (\<lambda>self. self\<lparr>resources := (resources self)(name \<mapsto>
            \<lparr>res_type_id = type_uuid T, res_page = length (pages self) - 1,
             res_offset = aligned_free_ptr, res_destructor = T\<rparr>)\<rparr>))
         (\<lambda>_.
       ret \<lparr>loc_page = length (pages self) - 1, loc_offset = aligned_free_ptr,
            loc_fd = page_fd page\<rparr>))))))"

definition find_resource ::
  "shm_allocator \<Rightarrow> rust_type \<Rightarrow> string
    \<Rightarrow> (detailed_error, client_resource_location option) routine" where
  "find_resource self T name =
     (case resources self name of
        None \<Rightarrow> ret None
      | Some r \<Rightarrow>
          if res_type_id r \<noteq> type_uuid T
          then throw (RuntimeError (ResourceTypeMismatch (type_name T) ''<unavailable at runtime>''))
          else bind_io (unwrap (nth_opt (pages self) (res_page r)))
                 (\<lambda>page. ret (Some \<lparr>loc_page = res_page r, loc_offset = res_offset r,
                                  loc_fd = page_fd page\<rparr>)))"

section \<open>Drop\<close>

text \<open>
  The closure run for one resource: index its page, then drop the value at its address. A
  panic of either is caught. The \<open>HashMap\<close> is drained in an order of its own, which is the
  parameter \<open>order\<close>.
\<close>

definition destroy_resource :: "os \<Rightarrow> shm_page list \<Rightarrow> resource_metadata \<Rightarrow> ('e, unit) routine" where
  "destroy_resource os ps r =
     bind_io (unwrap (nth_opt ps (res_page r)))
       (\<lambda>page. bind_io (sys_bool os
                  (DropInPlace (page_mem page + res_offset r) (type_uuid (res_destructor r))))
                  (\<lambda>ended. if ended then ret () else panic))"

fun drop_resources ::
  "os \<Rightarrow> shm_page list \<Rightarrow> (string \<times> resource_metadata) list \<Rightarrow> bool \<Rightarrow> ('e, bool) routine" where
  "drop_resources os ps [] first_panic = ret first_panic"
| "drop_resources os ps ((_, r) # rs) first_panic =
     bind_io (catch_unwind (destroy_resource os ps r))
       (\<lambda>panicked. drop_resources os ps rs (first_panic \<or> panicked))"

fun unmap_pages :: "os \<Rightarrow> garnshared \<Rightarrow> usize \<Rightarrow> shm_page list \<Rightarrow> ('e, unit) routine" where
  "unmap_pages os gs sz [] = ret ()"
| "unmap_pages os gs sz (p # ps) =
     bind_io
       (match_io (sys_unit os (Munmap (page_mem p) sz))
          (\<lambda>e w. (Ok (), error_in_brittle_scenario os
              (''unmapping of shared memory failed: '' @ display_error (display_foreign gs) e) w))
          (\<lambda>_. ret ()))
       (\<lambda>_. unmap_pages os gs sz ps)"

definition close_pages :: "shm_page list \<Rightarrow> world \<Rightarrow> world" where
  "close_pages ps w = fold (\<lambda>p. close_fd (page_fd p)) ps w"

type_synonym drain_order =
  "(string \<rightharpoonup> resource_metadata) \<Rightarrow> (string \<times> resource_metadata) list"

text \<open>\<open>Drop::drop\<close>, then the drop of the fields: the pages close their descriptors.\<close>

definition shm_drop :: "os \<Rightarrow> garnshared \<Rightarrow> drain_order \<Rightarrow> shm_allocator \<Rightarrow> ('e, unit) routine" where
  "shm_drop os gs order self =
     finally_drop (close_pages (pages self))
       (bind_io (drop_resources os (pages self) (order (resources self)) False) (\<lambda>first_panic.
        bind_io (unmap_pages os gs (page_size self) (pages self)) (\<lambda>_.
        if first_panic
        then (\<lambda>w. if panicking w
                  then (Ok (), error_in_brittle_scenario os
                          ''ShmAllocator panicked while destructing'' w)
                  else panic w)
        else ret ())))"

text \<open>What \<open>HashMap::drain\<close> documents: every entry once, in any order.\<close>

definition drains :: "drain_order \<Rightarrow> (string \<rightharpoonup> resource_metadata) \<Rightarrow> bool" where
  "drains order m \<longleftrightarrow> distinct (map fst (order m)) \<and> map_of (order m) = m"

section \<open>Well-formed allocators\<close>

text \<open>What Rust guarantees of every type's layout: the alignment is a power of two.\<close>

definition rust_layout :: "rust_type \<Rightarrow> bool" where
  "rust_layout T \<longleftrightarrow> (\<exists>k. unat (align_of T) = 2 ^ k)"

definition region :: "resource_metadata \<Rightarrow> nat set" where
  "region r = {unat (res_offset r) ..< unat (res_offset r) + unat (size_of (res_destructor r))}"

definition resource_ok :: "shm_allocator \<Rightarrow> resource_metadata \<Rightarrow> bool" where
  "resource_ok a r \<longleftrightarrow>
     res_type_id r = type_uuid (res_destructor r) \<and>
     res_page r < length (pages a) \<and>
     unat (align_of (res_destructor r)) dvd unat (res_offset r) \<and>
     unat (res_offset r) + unat (size_of (res_destructor r)) \<le> unat (page_size a) \<and>
     (res_page r = length (pages a) - 1 \<longrightarrow>
        unat (res_offset r) + unat (size_of (res_destructor r)) \<le> unat (free_ptr a))"

definition disjoint_resources :: "shm_allocator \<Rightarrow> bool" where
  "disjoint_resources a \<longleftrightarrow>
     (\<forall>n m r s. resources a n = Some r \<longrightarrow> resources a m = Some s \<longrightarrow> n \<noteq> m \<longrightarrow>
        res_page r = res_page s \<longrightarrow> region r \<inter> region s = {})"

text \<open>The page size is a power of two (Linux defines it by a shift) that fits an \<open>off_t\<close>.\<close>

definition page_size_ok :: "usize \<Rightarrow> bool" where
  "page_size_ok n \<longleftrightarrow> (\<exists>k\<le>62. unat n = 2 ^ k)"

definition shm_wf :: "shm_allocator \<Rightarrow> bool" where
  "shm_wf a \<longleftrightarrow>
     page_size_ok (page_size a) \<and>
     unat (free_ptr a) \<le> unat (page_size a) \<and>
     finite (dom (resources a)) \<and>
     (\<forall>n r. resources a n = Some r \<longrightarrow> resource_ok a r) \<and>
     disjoint_resources a"

lemma page_size_ok_bounds:
  assumes "page_size_ok n"
  shows "0 < unat n" and "unat n \<le> 2 ^ 62" and "n \<noteq> 0" and "0 \<le> sint n"
proof -
  obtain k where k: "k \<le> 62" "unat n = 2 ^ k"
    using assms by (auto simp: page_size_ok_def)
  show "0 < unat n" using k by simp
  then show "n \<noteq> 0" by auto
  have "(2::nat) ^ k \<le> 2 ^ 62"
    using k by (intro power_increasing) auto
  then show le: "unat n \<le> 2 ^ 62" using k by simp
  have "uint n = int (unat n)" by simp
  then have "uint n \<le> int (2 ^ 62)"
    using le by (simp only: of_nat_le_iff)
  moreover have "- (2 ^ 63) \<le> uint n"
    by (rule order_trans [of _ 0]) simp_all
  ultimately have "sint n = uint n"
    by (subst sint_uint, intro signed_take_bit_int_eq_self) auto
  then show "0 \<le> sint n" by simp
qed

section \<open>The aligned free pointer\<close>

text \<open>The least multiple of \<open>al\<close> not below \<open>f\<close>.\<close>

definition round_up :: "nat \<Rightarrow> nat \<Rightarrow> nat" where
  "round_up f al = (if f mod al = 0 then f else f + (al - f mod al))"

lemma round_up_dvd: "0 < al \<Longrightarrow> al dvd round_up f al"
proof (cases "f mod al = 0")
  case False
  assume "0 < al"
  have "f + (al - f mod al) = f div al * al + al"
    using \<open>0 < al\<close> mod_less_divisor [of al f] div_mult_mod_eq [of f al] by linarith
  then show ?thesis by (simp add: round_up_def False)
qed (auto simp: round_up_def mod_eq_0_iff_dvd)

lemma round_up_ge: "f \<le> round_up f al"
  by (simp add: round_up_def)

lemma round_up_least:
  assumes "0 < al" and "al dvd q" and "f \<le> q"
  shows "round_up f al \<le> q"
proof (cases "f mod al = 0")
  case True
  then show ?thesis using assms by (simp add: round_up_def)
next
  case False
  obtain c where q: "q = al * c" using assms(2) by (elim dvdE)
  have "f div al < c"
  proof (rule ccontr)
    assume "\<not> f div al < c"
    then have "al * c \<le> al * (f div al)" by simp
    also have "\<dots> < f" using False mult_div_mod_eq [of al f] by linarith
    finally show False using assms(3) q by simp
  qed
  then have "al * (f div al) + al \<le> q"
    unfolding q by (metis Suc_leI add.commute mult_Suc_right mult_le_mono2)
  moreover have "round_up f al = al * (f div al) + al"
    using False mod_less_divisor [OF assms(1), of f] mult_div_mod_eq [of al f]
    unfolding round_up_def if_not_P [OF False] by linarith
  ultimately show ?thesis by simp
qed

lemma get_aligned_free_pointer_eq:
  assumes ps: "page_size_ok (page_size a)" and fp: "unat (free_ptr a) \<le> unat (page_size a)"
    and T: "rust_layout T" and le: "size_of T \<le> page_size a" "align_of T \<le> page_size a"
  defines "p \<equiv> round_up (unat (free_ptr a)) (unat (align_of T))"
  shows "p \<le> unat (page_size a)"
    and "get_aligned_free_pointer a (size_of T) (align_of T) =
           (if unat (page_size a) < p + unat (size_of T) then None else Some (word_of_nat p))"
    and "unat (word_of_nat p :: usize) = p"
proof -
  let ?f = "unat (free_ptr a)" and ?al = "unat (align_of T)" and ?ps = "unat (page_size a)"
  have leu: "unat (size_of T) \<le> ?ps" "?al \<le> ?ps"
    using le by (simp_all add: word_le_nat_alt)
  have ps62: "?ps \<le> 2 ^ 62" by (rule page_size_ok_bounds(2) [OF ps])
  obtain j k where "?al = 2 ^ j" "?ps = 2 ^ k"
    using T ps by (auto simp: rust_layout_def page_size_ok_def)
  with leu have dvd: "?al dvd ?ps" and pos: "0 < ?al"
    by (auto simp: le_imp_power_dvd)
  show p_le: "p \<le> ?ps"
    unfolding p_def by (rule round_up_least [OF pos dvd fp])
  then show up: "unat (word_of_nat p :: usize) = p"
    using ps62 by (simp add: unsigned_of_nat take_bit_nat_eq_self)
  have nz: "align_of T \<noteq> 0" using pos by auto
  have "(if is_multiple_of (free_ptr a) (align_of T) then free_ptr a
         else free_ptr a + (align_of T - free_ptr a mod align_of T)) = word_of_nat p"
  proof (cases "?f mod ?al = 0")
    case True
    then have "is_multiple_of (free_ptr a) (align_of T)"
      using nz by (simp add: is_multiple_of_def word_arith_nat_mod)
    with True show ?thesis by (simp add: p_def round_up_def)
  next
    case False
    then have "\<not> is_multiple_of (free_ptr a) (align_of T)"
      using nz by (metis is_multiple_of_def unat_0 unat_mod_distrib)
    moreover have "unat (free_ptr a + (align_of T - free_ptr a mod align_of T)) = p"
    proof -
      have m: "unat (free_ptr a mod align_of T) = ?f mod ?al"
        by (rule unat_mod_distrib)
      have "unat (align_of T - free_ptr a mod align_of T) = ?al - ?f mod ?al"
        using m pos mod_less_divisor [OF pos, of ?f]
        by (subst word_sub_no_wrap) (auto simp: word_le_nat_alt)
      then show ?thesis
        using False p_le ps62 by (subst word_add_no_wrap) (auto simp: p_def round_up_def)
    qed
    ultimately show ?thesis
      using up by (simp add: word_unat_eq_iff)
  qed
  moreover have "page_size a < word_of_nat p + size_of T \<longleftrightarrow> ?ps < p + unat (size_of T)"
    using up p_le leu ps62 by (subst word_less_nat_alt) (simp add: word_add_no_wrap)
  ultimately show "get_aligned_free_pointer a (size_of T) (align_of T) =
      (if ?ps < p + unat (size_of T) then None else Some (word_of_nat p))"
    by (simp add: get_aligned_free_pointer_def Let_def)
qed

section \<open>Making a page\<close>

text \<open>
  A new page is added with the free pointer at its start, or nothing changes and an error is
  returned; there is no panic, since the page size is neither zero nor negative as an
  \<open>off_t\<close>. The new descriptor is kept in the first case and closed in the second.
\<close>

definition page_events :: "usize \<Rightarrow> shm_page \<Rightarrow> event list" where
  "page_events sz p =
     [FdAns (MemfdCreate SHM_FILE_NAME) (Inr (page_fd p)), UnitAns (Ftruncate (page_fd p) sz) (Inr ()),
      UnitAns (AddSeals (page_fd p)) (Inr ()), NumAns (Mmap (page_fd p) sz) (Inr (page_mem p))]"

definition add_page :: "shm_allocator \<Rightarrow> shm_page \<Rightarrow> shm_allocator" where
  "add_page a p = a\<lparr>free_ptr := 0, pages := pages a @ [p]\<rparr>"

lemma add_page_simps [simp]:
  "resources (add_page a p) = resources a" "page_size (add_page a p) = page_size a"
  "pages (add_page a p) = pages a @ [p]" "free_ptr (add_page a p) = 0"
  by (simp_all add: add_page_def)

lemma create_new_page_result:
  assumes "create_new_page os (a, w) = (r, a', w')" and "page_size_ok (page_size a)"
  shows "(\<exists>p. r = Ok () \<and> a' = add_page a p
             \<and> trace w' = trace w @ page_events (page_size a) p)
       \<or> (\<exists>e. r = Err e) \<and> a' = a"
  using assms page_size_ok_bounds(3,4) [OF assms(2)]
  by (auto simp: create_new_page_def exec_defs sys_defs answer_def off_t_try_from_def
      page_events_def add_page_def split: sum.splits)

text \<open>The descriptors of the pages made since \<open>a\<close>.\<close>

definition new_page_fds :: "shm_allocator \<Rightarrow> shm_allocator \<Rightarrow> raw_fd set" where
  "new_page_fds a a' = page_fd ` set (drop (length (pages a)) (pages a'))"

lemma create_new_page_owned:
  assumes "create_new_page os (a, w) = (r, a', w')" and "fresh_fds os"
  shows "owned (trace w') = owned (trace w) \<union> new_page_fds a a'"
    and "closes_only_owned (trace w) \<Longrightarrow> closes_only_owned (trace w')"
  using assms
  by (auto simp: create_new_page_def exec_defs sys_defs answer_def off_t_try_from_def
      new_page_fds_def trace_simps dest: fresh_fdsD split: sum.splits if_splits)

section \<open>Reserving a slot\<close>

text \<open>
  The invariant with a reserved slot: \<open>p\<close> is aligned, inside the last page, below the free
  pointer, and no resource of that page reaches into it.
\<close>

definition slot_reserved :: "shm_allocator \<Rightarrow> rust_type \<Rightarrow> usize \<Rightarrow> bool" where
  "slot_reserved a T p \<longleftrightarrow>
     pages a \<noteq> [] \<and>
     unat (align_of T) dvd unat p \<and>
     unat p + unat (size_of T) \<le> unat (page_size a) \<and>
     unat (free_ptr a) = unat p + unat (size_of T) \<and>
     (\<forall>n r. resources a n = Some r \<longrightarrow> res_page r = length (pages a) - 1 \<longrightarrow>
        unat (res_offset r) + unat (size_of (res_destructor r)) \<le> unat p)"

lemma shm_wf_page: "shm_wf a \<Longrightarrow> resources a n = Some r \<Longrightarrow> res_page r < length (pages a)"
  by (auto simp: shm_wf_def resource_ok_def)

lemma shm_wf_add_page:
  assumes wf: "shm_wf a"
  shows "shm_wf (add_page a p)"
proof -
  have "resource_ok (add_page a p) r" if "resources a n = Some r" for n r
  proof -
    have "resource_ok a r" using wf that by (simp add: shm_wf_def)
    then show ?thesis by (auto simp: resource_ok_def)
  qed
  then show ?thesis
    using wf by (auto simp: shm_wf_def disjoint_resources_def)
qed

text \<open>The free pointer is moved to the end of the slot.\<close>

lemma reserve_in_page:
  assumes wf: "shm_wf a" and T: "rust_layout T" and le: "size_of T \<le> page_size a" "align_of T \<le> page_size a"
    and p: "get_aligned_free_pointer a (size_of T) (align_of T) = Some p" and ne: "pages a \<noteq> []"
  shows "shm_wf (a\<lparr>free_ptr := p + size_of T\<rparr>) \<and> slot_reserved (a\<lparr>free_ptr := p + size_of T\<rparr>) T p"
proof -
  let ?q = "round_up (unat (free_ptr a)) (unat (align_of T))"
  have ps: "page_size_ok (page_size a)" and fp: "unat (free_ptr a) \<le> unat (page_size a)"
    using wf by (auto simp: shm_wf_def)
  note eq = get_aligned_free_pointer_eq [OF ps fp T le]
  have fits: "?q + unat (size_of T) \<le> unat (page_size a)" and q: "p = word_of_nat ?q"
    using p unfolding eq(2) by (auto split: if_splits)
  have up: "unat p = ?q" unfolding q by (rule eq(3))
  have pos: "0 < unat (align_of T)" using T by (auto simp: rust_layout_def)
  have add: "unat (p + size_of T) = ?q + unat (size_of T)"
    using fits page_size_ok_bounds(2) [OF ps] up by (subst word_add_no_wrap) auto
  have ge: "unat (free_ptr a) \<le> ?q" by (rule round_up_ge)
  have below: "unat (res_offset r) + unat (size_of (res_destructor r)) \<le> ?q"
    if "resources a n = Some r" "res_page r = length (pages a) - 1" for n r
    using wf that ge by (force simp: shm_wf_def resource_ok_def)
  have "resource_ok (a\<lparr>free_ptr := p + size_of T\<rparr>) r" if "resources a n = Some r" for n r
    using wf that below [OF that] add by (auto simp: shm_wf_def resource_ok_def)
  then have "shm_wf (a\<lparr>free_ptr := p + size_of T\<rparr>)"
    using wf fits add by (auto simp: shm_wf_def disjoint_resources_def)
  moreover have "slot_reserved (a\<lparr>free_ptr := p + size_of T\<rparr>) T p"
    using ne up add fits below round_up_dvd [OF pos] by (auto simp: slot_reserved_def)
  ultimately show ?thesis ..
qed

text \<open>A fresh page takes every resource that passed the size checks.\<close>

lemma aligned_in_new_page:
  assumes "page_size_ok (page_size a)" and "free_ptr a = 0" and "rust_layout T"
    and "size_of T \<le> page_size a" and "align_of T \<le> page_size a"
  shows "get_aligned_free_pointer a (size_of T) (align_of T) = Some 0"
  using get_aligned_free_pointer_eq(2) [OF assms(1) _ assms(3,4,5)] assms(2,4)
  by (simp add: round_up_def word_le_nat_alt)

lemma reserve_slot_result:
  assumes run: "reserve_slot os T (a, w) = (r, a', w')"
    and wf: "shm_wf a" and T: "rust_layout T"
    and le: "size_of T \<le> page_size a" "align_of T \<le> page_size a"
  shows "(\<exists>p new. r = Ok p \<and> shm_wf a' \<and> slot_reserved a' T p \<and> resources a' = resources a
            \<and> page_size a' = page_size a \<and> pages a' = pages a @ new \<and> length new \<le> 1)
       \<or> (\<exists>e. r = Err e \<and> a' = a)"
proof -
  have ps: "page_size_ok (page_size a)" using wf by (simp add: shm_wf_def)
  have new: "get_aligned_free_pointer (add_page a p) (size_of T) (align_of T) = Some 0" for p
    by (rule aligned_in_new_page) (use ps T le in auto)
  have in_new: "shm_wf ((add_page a p)\<lparr>free_ptr := size_of T\<rparr>)
      \<and> slot_reserved ((add_page a p)\<lparr>free_ptr := size_of T\<rparr>) T 0" for p
    using reserve_in_page [OF shm_wf_add_page [OF wf] T _ _ new] le by simp
  obtain x a1 w1 where c: "create_new_page os (a, w) = (x, a1, w1)"
    by (cases "create_new_page os (a, w)")
  note page = create_new_page_result [OF c ps]
  show ?thesis
  proof (cases "pages a = []")
    case True
    with page run c new show ?thesis
      by (auto simp: reserve_slot_def exec_defs intro!: exI [of _ "0::usize"] in_new [THEN conjunct1]
          in_new [THEN conjunct2])
  next
    case False
    show ?thesis
    proof (cases "get_aligned_free_pointer a (size_of T) (align_of T)")
      case None
      with False page run c new show ?thesis
        by (auto simp: reserve_slot_def exec_defs intro!: exI [of _ "0::usize"] in_new [THEN conjunct1]
            in_new [THEN conjunct2])
    next
      case (Some p)
      with False run reserve_in_page [OF wf T le Some False] show ?thesis
        by (auto simp: reserve_slot_def exec_defs)
    qed
  qed
qed

section \<open>Constructing and finding\<close>

definition new_resource :: "rust_type \<Rightarrow> shm_allocator \<Rightarrow> usize \<Rightarrow> resource_metadata" where
  "new_resource T a p =
     \<lparr>res_type_id = type_uuid T, res_page = length (pages a) - 1, res_offset = p, res_destructor = T\<rparr>"

definition insert_resource ::
  "shm_allocator \<Rightarrow> string \<Rightarrow> resource_metadata \<Rightarrow> shm_allocator" where
  "insert_resource a name r = a\<lparr>resources := (resources a)(name \<mapsto> r)\<rparr>"

lemma insert_resource_simps [simp]:
  "resources (insert_resource a name r) = (resources a)(name \<mapsto> r)"
  "page_size (insert_resource a name r) = page_size a"
  "pages (insert_resource a name r) = pages a"
  "free_ptr (insert_resource a name r) = free_ptr a"
  by (simp_all add: insert_resource_def)

lemma resource_ok_insert [simp]:
  "resource_ok (insert_resource a name r) s = resource_ok a s"
  by (simp add: resource_ok_def)

lemma slot_disjoint:
  assumes "slot_reserved a T p" and "resources a n = Some s"
    and "res_page s = length (pages a) - 1"
  shows "region s \<inter> region (new_resource T a p) = {}"
  using assms by (fastforce simp: slot_reserved_def region_def new_resource_def)

lemma shm_wf_insert:
  assumes wf: "shm_wf a" and slot: "slot_reserved a T p" and free: "resources a name = None"
  shows "shm_wf (insert_resource a name (new_resource T a p))"
proof -
  let ?r = "new_resource T a p" and ?a = "insert_resource a name (new_resource T a p)"
  have ok: "resource_ok a ?r"
    using slot by (auto simp: slot_reserved_def resource_ok_def new_resource_def)
  have "region s \<inter> region t = {}"
    if "resources ?a n = Some s" "resources ?a m = Some t" "n \<noteq> m" "res_page s = res_page t" for n m s t
  proof -
    consider "n \<noteq> name" "m \<noteq> name" | "n = name" "m \<noteq> name" | "m = name" "n \<noteq> name"
      using \<open>n \<noteq> m\<close> by blast
    then show ?thesis
    proof cases
      case 1
      with wf that show ?thesis
        by (simp add: shm_wf_def disjoint_resources_def)
    next
      case 2
      with that slot_disjoint [OF slot, of m t] show ?thesis
        by (auto simp: new_resource_def)
    next
      case 3
      with that slot_disjoint [OF slot, of n s] show ?thesis
        by (auto simp: new_resource_def)
    qed
  qed
  then have "disjoint_resources ?a"
    by (simp only: disjoint_resources_def) blast
  then show ?thesis
    using wf ok by (auto simp: shm_wf_def)
qed

text \<open>
  Everything \<open>construct_in_shm\<close> can do, for any placement constructor \<open>F\<close>: refuse at once and
  change nothing; fail to make a page; or reserve a slot, run \<open>F\<close> there, and register the
  resource exactly if \<open>F\<close> succeeds.
\<close>

definition accepts :: "shm_allocator \<Rightarrow> rust_type \<Rightarrow> string \<Rightarrow> bool" where
  "accepts a T name \<longleftrightarrow>
     resources a name = None \<and> size_of T \<le> page_size a \<and> align_of T \<le> page_size a"

definition location_of :: "shm_allocator \<Rightarrow> resource_metadata \<Rightarrow> client_resource_location" where
  "location_of a r = \<lparr>loc_page = res_page r, loc_offset = res_offset r,
     loc_fd = page_fd (pages a ! res_page r)\<rparr>"

lemma construct_run:
  assumes "accepts a T name" and "reserve_slot os T (a, w) = (Ok p, b, v)" and "pages b \<noteq> []"
    and "F (page_mem (last (pages b)) + p) v = (x, v')"
  shows "construct_in_shm os T name F (a, w) =
    (case x of
       Ok _ \<Rightarrow> (Ok (location_of b (new_resource T b p)), insert_resource b name (new_resource T b p), v')
     | Err e \<Rightarrow> (Err e, b, v') | Panic \<Rightarrow> (Panic, b, v')
     | Exit c \<Rightarrow> (Exit c, b, v') | NoReturn \<Rightarrow> (NoReturn, b, v'))"
proof -
  have "resources a name = None" "\<not> page_size a < size_of T" "\<not> page_size a < align_of T"
    using assms(1) by (auto simp: accepts_def)
  then show ?thesis
    using assms(2-4)
    by (cases x) (simp_all add: construct_in_shm_def exec_defs last_opt_def insert_resource_def
        new_resource_def location_of_def last_conv_nth)
qed

lemma construct_in_shm_result:
  assumes run: "construct_in_shm os T name F (a, w) = (r, a', w')"
    and wf: "shm_wf a" and T: "rust_layout T"
  obtains
    (refused) e where "\<not> accepts a T name" "r = Err e" "a' = a" "w' = w"
  | (no_page) e where "accepts a T name" "r = Err e" "a' = a" "reserve_slot os T (a, w) = (Err e, a, w')"
  | (ran) p b v x new where
      "accepts a T name" "reserve_slot os T (a, w) = (Ok p, b, v)" "shm_wf b" "slot_reserved b T p"
      "resources b = resources a" "page_size b = page_size a" "pages b = pages a @ new" "length new \<le> 1"
      "F (page_mem (last (pages b)) + p) v = (x, w')"
      "x = Ok () \<and> r = Ok (location_of a' (new_resource T b p))
         \<and> a' = insert_resource b name (new_resource T b p)
       \<or> a' = b \<and> (\<exists>e. x = Err e \<and> r = Err e)
       \<or> a' = b \<and> x = Panic \<and> r = Panic
       \<or> a' = b \<and> (\<exists>c. x = Exit c \<and> r = Exit c)
       \<or> a' = b \<and> x = NoReturn \<and> r = NoReturn"
proof (cases "accepts a T name")
  case False
  with run have "(\<exists>e. r = Err e) \<and> a' = a \<and> w' = w"
    by (auto simp: construct_in_shm_def accepts_def exec_defs split: if_splits)
  then obtain e where "r = Err e" "a' = a" "w' = w" by blast
  with False show thesis by (rule refused)
next
  case True
  obtain y b v where res: "reserve_slot os T (a, w) = (y, b, v)"
    by (cases "reserve_slot os T (a, w)")
  have le: "size_of T \<le> page_size a" "align_of T \<le> page_size a" "resources a name = None"
    using True by (auto simp: accepts_def)
  from reserve_slot_result [OF res wf T le(1,2)] show thesis
  proof (elim disjE exE conjE)
    fix p new
    assume y: "y = Ok p" and b: "shm_wf b" "slot_reserved b T p" "resources b = resources a"
      "page_size b = page_size a" "pages b = pages a @ new" "length new \<le> 1"
    obtain x v' where Fv: "F (page_mem (last (pages b)) + p) v = (x, v')"
      by (cases "F (page_mem (last (pages b)) + p) v")
    have ne: "pages b \<noteq> []" using b(2) by (simp add: slot_reserved_def)
    have res': "reserve_slot os T (a, w) = (Ok p, b, v)" using res y by simp
    note eq = run [unfolded construct_run [OF True res' ne, of F, OF Fv]]
    have w': "w' = v'"
      using eq by (cases x) auto
    have "x = Ok () \<and> r = Ok (location_of a' (new_resource T b p))
         \<and> a' = insert_resource b name (new_resource T b p)
       \<or> a' = b \<and> (\<exists>e. x = Err e \<and> r = Err e)
       \<or> a' = b \<and> x = Panic \<and> r = Panic
       \<or> a' = b \<and> (\<exists>c. x = Exit c \<and> r = Exit c)
       \<or> a' = b \<and> x = NoReturn \<and> r = NoReturn"
      using eq by (cases x) (auto simp: location_of_def)
    then show thesis
      by (rule ran [OF True res' b Fv [folded w']])
  next
    fix e
    assume y: "y = Err e" and b: "b = a"
    then have res': "reserve_slot os T (a, w) = (Err e, a, v)" using res by simp
    then have "r = Err e" "a' = a" "w' = v"
      using run le by (auto simp: construct_in_shm_def exec_defs split: if_splits)
    with True res' show thesis by (intro no_page) auto
  qed
qed

section \<open>What holds after every outcome\<close>

lemma construct_in_shm_keeps:
  assumes "construct_in_shm os T name F (a, w) = (r, a', w')" and "shm_wf a" and "rust_layout T"
  shows "shm_wf a'" and "page_size a' = page_size a"
    and "\<exists>new. pages a' = pages a @ new \<and> length new \<le> 1"
    and "n \<noteq> name \<Longrightarrow> resources a' n = resources a n"
    and "resources a name = Some s \<Longrightarrow> resources a' name = Some s"
    and "\<not> (\<exists>l. r = Ok l) \<Longrightarrow> resources a' = resources a"
proof -
  have "shm_wf a' \<and> page_size a' = page_size a \<and> (\<exists>new. pages a' = pages a @ new \<and> length new \<le> 1)
    \<and> (\<forall>n. n \<noteq> name \<longrightarrow> resources a' n = resources a n)
    \<and> (\<forall>s. resources a name = Some s \<longrightarrow> resources a' name = Some s)
    \<and> ((\<forall>l. r \<noteq> Ok l) \<longrightarrow> resources a' = resources a)"
    by (rule construct_in_shm_result [OF assms])
      (use assms(2) shm_wf_insert in \<open>auto simp: accepts_def\<close>)
  then show "shm_wf a'" and "page_size a' = page_size a"
    and "\<exists>new. pages a' = pages a @ new \<and> length new \<le> 1"
    and "n \<noteq> name \<Longrightarrow> resources a' n = resources a n"
    and "resources a name = Some s \<Longrightarrow> resources a' name = Some s"
    and "\<not> (\<exists>l. r = Ok l) \<Longrightarrow> resources a' = resources a"
    by blast+
qed

lemma construct_in_shm_Ok:
  assumes "construct_in_shm os T name F (a, w) = (Ok l, a', w')" and "shm_wf a" and "rust_layout T"
  shows "\<exists>r. resources a' name = Some r \<and> l = location_of a' r \<and> res_type_id r = type_uuid T
           \<and> res_destructor r = T"
  by (rule construct_in_shm_result [OF assms]) (auto simp: new_resource_def)

text \<open>\<open>find_resource\<close> on a well-formed allocator never panics: the page index is in range.\<close>

lemma find_resource_wf:
  assumes "shm_wf a"
  shows "find_resource a T name w =
    (case resources a name of
       None \<Rightarrow> (Ok None, w)
     | Some r \<Rightarrow>
         if res_type_id r = type_uuid T then (Ok (Some (location_of a r)), w)
         else (Err (RuntimeError (ResourceTypeMismatch (type_name T) ''<unavailable at runtime>'')), w))"
  using shm_wf_page [OF assms, of name]
  by (auto simp: find_resource_def exec_defs nth_opt_def location_of_def split: option.split)

lemma location_of_append:
  "res_page r < length (pages a) \<Longrightarrow> pages a' = pages a @ new \<Longrightarrow> location_of a' r = location_of a r"
  by (simp add: location_of_def nth_append)

section \<open>Reachable allocators\<close>

text \<open>
  Every state the daemon's allocator can be in: made by \<open>shm_new\<close> on a system whose page size is
  a power of two, then any calls of \<open>construct_in_shm\<close> with any types and constructors and any
  outcomes of the kernel.
\<close>

inductive shm_reachable :: "shm_allocator \<Rightarrow> bool" where
  new: "shm_new os w = (Ok a, w') \<Longrightarrow> page_size_ok (page_size a) \<Longrightarrow> shm_reachable a"
| construct: "shm_reachable a \<Longrightarrow> rust_layout T \<Longrightarrow>
     construct_in_shm os T name F (a, w) = (r, a', w') \<Longrightarrow> shm_reachable a'"

lemma shm_new_Ok:
  "shm_new os w = (Ok a, w') \<Longrightarrow> resources a = Map.empty \<and> pages a = [] \<and> free_ptr a = 0"
  by (auto simp: shm_new_def exec_defs sys_defs answer_def split: sum.splits option.splits if_splits)

lemma shm_reachable_wf: "shm_reachable a \<Longrightarrow> shm_wf a"
proof (induction rule: shm_reachable.induct)
  case (new os w a w')
  then show ?case
    using shm_new_Ok [OF new(1)] by (simp add: shm_wf_def disjoint_resources_def)
next
  case (construct a T os name F w r a' w')
  then show ?case by (blast intro: construct_in_shm_keeps(1))
qed

section \<open>A run to apply the theorems to\<close>

text \<open>Two resources, a small one and one with the layout of a mutex, on the calm kernel.\<close>

definition demo_small :: rust_type where
  "demo_small = \<lparr>type_uuid = 3, size_of = 5, align_of = 1, type_name = ''small''\<rparr>"

definition demo_mutex :: rust_type where
  "demo_mutex = \<lparr>type_uuid = 7, size_of = 40, align_of = 8, type_name = ''mutex''\<rparr>"

definition demo_ctor :: "rust_type \<Rightarrow> addr \<Rightarrow> (detailed_error, unit) routine" where
  "demo_ctor T d = sys_unit calm_os (Construct d (type_uuid T))"

definition demo_page :: shm_page where
  "demo_page = \<lparr>page_fd = 101, page_mem = 0\<rparr>"

definition demo_alloc0 :: shm_allocator where
  "demo_alloc0 = \<lparr>resources = Map.empty, page_size = 4096, pages = [], free_ptr = 0\<rparr>"

definition demo_alloc1 :: shm_allocator where
  "demo_alloc1 = \<lparr>resources = [''a'' \<mapsto> \<lparr>res_type_id = 3, res_page = 0, res_offset = 0, res_destructor = demo_small\<rparr>],
     page_size = 4096, pages = [demo_page], free_ptr = 5\<rparr>"

definition demo_alloc2 :: shm_allocator where
  "demo_alloc2 = \<lparr>resources = [''a'' \<mapsto> \<lparr>res_type_id = 3, res_page = 0, res_offset = 0, res_destructor = demo_small\<rparr>,
        ''b'' \<mapsto> \<lparr>res_type_id = 7, res_page = 0, res_offset = 8, res_destructor = demo_mutex\<rparr>],
     page_size = 4096, pages = [demo_page], free_ptr = 48\<rparr>"

definition demo_world :: world where
  "demo_world = log_event (SysconfPageSize (Inr (Some 4096))) start_world"

lemmas demo_defs = demo_small_def demo_mutex_def demo_ctor_def demo_page_def demo_alloc0_def
  demo_alloc1_def demo_alloc2_def demo_world_def calm_eval

lemma demo_new: "shm_new calm_os start_world = (Ok demo_alloc0, demo_world)"
  by (simp add: shm_new_def exec_defs sys_defs demo_defs)

lemma demo_layout [simp]: "rust_layout demo_small" "rust_layout demo_mutex"
  unfolding rust_layout_def
   apply (rule exI [of _ 0], simp add: demo_defs)
  apply (rule exI [of _ 3], simp add: demo_defs)
  done

lemma demo_page_size: "page_size_ok 4096"
  unfolding page_size_ok_def by (rule exI [of _ 12]) simp

lemma demo_create: "\<exists>v. create_new_page calm_os (demo_alloc0, demo_world)
    = (Ok (), demo_alloc0\<lparr>pages := [demo_page]\<rparr>, v)"
  by (simp add: create_new_page_def exec_defs sys_defs off_t_try_from_def demo_defs log_event_def)

lemma demo_first: "\<exists>v. construct_in_shm calm_os demo_small ''a'' (demo_ctor demo_small) (demo_alloc0, demo_world)
    = (Ok \<lparr>loc_page = 0, loc_offset = 0, loc_fd = 101\<rparr>, demo_alloc1, v)"
proof -
  obtain v where c: "create_new_page calm_os (demo_alloc0, demo_world)
      = (Ok (), demo_alloc0\<lparr>pages := [demo_page]\<rparr>, v)"
    using demo_create by blast
  have "reserve_slot calm_os demo_small (demo_alloc0, demo_world)
      = (Ok 0, demo_alloc0\<lparr>pages := [demo_page], free_ptr := 5\<rparr>, v)"
    using c by (simp add: reserve_slot_def exec_defs get_aligned_free_pointer_def is_multiple_of_def)
      (simp add: demo_defs)
  then show ?thesis
    by (subst construct_run) (auto simp: accepts_def demo_defs sys_defs insert_resource_def
        new_resource_def location_of_def)
qed

lemma demo_second: "\<exists>v. construct_in_shm calm_os demo_mutex ''b'' (demo_ctor demo_mutex) (demo_alloc1, w)
    = (Ok \<lparr>loc_page = 0, loc_offset = 8, loc_fd = 101\<rparr>, demo_alloc2, v)"
proof -
  have "reserve_slot calm_os demo_mutex (demo_alloc1, w) = (Ok 8, demo_alloc1\<lparr>free_ptr := 48\<rparr>, w)"
    by (simp add: reserve_slot_def exec_defs get_aligned_free_pointer_def is_multiple_of_def demo_defs)
  then show ?thesis
    by (subst construct_run) (auto simp: accepts_def demo_defs sys_defs insert_resource_def
        new_resource_def location_of_def)
qed

lemma demo_reachable: "shm_reachable demo_alloc1" "shm_reachable demo_alloc2"
proof -
  have zero: "shm_reachable demo_alloc0"
    by (rule shm_reachable.new [OF demo_new]) (simp add: demo_alloc0_def demo_page_size)
  show one: "shm_reachable demo_alloc1"
    using demo_first zero by (blast intro: shm_reachable.construct demo_layout)
  show "shm_reachable demo_alloc2"
    using demo_second [of start_world] one by (blast intro: shm_reachable.construct demo_layout)
qed

lemmas demo_wf = demo_reachable [THEN shm_reachable_wf]

section \<open>Properties\<close>

text \<open>
  C22: no two resources overlap. In every reachable state of the allocator, each registered
  resource lies inside its page at an offset its type's alignment divides, and two resources of
  the same page occupy disjoint ranges of bytes, whatever failed on the way.
\<close>

theorem reachable_resources_disjoint:
  assumes "shm_reachable a" and "resources a n = Some r" and "resources a m = Some s" and "n \<noteq> m"
  shows "res_page r < length (pages a)
    \<and> unat (align_of (res_destructor r)) dvd unat (res_offset r)
    \<and> region r \<subseteq> {0 ..< unat (page_size a)}
    \<and> (res_page r = res_page s \<longrightarrow> region r \<inter> region s = {})"
  using shm_reachable_wf [OF assms(1)] assms(2-4)
  by (auto simp: shm_wf_def resource_ok_def disjoint_resources_def region_def)

theorem reachable_resources_disjoint_witness:
  "region \<lparr>res_type_id = 3, res_page = 0, res_offset = 0, res_destructor = demo_small\<rparr>
     \<inter> region \<lparr>res_type_id = 7, res_page = 0, res_offset = 8, res_destructor = demo_mutex\<rparr> = {}"
  using reachable_resources_disjoint [OF demo_reachable(2), of "''a''" _ "''b''"]
  by (simp add: demo_alloc2_def)

text \<open>
  C24: construct then find. After a successful \<open>construct_in_shm\<close>, \<open>find_resource\<close> with the same
  name and type returns the location that was handed out; every resource found before is still
  found at the location it had, in every outcome of the call.
\<close>

theorem construct_then_find:
  assumes "construct_in_shm os T name F (a, w) = (r, a', w')" and "shm_wf a" and "rust_layout T"
  shows "(\<forall>l. r = Ok l \<longrightarrow> find_resource a' T name v = (Ok (Some l), v))
    \<and> (\<forall>U n l. fst (find_resource a U n v) = Ok (Some l) \<longrightarrow> find_resource a' U n v = (Ok (Some l), v))"
proof -
  note keeps = construct_in_shm_keeps [OF assms]
  obtain new where new: "pages a' = pages a @ new" using keeps(3) by blast
  have "find_resource a' T name v = (Ok (Some l), v)" if "r = Ok l" for l
    using construct_in_shm_Ok [of os T name F a w l a' w'] assms that
    by (auto simp: find_resource_wf [OF keeps(1)])
  moreover have "find_resource a' U n v = (Ok (Some l), v)"
    if found: "fst (find_resource a U n v) = Ok (Some l)" for U n l
  proof -
    obtain s where s: "resources a n = Some s" "res_type_id s = type_uuid U" "l = location_of a s"
      using found by (auto simp: find_resource_wf [OF assms(2)] split: option.splits if_splits)
    have "resources a' n = Some s"
      using s(1) keeps(4,5) by (cases "n = name") auto
    then show ?thesis
      using s shm_wf_page [OF assms(2) s(1)] location_of_append [OF _ new]
      by (simp add: find_resource_wf [OF keeps(1)])
  qed
  ultimately show ?thesis by blast
qed

theorem construct_then_find_witness:
  "find_resource demo_alloc2 demo_mutex ''b'' start_world
     = (Ok (Some \<lparr>loc_page = 0, loc_offset = 8, loc_fd = 101\<rparr>), start_world)
   \<and> find_resource demo_alloc2 demo_small ''a'' start_world
     = (Ok (Some \<lparr>loc_page = 0, loc_offset = 0, loc_fd = 101\<rparr>), start_world)"
proof -
  obtain v where run: "construct_in_shm calm_os demo_mutex ''b'' (demo_ctor demo_mutex)
      (demo_alloc1, start_world) = (Ok \<lparr>loc_page = 0, loc_offset = 8, loc_fd = 101\<rparr>, demo_alloc2, v)"
    using demo_second by blast
  have "fst (find_resource demo_alloc1 demo_small ''a'' start_world)
      = Ok (Some \<lparr>loc_page = 0, loc_offset = 0, loc_fd = 101\<rparr>)"
    by (simp add: find_resource_wf [OF demo_wf(1)])
      (simp add: location_of_def demo_alloc1_def demo_small_def demo_page_def)
  with construct_then_find [OF run demo_wf(1) demo_layout(2), of start_world] show ?thesis
    by blast
qed

text \<open>
  A request that cannot be served is refused before anything happens: the allocator is
  unchanged, the kernel is not called and the constructor is not run.
\<close>

lemma construct_refuses:
  "resources a name \<noteq> None \<Longrightarrow>
     construct_in_shm os T name F (a, w) = (Err (RuntimeError (ResourceNameAlreadyInUse name)), a, w)"
  "resources a name = None \<Longrightarrow> page_size a < size_of T \<Longrightarrow>
     construct_in_shm os T name F (a, w)
       = (Err (RuntimeError (ResourceTooLargeForPage (page_size a) (size_of T))), a, w)"
  "resources a name = None \<Longrightarrow> size_of T \<le> page_size a \<Longrightarrow> page_size a < align_of T \<Longrightarrow>
     construct_in_shm os T name F (a, w)
       = (Err (RuntimeError (ResourceAlignmentLargerThanPage (page_size a) (align_of T))), a, w)"
  by (auto simp: construct_in_shm_def exec_defs)

text \<open>What \<open>mmap\<close> documents: the address is a multiple of the page size mapped.\<close>

definition mmap_aligned :: "os \<Rightarrow> bool" where
  "mmap_aligned os \<longleftrightarrow>
     (\<forall>tr fd n x. ask_num os tr (Mmap fd n) = Inr x \<longrightarrow> unat n dvd unat x)"

definition pages_aligned :: "shm_allocator \<Rightarrow> bool" where
  "pages_aligned a \<longleftrightarrow> (\<forall>p \<in> set (pages a). unat (page_size a) dvd unat (page_mem p))"

lemma create_new_page_aligned:
  assumes "create_new_page os (a, w) = (r, a', w')" and "mmap_aligned os" and "pages_aligned a"
  shows "pages_aligned a' \<and> page_size a' = page_size a"
  using assms
  by (auto simp: create_new_page_def exec_defs sys_defs answer_def pages_aligned_def
      mmap_aligned_def split: sum.splits if_splits)

lemma reserve_slot_frame:
  assumes run: "reserve_slot os T (a, w) = (r, a', w')"
    and page: "\<And>b v x b' v'. create_new_page os (b, v) = (x, b', v') \<Longrightarrow> I b v \<Longrightarrow> I b' v'"
    and ptr: "\<And>b v p. I b v \<Longrightarrow> I (b\<lparr>free_ptr := p\<rparr>) v"
    and start: "I a w"
  shows "I a' w'"
proof -
  have two: "I c u" if "create_new_page os (b, v) = (x, c, u)" "I b v" for b v x c u
    using that by (rule page)
  show ?thesis
    using run start
    by (auto simp: reserve_slot_def exec_defs split: if_splits prod.splits exec.splits option.splits)
      (metis ptr two)+
qed

lemma reserve_slot_aligned:
  assumes "reserve_slot os T (a, w) = (r, a', w')" and "mmap_aligned os" and "pages_aligned a"
  shows "pages_aligned a'"
proof (rule reserve_slot_frame [OF assms(1), of "\<lambda>b v. pages_aligned b"])
  show "pages_aligned b'" if "create_new_page os (b, v) = (x, b', v')" "pages_aligned b" for b v x b' v'
    using create_new_page_aligned [OF that(1) assms(2) that(2)] ..
qed (use assms(3) in \<open>simp_all add: pages_aligned_def\<close>)

lemma dvd_word_add:
  fixes x y :: u64
  assumes "2 ^ k dvd unat x" and "2 ^ k dvd unat y" and "k \<le> 64"
  shows "2 ^ k dvd unat (x + y)"
proof -
  have "(2::nat) ^ k dvd 2 ^ 64" using assms(3) by (rule le_imp_power_dvd)
  with assms(1,2) show ?thesis
    by (simp add: unat_word_ariths dvd_mod)
qed

text \<open>What does not depend on the constructor: a call that fails before it, and the world it is run in.\<close>

lemma construct_before:
  "\<not> accepts a T name \<Longrightarrow> construct_in_shm os T name G (a, w) = construct_in_shm os T name F (a, w)"
  "accepts a T name \<Longrightarrow> reserve_slot os T (a, w) = (Err e, a, v) \<Longrightarrow> construct_in_shm os T name G (a, w) = (Err e, a, v)"
  by (auto simp: construct_in_shm_def accepts_def exec_defs)

lemma construct_leaves:
  assumes "accepts a T name" and "reserve_slot os T (a, w) = (Ok p, b, v)" and "pages b \<noteq> []"
  shows "snd (snd (construct_in_shm os T name G (a, w))) = snd (G (page_mem (last (pages b)) + p) v)"
proof -
  obtain x u where x: "G (page_mem (last (pages b)) + p) v = (x, u)"
    by (cases "G (page_mem (last (pages b)) + p) v")
  show ?thesis unfolding construct_run [OF assms, of G, OF x] by (cases x) (simp_all add: x)
qed

text \<open>
  C23: the placement is safe. Either the request fails before the constructor is run: then the
  outcome is the same with every other constructor in its place. Or the constructor is run exactly once: there
  is one world \<open>v\<close> and one address such that with every constructor the call leaves just the world
  that constructor leaves when it is run there. That address is divided by the type's
  alignment, the slot lies inside the last page's mapping and shares no byte with a registered resource,
  and the resource is registered exactly when the constructor succeeds. (These are the conditions
  the \<open>unsafe\<close> blocks rely on.)
\<close>

theorem placement_is_safe:
  assumes run: "construct_in_shm os T name F (a, w) = (r, a', w')"
    and wf: "shm_wf a" and T: "rust_layout T" and os: "mmap_aligned os" "pages_aligned a"
  shows "(\<exists>e. r = Err e \<and> a' = a \<and> (\<forall>G. construct_in_shm os T name G (a, w) = (r, a', w')))
    \<or> (\<exists>p v x. F (page_mem (last (pages a')) + p) v = (x, w')
         \<and> (\<forall>G. snd (snd (construct_in_shm os T name G (a, w))) = snd (G (page_mem (last (pages a')) + p) v))
         \<and> unat (align_of T) dvd unat (page_mem (last (pages a')) + p)
         \<and> unat p + unat (size_of T) \<le> unat (page_size a')
         \<and> (\<forall>n s. resources a n = Some s \<longrightarrow> res_page s = length (pages a') - 1 \<longrightarrow>
              region s \<inter> {unat p ..< unat p + unat (size_of T)} = {})
         \<and> ((\<exists>l. r = Ok l) \<longleftrightarrow> x = Ok ())
         \<and> (resources a' name \<noteq> None \<longleftrightarrow> x = Ok ()))"
proof (rule construct_in_shm_result [OF run wf T])
  fix p b v x new
  assume acc: "accepts a T name" and res: "reserve_slot os T (a, w) = (Ok p, b, v)"
    and b: "shm_wf b" "slot_reserved b T p" "resources b = resources a" "page_size b = page_size a"
      "pages b = pages a @ new" "length new \<le> 1"
    and F: "F (page_mem (last (pages b)) + p) v = (x, w')"
    and x: "x = Ok () \<and> r = Ok (location_of a' (new_resource T b p))
         \<and> a' = insert_resource b name (new_resource T b p)
       \<or> a' = b \<and> (\<exists>e. x = Err e \<and> r = Err e)
       \<or> a' = b \<and> x = Panic \<and> r = Panic
       \<or> a' = b \<and> (\<exists>c. x = Exit c \<and> r = Exit c)
       \<or> a' = b \<and> x = NoReturn \<and> r = NoReturn"
  have same: "pages a' = pages b" "page_size a' = page_size b" using x by auto
  obtain j k where jk: "unat (align_of T) = 2 ^ j" "unat (page_size a) = 2 ^ k" "k \<le> 62"
    using T wf by (auto simp: rust_layout_def shm_wf_def page_size_ok_def)
  have "align_of T \<le> page_size a" using acc by (simp add: accepts_def)
  then have "(2::nat) ^ j \<le> 2 ^ k" using jk by (simp add: word_le_nat_alt)
  then have "j \<le> k" by simp
  have "last (pages b) \<in> set (pages b)" using b(2) by (simp add: slot_reserved_def)
  then have "2 ^ k dvd unat (page_mem (last (pages b)))"
    using reserve_slot_aligned [OF res os] b(4) jk by (simp add: pages_aligned_def)
  then have "2 ^ j dvd unat (page_mem (last (pages b)))"
    using \<open>j \<le> k\<close> by (meson dvd_trans le_imp_power_dvd)
  then have al: "unat (align_of T) dvd unat (page_mem (last (pages b)) + p)"
    using b(2) jk \<open>j \<le> k\<close> by (simp add: slot_reserved_def dvd_word_add)
  have free: "region s \<inter> {unat p ..< unat p + unat (size_of T)} = {}"
    if "resources a n = Some s" "res_page s = length (pages b) - 1" for n s
    using slot_disjoint [OF b(2), of n s] that b(3) by (simp add: new_resource_def region_def)
  have reg: "((\<exists>l. r = Ok l) \<longleftrightarrow> x = Ok ()) \<and> (resources a' name \<noteq> None \<longleftrightarrow> x = Ok ())"
    using x acc b(3) by (auto simp: accepts_def)
  have fit: "unat p + unat (size_of T) \<le> unat (page_size a')"
    using b(2) same by (simp add: slot_reserved_def)
  have once: "snd (snd (construct_in_shm os T name G (a, w))) = snd (G (page_mem (last (pages a')) + p) v)" for G
    using construct_leaves [OF acc res, of G] b(2) same by (simp add: slot_reserved_def)
  show ?thesis
    using F al free reg fit same once by (intro disjI2 exI [of _ p] exI [of _ v] exI [of _ x]) auto
next
  fix e assume "\<not> accepts a T name" "r = Err e" "a' = a"
  with construct_before(1) [of a T name os _ w F] run show ?thesis by auto
next
  fix e assume "accepts a T name" "r = Err e" "a' = a" "reserve_slot os T (a, w) = (Err e, a, w')"
  with construct_before(2) [of a T name os w e w'] show ?thesis by auto
qed

theorem placement_is_safe_witness:
  "\<exists>p::usize. 8 dvd unat p \<and> unat p + 40 \<le> 4096 \<and> {0..<5} \<inter> {unat p ..< unat p + 40} = {}"
proof -
  obtain v where run: "construct_in_shm calm_os demo_mutex ''b'' (demo_ctor demo_mutex)
      (demo_alloc1, start_world) = (Ok \<lparr>loc_page = 0, loc_offset = 8, loc_fd = 101\<rparr>, demo_alloc2, v)"
    using demo_second by blast
  have "mmap_aligned calm_os" "pages_aligned demo_alloc1"
    by (simp_all add: mmap_aligned_def pages_aligned_def demo_defs)
  from placement_is_safe [OF run demo_wf(1) demo_layout(2) this]
  obtain p :: usize where "8 dvd unat p" "unat p + 40 \<le> 4096"
    "\<And>n s. resources demo_alloc1 n = Some s \<Longrightarrow> res_page s = 0 \<Longrightarrow>
       region s \<inter> {unat p ..< unat p + 40} = {}"
    by (auto simp: demo_alloc2_def demo_page_def demo_mutex_def)
  from this(1,2) this(3) [of "''a''"] show ?thesis
    by (intro exI [of _ p]) (simp add: demo_alloc1_def region_def demo_small_def)
qed

text \<open>
  C28: the allocator itself never panics. On a well-formed allocator every \<open>unwrap\<close> and every
  index of \<open>construct_in_shm\<close> succeeds, so it returns if the constructor returns; and it makes
  at most one page per call.
\<close>

theorem construct_returns:
  assumes "construct_in_shm os T name F (a, w) = (r, a', w')" and "shm_wf a" and "rust_layout T"
    and "\<And>d v. (\<exists>e. fst (F d v) = Err e) \<or> fst (F d v) = Ok ()"
  shows "((\<exists>l. r = Ok l) \<or> (\<exists>e. r = Err e)) \<and> length (pages a') \<le> length (pages a) + 1"
proof (rule construct_in_shm_result [OF assms(1-3)])
  fix p x new and b :: shm_allocator and v :: world
  assume "F (page_mem (last (pages b)) + p) v = (x, w')"
  with assms(4) [of "page_mem (last (pages b)) + p" v] have "(\<exists>e. x = Err e) \<or> x = Ok ()" by simp
  moreover assume "x = Ok () \<and> r = Ok (location_of a' (new_resource T b p))
         \<and> a' = insert_resource b name (new_resource T b p)
       \<or> a' = b \<and> (\<exists>e. x = Err e \<and> r = Err e)
       \<or> a' = b \<and> x = Panic \<and> r = Panic
       \<or> a' = b \<and> (\<exists>c. x = Exit c \<and> r = Exit c)
       \<or> a' = b \<and> x = NoReturn \<and> r = NoReturn"
    and "pages b = pages a @ new" "length new \<le> 1"
  ultimately show ?thesis by auto
qed auto

theorem construct_returns_witness:
  "length (pages demo_alloc2) \<le> length (pages demo_alloc1) + 1"
proof -
  obtain v where run: "construct_in_shm calm_os demo_mutex ''b'' (demo_ctor demo_mutex)
      (demo_alloc1, start_world) = (Ok \<lparr>loc_page = 0, loc_offset = 8, loc_fd = 101\<rparr>, demo_alloc2, v)"
    using demo_second by blast
  have "\<And>d v. (\<exists>e. fst (demo_ctor demo_mutex d v) = Err e) \<or> fst (demo_ctor demo_mutex d v) = Ok ()"
    by (simp add: demo_ctor_def sys_defs calm_os_def)
  from construct_returns [OF run demo_wf(1) demo_layout(2) this] show ?thesis ..
qed

lemma reserve_slot_owned:
  assumes run: "reserve_slot os T (a, w) = (r, a', w')" and os: "fresh_fds os"
  shows "owned (trace w') = owned (trace w) \<union> new_page_fds a a'
    \<and> (closes_only_owned (trace w) \<longrightarrow> closes_only_owned (trace w'))"
proof -
  define I where "I b v \<longleftrightarrow> owned (trace v) = owned (trace w) \<union> new_page_fds a b
    \<and> (closes_only_owned (trace w) \<longrightarrow> closes_only_owned (trace v))
    \<and> (\<exists>new. pages b = pages a @ new)" for b :: shm_allocator and v :: world
  have "I a' w'"
  proof (rule reserve_slot_frame [OF run, of I])
    fix b v x c u
    assume c: "create_new_page os (b, v) = (x, c, u)" and "I b v"
    moreover have "pages c = pages b \<or> (\<exists>p. pages c = pages b @ [p])"
      using c by (auto simp: create_new_page_def exec_defs sys_defs answer_def
          split: sum.splits if_splits)
    ultimately show "I c u"
      using create_new_page_owned [OF c os] by (auto simp: I_def new_page_fds_def)
  qed (auto simp: I_def new_page_fds_def)
  then show ?thesis by (simp add: I_def)
qed

text \<open>
  C29: no descriptor is leaked or closed twice. Whatever the kernel answers, the descriptors the
  thread owns after a call are those it owned before and those of the pages added; and no
  descriptor was closed that was not owned.
\<close>

theorem construct_keeps_descriptors:
  assumes run: "construct_in_shm os T name F (a, w) = (r, a', w')"
    and wf: "shm_wf a" and T: "rust_layout T" and os: "fresh_fds os"
    and F: "\<And>d v. owned (trace (snd (F d v))) = owned (trace v)"
      "\<And>d v. closes_only_owned (trace v) \<Longrightarrow> closes_only_owned (trace (snd (F d v)))"
  shows "owned (trace w') = owned (trace w) \<union> new_page_fds a a'
    \<and> (closes_only_owned (trace w) \<longrightarrow> closes_only_owned (trace w'))"
proof (rule construct_in_shm_result [OF run wf T])
  fix p x new and b :: shm_allocator and v :: world
  assume res: "reserve_slot os T (a, w) = (Ok p, b, v)"
    and Fv: "F (page_mem (last (pages b)) + p) v = (x, w')"
  assume "x = Ok () \<and> r = Ok (location_of a' (new_resource T b p))
         \<and> a' = insert_resource b name (new_resource T b p)
       \<or> a' = b \<and> (\<exists>e. x = Err e \<and> r = Err e)
       \<or> a' = b \<and> x = Panic \<and> r = Panic
       \<or> a' = b \<and> (\<exists>c. x = Exit c \<and> r = Exit c)
       \<or> a' = b \<and> x = NoReturn \<and> r = NoReturn"
  then have "new_page_fds a a' = new_page_fds a b" by (auto simp: new_page_fds_def)
  with reserve_slot_owned [OF res os] F [where d = "page_mem (last (pages b)) + p" and v = v] Fv show ?thesis
    by simp
next
  fix e
  assume "reserve_slot os T (a, w) = (Err e, a, w')" and "a' = a"
  with reserve_slot_owned [OF _ os] show ?thesis by blast
qed (simp add: new_page_fds_def)

theorem construct_keeps_descriptors_witness:
  "\<exists>v. construct_in_shm calm_os demo_mutex ''b'' (demo_ctor demo_mutex) (demo_alloc1, start_world)
      = (Ok \<lparr>loc_page = 0, loc_offset = 8, loc_fd = 101\<rparr>, demo_alloc2, v) \<and> owned (trace v) = {}"
proof -
  obtain v where run: "construct_in_shm calm_os demo_mutex ''b'' (demo_ctor demo_mutex)
      (demo_alloc1, start_world) = (Ok \<lparr>loc_page = 0, loc_offset = 8, loc_fd = 101\<rparr>, demo_alloc2, v)"
    using demo_second by blast
  have "owned (trace (snd (demo_ctor demo_mutex d u))) = owned (trace u)"
    "closes_only_owned (trace u) \<Longrightarrow> closes_only_owned (trace (snd (demo_ctor demo_mutex d u)))"
    for d :: addr and u :: world
    by (simp_all add: demo_ctor_def sys_defs trace_simps)
  from construct_keeps_descriptors [OF run demo_wf(1) demo_layout(2) calm_os_fresh this]
  have "owned (trace v) = {}"
    by (simp add: new_page_fds_def demo_alloc1_def demo_alloc2_def start_world_def owned_def owned_from_def)
  with run show ?thesis by blast
qed

section \<open>Dropping the allocator\<close>

text \<open>What a trace says was dropped, unmapped and closed, in order.\<close>

fun dropped :: "event list \<Rightarrow> (addr \<times> type_uuid) list" where
  "dropped [] = []"
| "dropped (BoolAns (DropInPlace d u) b # es) = (d, u) # dropped es"
| "dropped (_ # es) = dropped es"

fun unmapped :: "event list \<Rightarrow> (addr \<times> usize) list" where
  "unmapped [] = []"
| "unmapped (UnitAns (Munmap m n) x # es) = (m, n) # unmapped es"
| "unmapped (_ # es) = unmapped es"

fun closed :: "event list \<Rightarrow> raw_fd list" where
  "closed [] = []"
| "closed (Did (Close fd) # es) = fd # closed es"
| "closed (_ # es) = closed es"

lemma dropped_append [simp]: "dropped (xs @ ys) = dropped xs @ dropped ys"
  by (induction xs rule: dropped.induct) auto

lemma unmapped_append [simp]: "unmapped (xs @ ys) = unmapped xs @ unmapped ys"
  by (induction xs rule: unmapped.induct) auto

lemma closed_append [simp]: "closed (xs @ ys) = closed xs @ closed ys"
  by (induction xs rule: closed.induct) auto

definition resource_target :: "shm_page list \<Rightarrow> resource_metadata \<Rightarrow> addr \<times> type_uuid" where
  "resource_target ps r = (page_mem (ps ! res_page r) + res_offset r, type_uuid (res_destructor r))"

definition drop_panicked :: "event list \<Rightarrow> bool" where
  "drop_panicked es \<longleftrightarrow> (\<exists>d u. BoolAns (DropInPlace d u) False \<in> set es)"

lemma drop_resources_result:
  assumes "\<forall>(n, r) \<in> set rs. res_page r < length ps"
  shows "\<exists>ds w'. drop_resources os ps rs fp w = (Ok (fp \<or> drop_panicked ds) :: ('e, bool) exec, w')
    \<and> trace w' = trace w @ ds \<and> panicking w' = panicking w
    \<and> dropped ds = map (resource_target ps \<circ> snd) rs \<and> unmapped ds = [] \<and> closed ds = []"
  using assms
proof (induction rs arbitrary: fp w)
  case Nil
  show ?case
    by (rule exI [of _ "[]"]) (simp add: exec_defs drop_panicked_def)
next
  case (Cons nr rs)
  obtain n r where nr: "nr = (n, r)" by (cases nr)
  let ?c = "DropInPlace (page_mem (ps ! res_page r) + res_offset r) (type_uuid (res_destructor r))"
  let ?e = "BoolAns ?c (ask_bool os (trace w) ?c)"
  have d: "catch_unwind (destroy_resource os ps r) w
      = (Ok (\<not> ask_bool os (trace w) ?c) :: ('e, bool) exec, log_event ?e w)"
    using Cons.prems nr
    by (auto simp: destroy_resource_def exec_defs sys_defs nth_opt_def)
  have "\<forall>(n, r) \<in> set rs. res_page r < length ps"
    using Cons.prems by simp
  from Cons.IH [OF this, of "fp \<or> \<not> ask_bool os (trace w) ?c" "log_event ?e w"]
  obtain ds w' where IH: "drop_resources os ps rs (fp \<or> \<not> ask_bool os (trace w) ?c) (log_event ?e w)
        = (Ok ((fp \<or> \<not> ask_bool os (trace w) ?c) \<or> drop_panicked ds) :: ('e, bool) exec, w')"
      "trace w' = trace (log_event ?e w) @ ds" "panicking w' = panicking (log_event ?e w)"
      "dropped ds = map (resource_target ps \<circ> snd) rs" "unmapped ds = []" "closed ds = []"
    by blast
  have "drop_panicked (?e # ds) \<longleftrightarrow> \<not> ask_bool os (trace w) ?c \<or> drop_panicked ds"
    by (auto simp: drop_panicked_def)
  with IH d show ?case
    by (intro exI [of _ "?e # ds"] exI [of _ w'])
      (simp add: nr bind_io_def resource_target_def)
qed

lemma unmap_pages_result:
  "\<exists>us w'. unmap_pages os gs sz ps w = (Ok () :: ('e, unit) exec, w') \<and> trace w' = trace w @ us
    \<and> panicking w' = panicking w
    \<and> unmapped us = map (\<lambda>p. (page_mem p, sz)) ps \<and> dropped us = [] \<and> closed us = []"
proof (induction ps arbitrary: w)
  case Nil
  show ?case by (rule exI [of _ "[]"]) (simp add: exec_defs)
next
  case (Cons p ps)
  show ?case
  proof (cases "ask_unit os (trace w) (Munmap (page_mem p) sz)")
    case (Inl e)
    let ?w = "error_in_brittle_scenario os (''unmapping of shared memory failed: '' @
        display_error (display_foreign gs) e) (log_event (UnitAns (Munmap (page_mem p) sz) (Inl e)) w)"
    obtain us w' where "unmap_pages os gs sz ps ?w = (Ok () :: ('e, unit) exec, w')" "trace w' = trace ?w @ us"
        "panicking w' = panicking ?w" "unmapped us = map (\<lambda>p. (page_mem p, sz)) ps"
        "dropped us = []" "closed us = []"
      using Cons.IH [of ?w] by blast
    with Inl show ?thesis
      by (simp add: exec_defs sys_defs)
  next
    case (Inr u)
    let ?w = "log_event (UnitAns (Munmap (page_mem p) sz) (Inr ())) w"
    obtain us w' where "unmap_pages os gs sz ps ?w = (Ok () :: ('e, unit) exec, w')" "trace w' = trace ?w @ us"
        "panicking w' = panicking ?w" "unmapped us = map (\<lambda>p. (page_mem p, sz)) ps"
        "dropped us = []" "closed us = []"
      using Cons.IH [of ?w] by blast
    with Inr show ?thesis
      by (simp add: exec_defs sys_defs)
  qed
qed

lemma close_pages_trace:
  "trace (close_pages ps w) = trace w @ map (\<lambda>p. Did (Close (page_fd p))) ps"
  "panicking (close_pages ps w) = panicking w"
  by (induction ps arbitrary: w) (simp_all add: close_pages_def)

lemma close_events [simp]:
  "closed (map (\<lambda>p. Did (Close (page_fd p))) ps) = map page_fd ps"
  "dropped (map (\<lambda>p. Did (Close (page_fd p))) ps) = []"
  "unmapped (map (\<lambda>p. Did (Close (page_fd p))) ps) = []"
  by (induction ps) simp_all

text \<open>
  C30: dropping the allocator. Every resource's destructor is run, once, at the resource's address,
  whether or not others panic; only then is each page unmapped, once, and its descriptor closed,
  once. The call panics exactly when a destructor panicked and the thread was not already
  unwinding; it returns in every other case.
\<close>

theorem shm_drop_order:
  assumes run: "shm_drop os gs order a w = (r :: ('e, unit) exec, w')" and wf: "shm_wf a" and order: "drains order (resources a)"
  shows "\<exists>ds us. trace w' = trace w @ ds @ us
    \<and> dropped ds = map (resource_target (pages a) \<circ> snd) (order (resources a))
    \<and> unmapped ds = [] \<and> closed ds = [] \<and> dropped us = []
    \<and> unmapped us = map (\<lambda>p. (page_mem p, page_size a)) (pages a)
    \<and> closed us = map page_fd (pages a)
    \<and> r = (if drop_panicked ds \<and> \<not> panicking w then Panic else Ok ())"
proof -
  have "map_of (order (resources a)) = resources a" "distinct (map fst (order (resources a)))"
    using order by (simp_all add: drains_def)
  then have "\<forall>(n, s) \<in> set (order (resources a)). res_page s < length (pages a)"
    using shm_wf_page [OF wf] by (metis (mono_tags, lifting) case_prodI2 map_of_is_SomeI)
  from drop_resources_result [OF this, of os False w]
  obtain ds v where ds: "drop_resources os (pages a) (order (resources a)) False w
        = (Ok (drop_panicked ds) :: ('e, bool) exec, v)"
      "trace v = trace w @ ds" "panicking v = panicking w"
      "dropped ds = map (resource_target (pages a) \<circ> snd) (order (resources a))"
      "unmapped ds = []" "closed ds = []"
    by auto
  from unmap_pages_result [of os gs "page_size a" "pages a" v]
  obtain us u where us: "unmap_pages os gs (page_size a) (pages a) v = (Ok () :: ('e, unit) exec, u)"
      "trace u = trace v @ us" "panicking u = panicking v"
      "unmapped us = map (\<lambda>p. (page_mem p, page_size a)) (pages a)" "dropped us = []" "closed us = []"
    by blast
  have eq: "(shm_drop os gs order a w :: ('e, unit) exec \<times> world) =
    (if drop_panicked ds
     then if panicking w
       then (Ok (), close_pages (pages a)
               (error_in_brittle_scenario os ''ShmAllocator panicked while destructing'' u))
       else (Panic, close_pages (pages a) u)
     else (Ok (), close_pages (pages a) u))"
    using ds us by (simp add: shm_drop_def exec_defs)
  show ?thesis
  proof (cases "drop_panicked ds \<and> panicking w")
    case True
    with eq run ds us show ?thesis
      by (intro exI [of _ ds] exI [of _ "us @ Did (Stderr ''ERROR IN BRITTLE SCENARIO! '') #
          Did (Stderr ''ShmAllocator panicked while destructing'') # Did (Stderr [CHR 0x0A]) #
          map (\<lambda>p. Did (Close (page_fd p))) (pages a)"])
        (simp add: close_pages_trace)
  next
    case False
    with eq run ds us show ?thesis
      by (intro exI [of _ ds] exI [of _ "us @ map (\<lambda>p. Did (Close (page_fd p))) (pages a)"])
        (auto simp: close_pages_trace split: if_splits)
  qed
qed

definition demo_order :: drain_order where
  "demo_order m = map (\<lambda>n. (n, the (m n))) (filter (\<lambda>n. m n \<noteq> None) [''b'', ''a''])"

theorem shm_drop_order_witness:
  "\<exists>ds us. trace (snd (shm_drop calm_os demo_gs demo_order demo_alloc2 start_world :: (unit, unit) exec \<times> world)) = ds @ us
     \<and> dropped ds = [(8, 7), (0, 3)] \<and> unmapped us = [(0, 4096)] \<and> closed us = [101]"
proof -
  obtain r v where run: "shm_drop calm_os demo_gs demo_order demo_alloc2 start_world = (r :: (unit, unit) exec, v)"
    by fastforce
  have "drains demo_order (resources demo_alloc2)"
    by (auto simp: drains_def demo_order_def demo_alloc2_def)
  from shm_drop_order [OF run demo_wf(2) this] obtain ds us where
    "trace v = ds @ us" "dropped ds = [(8, 7), (0, 3)]" "unmapped us = [(0, 4096)]" "closed us = [101]"
    by (auto simp: demo_order_def demo_alloc2_def resource_target_def demo_page_def start_world_def
        demo_mutex_def demo_small_def)
  with run show ?thesis by (metis snd_conv)
qed

end
