(* ===== verification/Env_Sync.thy ===== *)
theory Env_Sync imports Routine Shm_Allocator begin

text \<open>
  \<open>src/linux/environment_synchronization_thread.rs\<close>: the thread that owns one environment. It
  waits on an epoll for three kinds of events: a new client handed over by the welcome thread
  (\<open>add_listener_event\<close>), the order to end (\<open>drop_event\<close>), and a client's socket. Its state is the set of
  clients' sockets and the allocator; what it says to the other threads goes through channels
  and eventfds, which are calls in its trace.
\<close>

section \<open>The set of sockets\<close>

type_synonym socket_set = "raw_fd set"

definition socket_set_new :: socket_set where
  "socket_set_new = {}"

definition socket_set_len :: "socket_set \<Rightarrow> usize" where
  "socket_set_len S = of_nat (card S)"

definition socket_set_is_empty :: "socket_set \<Rightarrow> bool" where
  "socket_set_is_empty S \<longleftrightarrow> S = {}"

text \<open>\<open>insert\<close> takes the descriptor over without closing anything; \<open>remove\<close> closes it.\<close>

definition socket_set_insert :: "raw_fd \<Rightarrow> (socket_set \<times> world, 'e, bool) io" where
  "socket_set_insert fd =
     bind_io get_self (\<lambda>S. bind_io (set_self (insert fd)) (\<lambda>_. ret (fd \<notin> S)))"

definition socket_set_remove :: "raw_fd \<Rightarrow> (socket_set \<times> world, 'e, bool) io" where
  "socket_set_remove fd =
     bind_io get_self (\<lambda>S.
     if fd \<in> S
     then bind_io (set_self (\<lambda>S. S - {fd})) (\<lambda>_.
          bind_io (lift_io (sys_do (Close fd))) (\<lambda>_. ret True))
     else ret False)"

text \<open>\<open>drain\<close> visits every descriptor once, in an order of the \<open>HashSet\<close>'s own.\<close>

type_synonym fd_order = "socket_set \<Rightarrow> raw_fd list"

definition enumerates :: "fd_order \<Rightarrow> socket_set \<Rightarrow> bool" where
  "enumerates order S \<longleftrightarrow> distinct (order S) \<and> set (order S) = S"

definition socket_set_drop :: "fd_order \<Rightarrow> socket_set \<Rightarrow> world \<Rightarrow> world" where
  "socket_set_drop order S w = fold close_fd (order S) w"

section \<open>Descriptors as epoll data\<close>

text \<open>\<open>fd as u64\<close> extends the sign, \<open>data as RawFd\<close> truncates.\<close>

definition epoll_data :: "raw_fd \<Rightarrow> u64" where
  "epoll_data fd = scast fd"

definition data_fd :: "u64 \<Rightarrow> raw_fd" where
  "data_fd d = ucast d"

section \<open>The thread's state\<close>

record sync_ids =
  env_name :: string
  close_env_event :: raw_fd
  add_listener_event :: raw_fd
  drop_event :: raw_fd

record sync_state =
  sockets :: socket_set
  shm :: shm_allocator

text \<open>A method of one field of the state.\<close>

definition on_sockets :: "(socket_set \<times> world, 'e, 'a) io \<Rightarrow> (sync_state \<times> world, 'e, 'a) io" where
  "on_sockets m sw =
     (case m (sockets (fst sw), snd sw) of (r, S, w') \<Rightarrow> (r, (fst sw)\<lparr>sockets := S\<rparr>, w'))"

definition on_shm :: "(shm_allocator \<times> world, 'e, 'a) io \<Rightarrow> (sync_state \<times> world, 'e, 'a) io" where
  "on_shm m sw =
     (case m (shm (fst sw), snd sw) of (r, a, w') \<Rightarrow> (r, (fst sw)\<lparr>shm := a\<rparr>, w'))"

section \<open>Reporting to the owner\<close>

definition pass_result_to_requesting_thread ::
  "os \<Rightarrow> (sync_state \<times> world, detailed_error, unit) io \<Rightarrow> (sync_state \<times> world, 'e, unit) io" where
  "pass_result_to_requesting_thread os res =
     (let respond = (\<lambda>r. bind_io (sys_bool os (SendSyncResponse r))
                       (\<lambda>delivered. if delivered then ret () else send_error os SendError))
      in match_io res (\<lambda>e. lift_io (respond (Inl e))) (\<lambda>_. lift_io (respond (Inr ()))))"

definition announce_env_close :: "os \<Rightarrow> sync_ids \<Rightarrow> (detailed_error list, unit) routine" where
  "announce_env_close os ids =
     bind_io (sys_bool os (SendClosedName (env_name ids))) (\<lambda>delivered.
     let errors = (if delivered then [] else [SendError])
     in match_io (sys_unit os (EventFdWrite (close_env_event ids) 1))
          (\<lambda>e. throw (errors @ [e]))
          (\<lambda>_. if errors = [] then ret () else throw errors))"

definition report_boxed_error_and_close ::
  "os \<Rightarrow> sync_ids \<Rightarrow> detailed_error \<Rightarrow> ('e, unit) routine" where
  "report_boxed_error_and_close os ids e =
     bind_io (sys_bool os (SendToMain e)) (\<lambda>delivered.
     let errors = (if delivered then [] else [SendError])
     in match_io (announce_env_close os ids)
          (\<lambda>es. send_all_errors os (errors @ es))
          (\<lambda>_. send_all_errors os errors))"

section \<open>New clients\<close>

definition add_listener_turn ::
  "os \<Rightarrow> raw_fd \<Rightarrow> unit \<Rightarrow> (sync_state \<times> world, detailed_error, (unit, unit) turn) io" where
  "add_listener_turn os epoll _ =
     bind_io (lift_io (sys_listener os)) (\<lambda>recv_res.
     case recv_res of
       Received new_listener \<Rightarrow>
         bind_io
           (on_exit_drop (apsnd (close_fd new_listener))
              (lift_io (sys_unit os (EpollAdd epoll new_listener {EPOLLIN, EPOLLRDHUP}
                                       (epoll_data new_listener)))))
           (\<lambda>_.
         bind_io (on_sockets (socket_set_insert new_listener)) (\<lambda>_.
         ret (Next ())))
     | Empty \<Rightarrow> ret (Stop ())
     | Disconnected \<Rightarrow> panic)"

definition add_listener ::
  "os \<Rightarrow> sync_ids \<Rightarrow> raw_fd \<Rightarrow> nat \<Rightarrow> (sync_state \<times> world, detailed_error, unit) io" where
  "add_listener os ids epoll fuel =
     bind_io (lift_io (sys_num os (EventFdRead (add_listener_event ids)))) (\<lambda>_.
     run_loop fuel (add_listener_turn os epoll) ())"

section \<open>Requests\<close>

definition receive_and_parse_request ::
  "os \<Rightarrow> garnshared \<Rightarrow> raw_fd \<Rightarrow> (detailed_error list, environment_request) routine" where
  "receive_and_parse_request os gs raw_fd =
     parse_request os (environment_max_size gs) (deserialize_environment gs)
       (serialize_environment gs EnvironmentMalformedRequest) raw_fd"

text \<open>\<open>PthreadMutex::init\<close> on a slot; its answer is the outside's.\<close>

definition init_mutex :: "os \<Rightarrow> garnshared \<Rightarrow> addr \<Rightarrow> (detailed_error, unit) routine" where
  "init_mutex os gs dest = sys_unit os (Construct dest (type_uuid (pthread_mutex gs)))"

text \<open>The first half of \<open>handle_open_mutex\<close>: the location of the mutex, made if it does not exist.\<close>

definition open_or_create ::
  "os \<Rightarrow> garnshared \<Rightarrow> string \<Rightarrow> raw_fd
    \<Rightarrow> (shm_allocator \<times> world, detailed_error list, client_resource_location) io" where
  "open_or_create os gs name raw_fd =
     (let T = pthread_mutex gs; failure = environment_internal_error gs
      in bind_io get_self (\<lambda>self.
         bind_io (unwrap_or_report_failure os (lift_io (find_resource self T name)) raw_fd failure)
           (\<lambda>found.
         case found of
           Some res \<Rightarrow> ret res
         | None \<Rightarrow>
             unwrap_or_report_failure os (construct_in_shm os T name (init_mutex os gs)) raw_fd failure)))"

definition handle_open_mutex ::
  "os \<Rightarrow> garnshared \<Rightarrow> string \<Rightarrow> raw_fd \<Rightarrow> (shm_allocator \<times> world, detailed_error list, unit) io" where
  "handle_open_mutex os gs name raw_fd =
     bind_io (open_or_create os gs name raw_fd) (\<lambda>shm_location.
     bind_io
       (unwrap_or_report_failure os
          (lift_io (pure_io (serialize_environment gs
             (OpenMutexOk (of_nat (loc_page shm_location)) (loc_offset shm_location)))))
          raw_fd (environment_internal_error gs))
       (\<lambda>response.
     bind_io
       (map_err (\<lambda>e. [e])
          (lift_io (sys_num os (SendMsg raw_fd (as_bytes response) (loc_fd shm_location)))))
       (\<lambda>_. ret ())))"

section \<open>The event loop\<close>

text \<open>A \<open>Vec\<close> of errors handled in place, as the thread's body does with every \<open>Err\<close> it gets.\<close>

definition or_send_errors ::
  "os \<Rightarrow> ('s \<times> world, detailed_error list, 'a) io \<Rightarrow> 'b \<Rightarrow> ('a \<Rightarrow> ('s \<times> world, 'e, 'b) io)
    \<Rightarrow> ('s \<times> world, 'e, 'b) io" where
  "or_send_errors os m b f =
     match_io m (\<lambda>es. bind_io (lift_io (send_all_errors os es)) (\<lambda>_. ret b)) f"

text \<open>One event; the result says whether the loop ends (\<open>break_loop\<close>).\<close>

definition handle_event ::
  "os \<Rightarrow> garnshared \<Rightarrow> sync_ids \<Rightarrow> raw_fd \<Rightarrow> nat \<Rightarrow> epoll_event \<Rightarrow> (sync_state \<times> world, 'e, bool) io" where
  "handle_event os gs ids epoll fuel ev =
     (if ev_data ev = epoll_data (add_listener_event ids)
      then bind_io (pass_result_to_requesting_thread os (add_listener os ids epoll fuel)) (\<lambda>_. ret False)
      else if ev_data ev = epoll_data (drop_event ids)
      then match_io (lift_io (sys_num os (EventFdRead (drop_event ids))))
             (\<lambda>e. bind_io (lift_io (send_error os e)) (\<lambda>_. ret True))
             (\<lambda>_. ret True)
      else
        let raw_fd = data_fd (ev_data ev)
        in if EPOLLRDHUP \<in> ev_flags ev
           then bind_io (on_sockets (socket_set_remove raw_fd)) (\<lambda>_.
                bind_io get_self (\<lambda>self.
                if socket_set_is_empty (sockets self)
                then or_send_errors os (lift_io (announce_env_close os ids)) True (\<lambda>_. ret True)
                else ret False))
           else or_send_errors os (lift_io (receive_and_parse_request os gs raw_fd)) False
                  (\<lambda>request.
                    case request of
                      OpenMutex name \<Rightarrow>
                        or_send_errors os (on_shm (handle_open_mutex os gs name raw_fd)) False
                          (\<lambda>_. ret False)))"

fun handle_events ::
  "os \<Rightarrow> garnshared \<Rightarrow> sync_ids \<Rightarrow> raw_fd \<Rightarrow> nat \<Rightarrow> epoll_event list
    \<Rightarrow> (sync_state \<times> world, 'e, bool) io" where
  "handle_events os gs ids epoll fuel [] = ret False"
| "handle_events os gs ids epoll fuel (ev # evs) =
     bind_io (handle_event os gs ids epoll fuel ev)
       (\<lambda>break_loop. if break_loop then ret True else handle_events os gs ids epoll fuel evs)"

text \<open>
  One turn of \<open>while !break_loop\<close>. The buffer holds \<open>sockets.len() + 2\<close> events, and slicing it
  panics should the kernel claim to have written more.
\<close>

definition sync_turn ::
  "os \<Rightarrow> garnshared \<Rightarrow> sync_ids \<Rightarrow> raw_fd \<Rightarrow> nat \<Rightarrow> unit
    \<Rightarrow> (sync_state \<times> world, 'e, (unit, unit) turn) io" where
  "sync_turn os gs ids epoll fuel _ =
     bind_io get_self (\<lambda>self.
     let len = socket_set_len (sockets self) + 2
     in match_io (lift_io (sys_epoll os epoll len))
          (\<lambda>e. bind_io (lift_io (report_boxed_error_and_close os ids e)) (\<lambda>_. ret (Stop ())))
          (\<lambda>events.
             if unat len < length events then panic
             else bind_io (handle_events os gs ids epoll fuel events)
                    (\<lambda>break_loop. ret (if break_loop then Stop () else Next ()))))"

text \<open>Both special events are registered before the loop; the first failure ends the thread.\<close>

fun register_events :: "os \<Rightarrow> raw_fd \<Rightarrow> raw_fd list \<Rightarrow> (detailed_error, unit) routine" where
  "register_events os epoll [] = ret ()"
| "register_events os epoll (ev # evs) =
     bind_io (sys_unit os (EpollAdd epoll ev {EPOLLIN} (epoll_data ev)))
       (\<lambda>_. register_events os epoll evs)"

text \<open>
  The end of the thread's scope: its locals are dropped in reverse order of their declaration,
  the epoll, the allocator, the sockets, on every way out; what was moved into a field's drop
  may panic only in the allocator, and the sockets are dropped even then.
\<close>

definition drop_locals ::
  "os \<Rightarrow> garnshared \<Rightarrow> drain_order \<Rightarrow> fd_order \<Rightarrow> sync_state \<Rightarrow> ('e, unit) routine" where
  "drop_locals os gs order fds st =
     finally_drop (socket_set_drop fds (sockets st)) (shm_drop os gs order (shm st))"

definition sync_loop ::
  "os \<Rightarrow> garnshared \<Rightarrow> drain_order \<Rightarrow> fd_order \<Rightarrow> sync_ids \<Rightarrow> raw_fd \<Rightarrow> nat \<Rightarrow> sync_state
    \<Rightarrow> ('e, unit) routine" where
  "sync_loop os gs order fds ids epoll fuel st w =
     (case run_loop fuel (sync_turn os gs ids epoll fuel) () (st, w) of
        (r, st', w') \<Rightarrow>
          with_drop (drop_locals os gs order fds st') (finally_drop (close_fd epoll) (Pair r)) w')"

definition environment_synchronization_thread_main ::
  "os \<Rightarrow> garnshared \<Rightarrow> drain_order \<Rightarrow> fd_order \<Rightarrow> sync_ids \<Rightarrow> nat \<Rightarrow> ('e, unit) routine" where
  "environment_synchronization_thread_main os gs order fds ids fuel =
     match_io (shm_new os)
       (report_boxed_error_and_close os ids)
       (\<lambda>allocator.
     let st = \<lparr>sockets = socket_set_new, shm = allocator\<rparr>;
         report = (\<lambda>e. with_drop (drop_locals os gs order fds st) (report_boxed_error_and_close os ids e))
     in match_io (sys_fd os EpollCreate)
          report
          (\<lambda>epoll.
             match_io (register_events os epoll [add_listener_event ids, drop_event ids])
               (\<lambda>e. with_drop (drop_locals os gs order fds st)
                        (finally_drop (close_fd epoll) (report_boxed_error_and_close os ids e)))
               (\<lambda>_. sync_loop os gs order fds ids epoll fuel st)))"

section \<open>What each part calls\<close>

text \<open>Only \<open>handle_open_mutex\<close> hands a descriptor to a client; everything else is quiet.\<close>

fun hands_out :: "event \<Rightarrow> bool" where
  "hands_out (NumAns (SendMsg _ _ _) _) = True"
| "hands_out _ = False"

abbreviation quiet :: "event \<Rightarrow> bool" where "quiet e \<equiv> \<not> hands_out e"

lemma keeps_on_sockets [keeps_rules]:
  "(\<And>st. keeps (\<lambda>Sw. I (st\<lparr>sockets := fst Sw\<rparr>, snd Sw)) m) \<Longrightarrow> keeps I (on_sockets m)"
  by (rule keepsI) (force simp: on_sockets_def split: prod.splits dest: keepsD)

lemma keeps_on_shm [keeps_rules]:
  "(\<And>st. keeps (\<lambda>aw. I (st\<lparr>shm := fst aw\<rparr>, snd aw)) m) \<Longrightarrow> keeps I (on_shm m)"
  by (rule keepsI) (force simp: on_shm_def split: prod.splits dest: keepsD)

lemma keeps_case_request [keeps_rules]:
  "(\<And>n. keeps I (f n)) \<Longrightarrow> keeps I (case x of OpenMutex n \<Rightarrow> f n)"
  by (cases x) auto

text \<open>The drop of the allocator without the drop of its fields.\<close>

definition shm_destroy :: "os \<Rightarrow> garnshared \<Rightarrow> drain_order \<Rightarrow> shm_allocator \<Rightarrow> ('e, unit) routine" where
  "shm_destroy os gs order self =
     bind_io (drop_resources os (pages self) (order (resources self)) False) (\<lambda>first_panic.
     bind_io (unmap_pages os gs (page_size self) (pages self)) (\<lambda>_.
     if first_panic
     then (\<lambda>w. if panicking w
               then (Ok (), error_in_brittle_scenario os ''ShmAllocator panicked while destructing'' w)
               else panic w)
     else ret ()))"

lemma shm_drop_destroy:
  "shm_drop os gs order a = finally_drop (close_pages (pages a)) (shm_destroy os gs order a)"
  by (simp add: shm_drop_def shm_destroy_def)

text \<open>The calls of the allocator, of the reports and of the drops, for any trace invariant.\<close>

context trace_invariant
begin

lemma allocator_calls:
  assumes "\<And>s r. q (FdAns (MemfdCreate s) r)" "\<And>fd n r. q (UnitAns (Ftruncate fd n) r)"
    "\<And>fd r. q (UnitAns (AddSeals fd) r)" "\<And>fd n r. q (NumAns (Mmap fd n) r)" "\<And>fd. q (Did (Close fd))"
  shows "keeps (\<lambda>aw. I (snd aw)) (create_new_page os)"
    and "keeps (\<lambda>aw. I (snd aw)) (reserve_slot os T)"
    and "(\<And>d. keeps I (F d)) \<Longrightarrow> keeps (\<lambda>aw. I (snd aw)) (construct_in_shm os T name F)"
proof -
  show page: "keeps (\<lambda>aw. I (snd aw)) (create_new_page os)"
    unfolding create_new_page_def
    by (intro keeps_bind keeps_on_exit keeps_lift keeps_self keeps_if keeps_pure keeps_pure_io)
      (simp_all add: answers assms snoc)
  show slot: "keeps (\<lambda>aw. I (snd aw)) (reserve_slot os T)"
    unfolding reserve_slot_def
    by (intro keeps_bind keeps_self keeps_if keeps_pure keeps_case_option page) simp_all
  show "keeps (\<lambda>aw. I (snd aw)) (construct_in_shm os T name F)" if "\<And>d. keeps I (F d)"
    unfolding construct_in_shm_def
    by (intro keeps_bind keeps_self keeps_if keeps_pure keeps_lift slot) (simp_all add: that)
qed

lemma find_resource_keeps: "keeps I (find_resource self T name)"
  unfolding find_resource_def by (intro keeps_case_option keeps_if keeps_bind keeps_pure)

lemma closes: "I w \<Longrightarrow> (\<And>fd. q (Did (Close fd))) \<Longrightarrow> I (fold close_fd fds w)"
  by (induction fds arbitrary: w) (simp_all add: snoc)

lemma destroy_calls:
  assumes "\<And>d u b. q (BoolAns (DropInPlace d u) b)" "\<And>m n r. q (UnitAns (Munmap m n) r)"
    "\<And>s. q (Did (Stderr s))"
  shows "keeps I (shm_destroy os gs order a :: ('e, unit) routine)"
proof -
  have drops: "keeps I (drop_resources os ps rs b :: ('e, bool) routine)" for ps rs b
  proof (induction rs arbitrary: b)
    case (Cons x rs)
    then show ?case
      by (cases x) (auto simp: destroy_resource_def
          intro!: keeps_bind keeps_catch_unwind keeps_pure answers assms keeps_if)
  qed (simp add: keeps_pure)
  have unmaps: "keeps I (unmap_pages os gs n ps :: ('e, unit) routine)" for n ps
  proof (induction ps)
    case (Cons p ps)
    have "keeps I (\<lambda>w. (Ok (), error_in_brittle_scenario os s w) :: ('e, unit) exec \<times> world)" for s
      by (rule keepsI) (use brittle assms(3) in \<open>auto simp del: error_in_brittle_scenario_simps\<close>)
    then show ?case
      by (auto intro!: keeps_bind keeps_match keeps_pure answers assms Cons)
  qed (simp add: keeps_pure)
  have ends: "keeps I (\<lambda>w. if panicking w then (Ok (), error_in_brittle_scenario os s w) else panic w
      :: ('e, unit) exec \<times> world)" for s
    by (rule keepsI) (use brittle assms(3) in \<open>auto simp: panic_def simp del: error_in_brittle_scenario_simps split: if_splits\<close>)
  show ?thesis
    unfolding shm_destroy_def by (intro keeps_bind keeps_if keeps_pure drops unmaps ends)
qed

lemma drop_calls:
  assumes "\<And>d u b. q (BoolAns (DropInPlace d u) b)" "\<And>m n r. q (UnitAns (Munmap m n) r)"
    "\<And>s. q (Did (Stderr s))" "\<And>fd. q (Did (Close fd))"
  shows "keeps I (drop_locals os gs order fds st :: ('e, unit) routine)"
proof -
  have "I w \<Longrightarrow> I (close_pages ps w)" for ps w
    unfolding close_pages_def by (induction ps arbitrary: w) (simp_all add: snoc assms)
  then show ?thesis
    unfolding drop_locals_def shm_drop_destroy socket_set_drop_def
    by (intro keeps_finally destroy_calls closes assms)
qed

lemma close_report_calls:
  assumes "\<And>n r. q (BoolAns (SendClosedName n) r)" "\<And>e r. q (BoolAns (SendToMain e) r)"
    "\<And>fd n r. q (UnitAns (EventFdWrite fd n) r)"
  shows "keeps I (announce_env_close os ids)"
    and "keeps I (report_boxed_error_and_close os ids e :: ('e, unit) routine)"
proof -
  show one: "keeps I (announce_env_close os ids)"
    unfolding announce_env_close_def Let_def
    by (intro keeps_bind keeps_match keeps_if keeps_pure answers assms)
  show "keeps I (report_boxed_error_and_close os ids e :: ('e, unit) routine)"
    unfolding report_boxed_error_and_close_def Let_def
    by (intro keeps_bind keeps_match one answers reports assms)
qed

end

section \<open>Epoll data\<close>

lemma data_fd_epoll_data [simp]: "data_fd (epoll_data fd) = fd"
  unfolding data_fd_def epoll_data_def
  by (rule bit_word_eqI) (auto simp: bit_simps)

lemma epoll_data_inject [simp]: "epoll_data fd = epoll_data fd' \<longleftrightarrow> fd = fd'"
  by (metis data_fd_epoll_data)

section \<open>The store of mutexes\<close>

text \<open>
  The contract of a store whose objects are opened by name and made on demand: an object that is
  there stays where it is, an opened one is there, and different objects are apart. The client's
  lemma: all the opens of a history agree.
\<close>

locale object_store =
  fixes inv :: "'s \<Rightarrow> bool"
    and table :: "'s \<Rightarrow> 'n \<rightharpoonup> 'l"
    and opens :: "'n \<Rightarrow> 's \<Rightarrow> 'l option \<Rightarrow> 's \<Rightarrow> bool"
    and apart :: "'l \<Rightarrow> 'l \<Rightarrow> bool"
  assumes open_inv: "inv s \<Longrightarrow> opens n s x s' \<Longrightarrow> inv s'"
    and open_keeps: "inv s \<Longrightarrow> opens n s x s' \<Longrightarrow> table s m = Some l \<Longrightarrow> table s' m = Some l"
    and open_gives: "inv s \<Longrightarrow> opens n s (Some l) s' \<Longrightarrow> table s' n = Some l"
    and table_apart: "inv s \<Longrightarrow> table s n = Some l \<Longrightarrow> table s m = Some k \<Longrightarrow> n \<noteq> m \<Longrightarrow> apart l k"
begin

inductive history :: "'s \<Rightarrow> ('n \<times> 'l) list \<Rightarrow> 's \<Rightarrow> bool" where
  empty: "history s [] s"
| opened: "history s h s' \<Longrightarrow> opens n s' (Some l) s'' \<Longrightarrow> history s (h @ [(n, l)]) s''"
| failed: "history s h s' \<Longrightarrow> opens n s' None s'' \<Longrightarrow> history s h s''"

lemma history_table:
  "history s h s' \<Longrightarrow> inv s \<Longrightarrow> inv s' \<and> (\<forall>(n, l) \<in> set h. table s' n = Some l)"
  by (induction rule: history.induct) (auto dest: open_inv open_gives open_keeps)

lemma history_agrees:
  assumes "history s h s'" and "inv s" and "(n, l) \<in> set h" and "(m, k) \<in> set h"
  shows "if n = m then l = k else apart l k"
proof -
  have "inv s'" "table s' n = Some l" "table s' m = Some k"
    using history_table [OF assms(1,2)] assms(3,4) by auto
  then show ?thesis
    using table_apart by auto
qed

end

definition location_table :: "shm_allocator \<Rightarrow> string \<rightharpoonup> client_resource_location" where
  "location_table a n = map_option (location_of a) (resources a n)"

text \<open>An allocator that holds resources of one type only, as this thread's holds mutexes.\<close>

definition holds_only :: "rust_type \<Rightarrow> shm_allocator \<Rightarrow> bool" where
  "holds_only T a \<longleftrightarrow> shm_wf a \<and> (\<forall>n r. resources a n = Some r \<longrightarrow> res_destructor r = T)"

definition location_bytes :: "rust_type \<Rightarrow> client_resource_location \<Rightarrow> nat set" where
  "location_bytes T l = {unat (loc_offset l) ..< unat (loc_offset l) + unat (size_of T)}"

definition locations_apart :: "rust_type \<Rightarrow> client_resource_location \<Rightarrow> client_resource_location \<Rightarrow> bool" where
  "locations_apart T l k \<longleftrightarrow>
     (loc_page l = loc_page k \<longrightarrow> location_bytes T l \<inter> location_bytes T k = {})"

lemma location_table_apart:
  assumes "holds_only T a" and "location_table a n = Some l" and "location_table a m = Some k" and "n \<noteq> m"
  shows "locations_apart T l k"
proof -
  obtain r s where "resources a n = Some r" "l = location_of a r" "resources a m = Some s" "k = location_of a s"
    using assms(2,3) by (auto simp: location_table_def)
  with assms(1,4) show ?thesis
    by (auto simp: holds_only_def shm_wf_def disjoint_resources_def locations_apart_def
        location_of_def location_bytes_def region_def)
qed

text \<open>Whatever \<open>construct_in_shm\<close> does, what is in the table stays.\<close>

lemma construct_table:
  assumes run: "construct_in_shm os T name F (a, w) = (r, a', w')" and a: "holds_only T a" and T: "rust_layout T"
  shows "holds_only T a' \<and> location_table a \<subseteq>\<^sub>m location_table a'
    \<and> (\<forall>l. r = Ok l \<longrightarrow> location_table a' name = Some l)"
proof -
  have wf: "shm_wf a" using a by (simp add: holds_only_def)
  note keeps = construct_in_shm_keeps [OF run wf T]
  obtain new where new: "pages a' = pages a @ new" using keeps(3) by blast
  have ok: "\<exists>r. resources a' name = Some r \<and> l = location_of a' r \<and> res_destructor r = T" if "r = Ok l" for l
    using construct_in_shm_Ok [OF run [unfolded that] wf T] by auto
  have old: "resources a' n = Some s" if "resources a n = Some s" for n s
    using keeps(4,5) that by (cases "n = name") auto
  have "res_destructor s = T" if s: "resources a' n = Some s" for n s
  proof (cases "resources a n = Some s")
    case True
    with a show ?thesis by (auto simp: holds_only_def)
  next
    case False
    with s keeps(4,6) have "n = name" "\<exists>l. r = Ok l" by metis+
    with ok s show ?thesis by auto
  qed
  then have "holds_only T a'"
    using keeps(1) by (simp add: holds_only_def)
  moreover have "location_table a' n = location_table a n" if n: "n \<in> dom (location_table a)" for n
  proof -
    obtain s where s: "resources a n = Some s" using n by (auto simp: location_table_def)
    show ?thesis
      using old [OF s] s location_of_append [OF shm_wf_page [OF wf s] new] by (simp add: location_table_def)
  qed
  moreover have "location_table a' name = Some l" if "r = Ok l" for l
    using ok [OF that] by (auto simp: location_table_def)
  ultimately show ?thesis
    by (simp add: map_le_def)
qed

lemma find_table:
  assumes "holds_only T a"
  shows "find_resource a T name w = (Ok (location_table a name), w)"
  using assms shm_wf_page [of a name]
  by (auto simp: holds_only_def find_resource_wf location_table_def shm_wf_def resource_ok_def split: option.split)

lemma open_or_create_table:
  assumes run: "open_or_create os gs name fd (a, w) = (r, a', w')"
    and a: "holds_only (pthread_mutex gs) a" and T: "rust_layout (pthread_mutex gs)"
  shows "holds_only (pthread_mutex gs) a' \<and> location_table a \<subseteq>\<^sub>m location_table a'
    \<and> (\<forall>l. r = Ok l \<longrightarrow> location_table a' name = Some l)"
proof (cases "location_table a name")
  case (Some l)
  then show ?thesis
    using run a by (auto simp: open_or_create_def exec_defs unwrap_or_report_failure_def Let_def find_table [OF a])
next
  case None
  obtain x b v where c: "construct_in_shm os (pthread_mutex gs) name (init_mutex os gs) (a, w) = (x, b, v)"
    by (cases "construct_in_shm os (pthread_mutex gs) name (init_mutex os gs) (a, w)")
  have "a' = b \<and> (\<forall>l. r = Ok l \<longrightarrow> x = Ok l)"
    using run None c
    by (cases x) (auto simp: open_or_create_def exec_defs unwrap_or_report_failure_def find_table [OF a]
        sys_defs answer_def split: sum.splits)
  with construct_table [OF c a T] show ?thesis by auto
qed

definition opens_mutex ::
  "garnshared \<Rightarrow> string \<Rightarrow> shm_allocator \<Rightarrow> client_resource_location option \<Rightarrow> shm_allocator \<Rightarrow> bool" where
  "opens_mutex gs name a x a' \<longleftrightarrow>
     (\<exists>os fd w r w'. open_or_create os gs name fd (a, w) = (r, a', w')
        \<and> x = (case r of Ok l \<Rightarrow> Some l | _ \<Rightarrow> None))"

interpretation mutexes: object_store
  "\<lambda>a. rust_layout (pthread_mutex gs) \<and> holds_only (pthread_mutex gs) a" location_table
  "opens_mutex gs" "locations_apart (pthread_mutex gs)" for gs
proof unfold_locales
  let ?inv = "\<lambda>a. rust_layout (pthread_mutex gs) \<and> holds_only (pthread_mutex gs) a"
  have table: "?inv a' \<and> location_table a \<subseteq>\<^sub>m location_table a' \<and> (\<forall>l. x = Some l \<longrightarrow> location_table a' n = Some l)"
    if inv: "?inv a" and opens: "opens_mutex gs n a x a'" for a n x a'
  proof -
    obtain os fd w r w' where run: "open_or_create os gs n fd (a, w) = (r, a', w')"
      and x: "x = (case r of Ok l \<Rightarrow> Some l | _ \<Rightarrow> None)"
      using opens by (auto simp: opens_mutex_def)
    show ?thesis
      using open_or_create_table [OF run] inv x by (cases r) simp_all
  qed
  show "?inv a'" if "?inv a" "opens_mutex gs n a x a'" for a n x a'
    using table [OF that] by blast
  show "location_table a' m = Some l"
    if "?inv a" "opens_mutex gs n a x a'" "location_table a m = Some l" for a n x a' m l
    using table [OF that(1,2)] that(3) by (metis domI map_le_def)
  show "location_table a' n = Some l" if "?inv a" "opens_mutex gs n a (Some l) a'" for a n l a'
    using table [OF that] by blast
  show "locations_apart (pthread_mutex gs) l k"
    if "?inv a" "location_table a n = Some l" "location_table a m = Some k" "n \<noteq> m" for a n l m k
    using location_table_apart that by blast
qed

section \<open>What the clients are given\<close>

text \<open>
  Read off a trace: the request received last and who sent it, and every answer that carried a
  descriptor, with the request it answers.
\<close>

type_synonym grant = "(raw_fd \<times> string) option \<times> raw_fd \<times> bytes \<times> raw_fd"

definition request_in :: "garnshared \<Rightarrow> bytes \<Rightarrow> string option" where
  "request_in gs bs =
     (case from_utf8 (fill_buffer (unat (environment_max_size gs)) bs) of
        Inl _ \<Rightarrow> None
      | Inr s \<Rightarrow> (case deserialize_environment gs s of Inl _ \<Rightarrow> None | Inr (OpenMutex n) \<Rightarrow> Some n))"

fun note_grant ::
  "garnshared \<Rightarrow> event \<Rightarrow> (raw_fd \<times> string) option \<times> grant list \<Rightarrow> (raw_fd \<times> string) option \<times> grant list" where
  "note_grant gs (Recv fd k (Inr bs)) (cur, gl) = (map_option (Pair fd) (request_in gs bs), gl)"
| "note_grant gs (NumAns (SendMsg fd msg mfd) (Inr k)) (cur, gl) = (cur, gl @ [(cur, fd, msg, mfd)])"
| "note_grant gs _ x = x"

definition noted :: "garnshared \<Rightarrow> event list \<Rightarrow> (raw_fd \<times> string) option \<times> grant list" where
  "noted gs tr = fold (note_grant gs) tr (None, [])"

definition current_request :: "garnshared \<Rightarrow> event list \<Rightarrow> (raw_fd \<times> string) option" where
  "current_request gs tr = fst (noted gs tr)"

definition grants :: "garnshared \<Rightarrow> event list \<Rightarrow> grant list" where
  "grants gs tr = snd (noted gs tr)"

text \<open>The answer the table prescribes for a request.\<close>

definition granted :: "garnshared \<Rightarrow> (string \<rightharpoonup> client_resource_location) \<Rightarrow> grant \<Rightarrow> bool" where
  "granted gs tbl g =
     (case g of (req, fd, msg, mfd) \<Rightarrow>
        \<exists>n l s. req = Some (fd, n) \<and> tbl n = Some l
          \<and> serialize_environment gs (OpenMutexOk (of_nat (loc_page l)) (loc_offset l)) = Inr s
          \<and> msg = as_bytes s \<and> mfd = loc_fd l)"

definition grants_agree :: "garnshared \<Rightarrow> shm_allocator \<Rightarrow> event list \<Rightarrow> bool" where
  "grants_agree gs a tr \<longleftrightarrow>
     holds_only (pthread_mutex gs) a \<and> (\<forall>g \<in> set (grants gs tr). granted gs (location_table a) g)"

lemma note_quiet: "quiet e \<Longrightarrow> snd (note_grant gs e x) = snd x"
  by (induction gs e x rule: note_grant.induct) auto

lemma grants_quiet: "quiet e \<Longrightarrow> grants gs (tr @ [e]) = grants gs tr"
  by (simp add: grants_def noted_def note_quiet)

interpretation grant: trace_invariant "grants_agree gs a" quiet for gs a
  by unfold_locales (simp add: grants_agree_def grants_quiet)

text \<open>Events that do not receive either keep the current request.\<close>

fun receives :: "event \<Rightarrow> bool" where
  "receives (Recv _ _ _) = True"
| "receives _ = False"

lemma note_silent: "\<not> receives e \<Longrightarrow> fst (note_grant gs e x) = fst x"
  by (induction gs e x rule: note_grant.induct) auto

interpretation current: trace_invariant "\<lambda>tr. current_request gs tr = c" "\<lambda>e. \<not> receives e" for gs c
  by unfold_locales (simp add: current_request_def noted_def note_silent)

lemma granted_mono: "granted gs tbl g \<Longrightarrow> tbl \<subseteq>\<^sub>m tbl' \<Longrightarrow> granted gs tbl' g"
  by (force simp: granted_def map_le_def dom_def)

lemma grants_agree_table:
  "grants_agree gs a tr \<Longrightarrow> holds_only (pthread_mutex gs) a' \<Longrightarrow>
   location_table a \<subseteq>\<^sub>m location_table a' \<Longrightarrow> grants_agree gs a' tr"
  by (auto simp: grants_agree_def intro: granted_mono)

lemma open_or_create_keeps:
  "keeps (\<lambda>aw. grants_agree gs b (trace (snd aw))) (open_or_create os gs name fd)"
  "keeps (\<lambda>aw. current_request gs (trace (snd aw)) = c) (open_or_create os gs name fd)"
proof -
  show "keeps (\<lambda>aw. grants_agree gs b (trace (snd aw))) (open_or_create os gs name fd)"
    unfolding open_or_create_def Let_def
    by (intro keeps_bind keeps_self keeps_unwrap_or_report keeps_lift keeps_case_option keeps_pure
        grant.find_resource_keeps grant.allocator_calls)
      (simp_all add: init_mutex_def grant.find_resource_keeps grant.answers)
  show "keeps (\<lambda>aw. current_request gs (trace (snd aw)) = c) (open_or_create os gs name fd)"
    unfolding open_or_create_def Let_def
    by (intro keeps_bind keeps_self keeps_unwrap_or_report keeps_lift keeps_case_option keeps_pure
        current.find_resource_keeps current.allocator_calls)
      (simp_all add: init_mutex_def current.find_resource_keeps current.answers)
qed

lemma handle_open_mutex_grants:
  assumes run: "handle_open_mutex os gs n fd (a, w) = (r, a', w')"
    and agree: "grants_agree gs a (trace w)" and cur: "current_request gs (trace w) = Some (fd, n)"
    and T: "rust_layout (pthread_mutex gs)"
  shows "grants_agree gs a' (trace w')"
proof -
  obtain x b v where o: "open_or_create os gs n fd (a, w) = (x, b, v)"
    by (cases "open_or_create os gs n fd (a, w)")
  have a: "holds_only (pthread_mutex gs) a" using agree by (simp add: grants_agree_def)
  note tbl = open_or_create_table [OF o a T]
  have "grants_agree gs a (trace v)"
    using keepsD [OF open_or_create_keeps(1) _ o] agree by simp
  then have v: "grants_agree gs b (trace v)"
    using tbl grants_agree_table by blast
  have c: "current_request gs (trace v) = Some (fd, n)"
    using keepsD [OF open_or_create_keeps(2) _ o] cur by simp
  show ?thesis
  proof (cases x)
    case (Ok l)
    let ?s = "serialize_environment gs (OpenMutexOk (of_nat (loc_page l)) (loc_offset l))"
    show ?thesis
    proof (cases ?s)
      case (Inl e)
      then show ?thesis
        using run o Ok v by (auto simp: handle_open_mutex_def exec_defs unwrap_or_report_failure_def
            sys_defs grant.snoc answer_def split: sum.splits)
    next
      case (Inr s)
      obtain y where w': "a' = b" "trace w' = trace v @ [NumAns (SendMsg fd (as_bytes s) (loc_fd l)) y]"
        using run o Ok Inr by (auto simp: handle_open_mutex_def exec_defs unwrap_or_report_failure_def
            sys_defs answer_def split: sum.splits)
      have "grants gs (trace w') = grants gs (trace v) @ (case y of Inl _ \<Rightarrow> []
          | Inr _ \<Rightarrow> [(Some (fd, n), fd, as_bytes s, loc_fd l)])"
        using w' c by (cases y; cases "noted gs (trace v)")
          (simp_all add: grants_def current_request_def noted_def)
      moreover have "granted gs (location_table b) (Some (fd, n), fd, as_bytes s, loc_fd l)"
        using tbl Ok Inr by (auto simp: granted_def)
      ultimately show ?thesis
        using v w' by (auto simp: grants_agree_def split: sum.splits)
    qed
  qed (use run o v in \<open>auto simp: handle_open_mutex_def exec_defs\<close>)
qed

section \<open>The thread keeps the agreement\<close>

definition thread_agrees :: "garnshared \<Rightarrow> sync_state \<times> world \<Rightarrow> bool" where
  "thread_agrees gs sw = grants_agree gs (shm (fst sw)) (trace (snd sw))"

lemma receive_current:
  assumes "receive_and_parse_request os gs fd w = (Ok (OpenMutex n), w')"
  shows "current_request gs (trace w') = Some (fd, n)"
proof -
  obtain bs where w': "w' = log_event (Recv fd (environment_max_size gs) (Inr bs)) w"
    and n: "request_in gs bs = Some n"
    using assms
    by (auto simp: receive_and_parse_request_def parse_request_def reject_malformed_def exec_defs sys_defs
        answer_def request_in_def split: sum.splits)
  show ?thesis
    using n unfolding w' by (cases "noted gs (trace w)") (simp add: current_request_def noted_def)
qed

lemma receive_keeps: "keeps (\<lambda>w. grants_agree gs a (trace w)) (receive_and_parse_request os gs fd)"
  unfolding receive_and_parse_request_def by (rule grant.requests) simp_all

lemma send_errors_keep:
  "keeps (\<lambda>w. grants_agree gs a (trace w)) (send_all_errors os es)"
  "keeps (\<lambda>w. grants_agree gs a (trace w)) (send_error os e)"
  by (rule grant.reports; simp)+

text \<open>A request, from its reception to the end of its handling.\<close>

definition handle_request ::
  "os \<Rightarrow> garnshared \<Rightarrow> raw_fd \<Rightarrow> (sync_state \<times> world, 'e, bool) io" where
  "handle_request os gs raw_fd =
     or_send_errors os (lift_io (receive_and_parse_request os gs raw_fd)) False
       (\<lambda>request.
         case request of
           OpenMutex name \<Rightarrow>
             or_send_errors os (on_shm (handle_open_mutex os gs name raw_fd)) False (\<lambda>_. ret False))"

lemma or_send_errors_keeps [keeps_rules]:
  "keeps I m \<Longrightarrow> (\<And>s es. keeps (\<lambda>w. I (s, w)) (send_all_errors os es :: ('e, unit) routine))
   \<Longrightarrow> (\<And>a. keeps I (f a)) \<Longrightarrow> keeps I (or_send_errors os m b f :: ('s \<times> world, 'e, 'b) io)"
  unfolding or_send_errors_def by (intro keeps_match keeps_bind keeps_lift keeps_pure)

lemma handle_request_keeps:
  assumes T: "rust_layout (pthread_mutex gs)"
  shows "keeps (thread_agrees gs) (handle_request os gs fd :: (sync_state \<times> world, 'e, bool) io)"
proof (rule keepsI)
  fix sw r sw' assume agree: "thread_agrees gs sw"
    and run: "(handle_request os gs fd :: (sync_state \<times> world, 'e, bool) io) sw = (r, sw')"
  obtain st w where sw: "sw = (st, w)" by (cases sw)
  obtain x v where rcv: "receive_and_parse_request os gs fd w = (x, v)"
    by (cases "receive_and_parse_request os gs fd w")
  have v: "grants_agree gs (shm st) (trace v)"
    using keepsD [OF receive_keeps _ rcv] agree by (simp add: sw thread_agrees_def)
  note errs = keepsD [OF send_errors_keep(1)]
  show "thread_agrees gs sw'"
  proof (cases x)
    case (Ok req)
    obtain n where n: "req = OpenMutex n" by (cases req)
    obtain y a u where h: "handle_open_mutex os gs n fd (shm st, v) = (y, a, u)"
      by (cases "handle_open_mutex os gs n fd (shm st, v)")
    have "grants_agree gs a (trace u)"
      by (rule handle_open_mutex_grants [OF h v _ T]) (use rcv Ok n receive_current in blast)
    then show ?thesis
      using run rcv Ok n h unfolding sw
      by (cases y) (auto simp: handle_request_def or_send_errors_def exec_defs on_shm_def thread_agrees_def
          split: prod.splits exec.splits intro: errs)
  qed (use run rcv v in \<open>auto simp: sw handle_request_def or_send_errors_def exec_defs thread_agrees_def
          split: prod.splits exec.splits intro: errs\<close>)
qed

lemma add_listener_keeps: "keeps (thread_agrees gs) (add_listener os ids epoll fuel)"
proof -
  have turn: "keeps (thread_agrees gs) (add_listener_turn os epoll u)" for u
    unfolding add_listener_turn_def socket_set_insert_def
    by (intro keeps_bind keeps_lift keeps_case_try_recv keeps_on_exit keeps_on_sockets keeps_self keeps_pure)
      (simp_all add: thread_agrees_def grant.answers grant.snoc)
  show ?thesis
    unfolding add_listener_def
    by (intro keeps_bind keeps_lift keeps_run_loop turn) (simp add: thread_agrees_def grant.answers)
qed

lemma handle_event_keeps:
  assumes T: "rust_layout (pthread_mutex gs)"
  shows "keeps (thread_agrees gs) (handle_event os gs ids epoll fuel ev :: (sync_state \<times> world, 'e, bool) io)"
  unfolding handle_event_def Let_def pass_result_to_requesting_thread_def socket_set_remove_def
    handle_request_def [symmetric]
  by (intro keeps_bind keeps_match keeps_lift keeps_on_sockets keeps_self keeps_if keeps_pure
      or_send_errors_keeps add_listener_keeps handle_request_keeps [OF T])
    (simp_all add: thread_agrees_def grant.answers grant.snoc grant.close_report_calls send_errors_keep)

lemma handle_events_keeps:
  assumes T: "rust_layout (pthread_mutex gs)"
  shows "keeps (thread_agrees gs) (handle_events os gs ids epoll fuel evs :: (sync_state \<times> world, 'e, bool) io)"
  by (induction evs) (simp_all add: keeps_pure keeps_bind handle_event_keeps [OF T])

lemma sync_turn_keeps:
  assumes T: "rust_layout (pthread_mutex gs)"
  shows "keeps (thread_agrees gs) (sync_turn os gs ids epoll fuel u :: (sync_state \<times> world, 'e, (unit, unit) turn) io)"
  unfolding sync_turn_def Let_def
  by (intro keeps_bind keeps_match keeps_self keeps_lift keeps_if keeps_pure handle_events_keeps [OF T])
    (simp_all add: thread_agrees_def grant.answers grant.close_report_calls)

lemma register_events_keeps:
  "keeps (\<lambda>w. grants_agree gs a (trace w)) (register_events os epoll evs)"
  by (induction evs) (simp_all add: keeps_pure keeps_bind grant.answers)

text \<open>So it holds for the whole thread, with the table of the allocator as it was at the end.\<close>

definition page_sizes_ok :: "os \<Rightarrow> bool" where
  "page_sizes_ok os \<longleftrightarrow> (\<forall>tr n. ask_sysconf os tr = Inr (Some n) \<longrightarrow> page_size_ok n)"

lemma shm_new_grants:
  assumes "shm_new os w = (Ok a, w')" and "grants gs (trace w) = []" and "page_sizes_ok os"
  shows "grants_agree gs a (trace w')"
proof -
  have "page_size_ok (page_size a) \<and> trace w' = trace w @ [SysconfPageSize (ask_sysconf os (trace w))]"
    using assms(1,3) by (auto simp: shm_new_def exec_defs sys_defs answer_def page_sizes_ok_def
        split: sum.splits option.splits if_splits)
  then show ?thesis
    using assms(2) shm_new_Ok [OF assms(1)] grants_quiet
    by (simp add: grants_agree_def holds_only_def shm_wf_def disjoint_resources_def)
qed

text \<open>The same without the allocator: some table of locations that are apart explains every answer.\<close>

definition answers_from :: "garnshared \<Rightarrow> (string \<rightharpoonup> client_resource_location) \<Rightarrow> event list \<Rightarrow> bool" where
  "answers_from gs tbl tr \<longleftrightarrow>
     (\<forall>n m l k. tbl n = Some l \<longrightarrow> tbl m = Some k \<longrightarrow> n \<noteq> m \<longrightarrow> locations_apart (pthread_mutex gs) l k)
     \<and> (\<forall>g \<in> set (grants gs tr). granted gs tbl g)"

interpretation answer: trace_invariant "answers_from gs tbl" quiet for gs tbl
  by unfold_locales (simp add: answers_from_def grants_quiet)

definition agreement :: "garnshared \<Rightarrow> world \<Rightarrow> bool" where
  "agreement gs w \<longleftrightarrow> (\<exists>tbl. answers_from gs tbl (trace w))"

lemma grants_agree_answers: "grants_agree gs a (trace w) \<Longrightarrow> agreement gs w"
  unfolding agreement_def answers_from_def grants_agree_def using location_table_apart by blast

lemma agreement_keeps: "(\<And>tbl. keeps (\<lambda>w. answers_from gs tbl (trace w)) m) \<Longrightarrow> keeps (agreement gs) m"
  unfolding keeps_def agreement_def by blast

lemma drops_keep:
  assumes "keeps (agreement gs) m"
  shows "keeps (agreement gs) (with_drop (drop_locals os gs order fds st) m)"
proof (rule keeps_with_drop [OF assms])
  show "keeps (agreement gs) (drop_locals os gs order fds st :: ('c, unit) routine)"
    by (rule agreement_keeps, rule answer.drop_calls) simp_all
qed (simp add: agreement_def)

lemma report_keeps:
  "keeps (agreement gs) (report_boxed_error_and_close os ids e :: ('e, unit) routine)"
  by (rule agreement_keeps, rule answer.close_report_calls) simp_all

lemma close_agreement: "agreement gs w \<Longrightarrow> agreement gs (close_fd fd w)"
  unfolding agreement_def by (elim exE, rule exI, rule answer.close) simp_all

lemma sync_loop_agrees:
  assumes T: "rust_layout (pthread_mutex gs)" and agree: "grants_agree gs (shm st) (trace w)"
    and run: "(sync_loop os gs order fds ids epoll fuel st w :: ('e, unit) exec \<times> world) = (r, w')"
  shows "agreement gs w'"
proof -
  obtain x st' v where loop: "(run_loop fuel (sync_turn os gs ids epoll fuel) () (st, w)
      :: ('e, unit) exec \<times> sync_state \<times> world) = (x, st', v)"
    by (cases "run_loop fuel (sync_turn os gs ids epoll fuel) () (st, w) :: ('e, unit) exec \<times> sync_state \<times> world")
  have "thread_agrees gs (st', v)"
    using keepsD [OF keeps_run_loop [OF sync_turn_keeps [OF T]] _ loop] agree by (simp add: thread_agrees_def)
  then have v: "agreement gs v" by (auto simp: thread_agrees_def intro: grants_agree_answers)
  have "keeps (agreement gs) (finally_drop (close_fd epoll) (Pair x :: ('e, unit) routine))"
    by (rule keeps_finally) (simp_all add: keeps_def close_agreement)
  from keepsD [OF drops_keep [OF this] v] show ?thesis
    using run loop by (simp add: sync_loop_def)
qed

lemma thread_agreement:
  assumes T: "rust_layout (pthread_mutex gs)" and page: "page_sizes_ok os" and w: "trace w = []"
    and run: "(environment_synchronization_thread_main os gs order fds ids fuel w :: ('e, unit) exec \<times> world) = (r, w')"
  shows "agreement gs w'"
proof -
  have none: "grants gs [] = []" by (simp add: grants_def noted_def)
  obtain x v where new: "shm_new os w = (x, v)" by (cases "shm_new os w")
  have "trace v = trace w @ [SysconfPageSize (ask_sysconf os (trace w))]"
    using new by (auto simp: shm_new_def exec_defs sys_defs answer_def split: sum.splits option.splits if_splits)
  then have v: "agreement gs v"
    using w none grants_quiet [of _ gs "[]"] by (auto simp: agreement_def answers_from_def)
  note main = environment_synchronization_thread_main_def match_io_def Let_def
  note report = keepsD [OF report_keeps] keepsD [OF drops_keep [OF report_keeps]]
    keepsD [OF drops_keep [OF keeps_finally [OF report_keeps close_agreement]]]
  show ?thesis
  proof (cases x)
    case (Ok a)
    let ?st = "\<lparr>sockets = socket_set_new, shm = a\<rparr>"
    have a: "grants_agree gs a (trace v)"
      using shm_new_grants [OF new [unfolded Ok] _ page] w none by simp
    obtain y u where ep: "sys_fd os EpollCreate v = (y, u)" by (cases "sys_fd os EpollCreate v")
    have u: "grants_agree gs a (trace u)"
      using keepsD [OF grant.answers(1) a ep] by simp
    note u' = grants_agree_answers [OF u]
    show ?thesis
    proof (cases y)
      case epoll: (Ok epoll)
      obtain z t where reg: "register_events os epoll [add_listener_event ids, drop_event ids] u = (z, t)"
        by (cases "register_events os epoll [add_listener_event ids, drop_event ids] u")
      have t: "grants_agree gs a (trace t)"
        using keepsD [OF register_events_keeps u reg] .
      show ?thesis
        using run new Ok ep epoll reg sync_loop_agrees [OF T, of ?st] t grants_agree_answers [OF t]
        by (cases z) (auto simp: main intro: report)
    qed (use run new Ok ep u' in \<open>auto simp: main intro: report\<close>)
  qed (use run new v in \<open>auto simp: main intro: report\<close>)
qed

section \<open>A run to apply the theorems to\<close>

text \<open>
  Two clients, 50 and 51, are handed over and ask for the same mutex; then both leave. The
  kernel's answers depend on how often it was asked.
\<close>

fun waits :: "event list \<Rightarrow> nat" where
  "waits [] = 0"
| "waits (EpollWait _ _ _ # es) = Suc (waits es)"
| "waits (_ # es) = waits es"

fun taken :: "event list \<Rightarrow> nat" where
  "taken [] = 0"
| "taken (RecvListener _ # es) = Suc (taken es)"
| "taken (_ # es) = taken es"

definition demo_sync_os :: os where
  "demo_sync_os = calm_os\<lparr>
     ask_epoll := (\<lambda>tr fd n.
       case waits tr of
         0 \<Rightarrow> Inr [EpollEvent {EPOLLIN} (epoll_data 10)]
       | Suc 0 \<Rightarrow> Inr [EpollEvent {EPOLLIN} (epoll_data 50), EpollEvent {EPOLLIN} (epoll_data 51)]
       | _ \<Rightarrow> Inr [EpollEvent {EPOLLIN, EPOLLRDHUP} (epoll_data 51), EpollEvent {EPOLLRDHUP} (epoll_data 50)]),
     ask_listener := (\<lambda>tr. let fd = (if taken tr = 0 then 50 else 51)
       in if taken tr < 2 \<and> fd \<notin> owned tr then Received fd else Empty),
     ask_bytes := (\<lambda>tr fd n. Inr (as_bytes ''Ma''))\<rparr>"

definition demo_ids :: sync_ids where
  "demo_ids = \<lparr>env_name = ''e'', close_env_event = 12, add_listener_event = 10, drop_event = 11\<rparr>"

definition demo_fds :: fd_order where
  "demo_fds S = sorted_list_of_set S"

definition demo_run :: "(unit, unit) exec \<times> world" where
  "demo_run = environment_synchronization_thread_main demo_sync_os demo_gs demo_order demo_fds demo_ids 5 start_world"

lemma demo_pages: "page_sizes_ok demo_sync_os"
  by (simp add: page_sizes_ok_def demo_sync_os_def calm_os_def demo_page_size)

lemma demo_gs_layout: "rust_layout (pthread_mutex demo_gs)"
  unfolding rust_layout_def by (rule exI [of _ 3]) (simp add: demo_gs_def)

lemma demo_grants: "grants demo_gs (trace (snd demo_run))
    = [(Some (50, ''a''), 50, as_bytes ''ok'', 114), (Some (51, ''a''), 51, as_bytes ''ok'', 114)]"
  by code_simp

section \<open>Properties\<close>

text \<open>
  C17: all processes agree on where a mutex is. Over the whole life of an environment's thread,
  whatever the kernel, the clients and the other threads do: there is one table of locations,
  with no two mutexes sharing a byte, such that every answer with a descriptor went to the
  process that had just asked, and carries the message and the descriptor of the location the
  table has for the name it asked for. So the same name gives the same place every time.
\<close>

theorem mutex_answers_agree:
  assumes "environment_synchronization_thread_main os gs order fds ids fuel w = (r, w')"
    and "trace w = []" and "rust_layout (pthread_mutex gs)" and "page_sizes_ok os"
  shows "\<exists>tbl.
    (\<forall>n m l k. tbl n = Some l \<longrightarrow> tbl m = Some k \<longrightarrow> n \<noteq> m \<longrightarrow> loc_page l = loc_page k \<longrightarrow>
       location_bytes (pthread_mutex gs) l \<inter> location_bytes (pthread_mutex gs) k = {})
    \<and> (\<forall>(req, fd, msg, mfd) \<in> set (grants gs (trace w')).
         \<exists>n l s. req = Some (fd, n) \<and> tbl n = Some l
           \<and> serialize_environment gs (OpenMutexOk (of_nat (loc_page l)) (loc_offset l)) = Inr s
           \<and> msg = as_bytes s \<and> mfd = loc_fd l)"
  using thread_agreement [OF assms(3,4,2,1)]
  unfolding agreement_def answers_from_def granted_def locations_apart_def by blast

theorem mutex_answers_agree_witness:
  "\<exists>(l :: client_resource_location) s. serialize_environment demo_gs (OpenMutexOk (of_nat (loc_page l)) (loc_offset l)) = Inr s
     \<and> loc_fd l = 114 \<and> as_bytes s = as_bytes ''ok''
     \<and> grants demo_gs (trace (snd demo_run))
        = [(Some (50, ''a''), 50, as_bytes s, 114), (Some (51, ''a''), 51, as_bytes s, 114)]"
proof -
  have run: "environment_synchronization_thread_main demo_sync_os demo_gs demo_order demo_fds demo_ids 5 start_world
      = (fst demo_run, snd demo_run)"
    by (simp add: demo_run_def)
  have "trace start_world = []" by (simp add: start_world_def)
  from mutex_answers_agree [OF run this demo_gs_layout demo_pages] obtain tbl where tbl:
    "\<forall>(req, fd, msg, mfd) \<in> set (grants demo_gs (trace (snd demo_run))).
       \<exists>n (l :: client_resource_location) s. req = Some (fd, n) \<and> tbl n = Some l
         \<and> serialize_environment demo_gs (OpenMutexOk (of_nat (loc_page l)) (loc_offset l)) = Inr s
         \<and> msg = as_bytes s \<and> mfd = loc_fd l"
    by blast
  have "(Some (50, ''a''), 50, as_bytes ''ok'', 114) \<in> set (grants demo_gs (trace (snd demo_run)))"
    by (simp add: demo_grants)
  from bspec [OF tbl this] obtain l :: client_resource_location and s where
    "serialize_environment demo_gs (OpenMutexOk (of_nat (loc_page l)) (loc_offset l)) = Inr s"
    "as_bytes ''ok'' = as_bytes s" "loc_fd l = 114"
    by auto
  then show ?thesis
    unfolding demo_grants by (intro exI [of _ l] exI [of _ s]) simp
qed

text \<open>
  C33: a name is never ambiguous. In any history of open requests, served or failed, from a
  well-formed allocator, two successful opens of one name return the same location, and of
  different names locations that share no byte.
\<close>

theorem opens_agree:
  assumes "mutexes.history gs a h a'" and "rust_layout (pthread_mutex gs)"
    and "holds_only (pthread_mutex gs) a" and "(n, l) \<in> set h" and "(m, k) \<in> set h"
  shows "if n = m then l = k else locations_apart (pthread_mutex gs) l k"
  using mutexes.history_agrees [OF assms(1) _ assms(4,5)] assms(2,3) by blast

definition demo_open :: "string \<Rightarrow> shm_allocator
    \<Rightarrow> (detailed_error list, client_resource_location) exec \<times> shm_allocator \<times> world" where
  "demo_open n a = open_or_create calm_os demo_gs n 50 (a, start_world)"

definition demo_opened :: "string \<Rightarrow> shm_allocator \<Rightarrow> shm_allocator" where
  "demo_opened n a = fst (snd (demo_open n a))"

lemma demo_opens: "fst (demo_open n a) = Ok l \<Longrightarrow> opens_mutex demo_gs n a (Some l) (demo_opened n a)"
  unfolding opens_mutex_def demo_opened_def demo_open_def
  by (intro exI [of _ calm_os] exI [of _ 50] exI [of _ start_world] exI [of _ "Ok l"]
      exI [of _ "snd (snd (demo_open n a))"]) (simp add: demo_open_def prod_eq_iff)

theorem opens_agree_witness:
  "\<exists>l k. fst (demo_open ''a'' demo_alloc0) = Ok l
     \<and> fst (demo_open ''b'' (demo_opened ''a'' demo_alloc0)) = Ok k
     \<and> locations_apart (pthread_mutex demo_gs) l k"
proof -
  define l :: client_resource_location where "l = \<lparr>loc_page = 0, loc_offset = 0, loc_fd = 100\<rparr>"
  define k :: client_resource_location where "k = \<lparr>loc_page = 0, loc_offset = 40, loc_fd = 100\<rparr>"
  have runs: "fst (demo_open ''a'' demo_alloc0) = Ok l"
    "fst (demo_open ''b'' (demo_opened ''a'' demo_alloc0)) = Ok k"
    unfolding l_def k_def by code_simp+
  have h: "mutexes.history demo_gs demo_alloc0 [(''a'', l), (''b'', k)]
      (demo_opened ''b'' (demo_opened ''a'' demo_alloc0))"
    using mutexes.history.opened [OF mutexes.history.opened [OF mutexes.history.empty demo_opens [OF runs(1)]]
        demo_opens [OF runs(2)]] by simp
  have "holds_only (pthread_mutex demo_gs) demo_alloc0"
    using demo_page_size by (simp add: holds_only_def shm_wf_def demo_alloc0_def disjoint_resources_def)
  from opens_agree [OF h demo_gs_layout this, of "''a''" l "''b''" k]
  have "locations_apart (pthread_mutex demo_gs) l k" by simp
  with runs show ?thesis by blast
qed

end
