(* ===== verification/Env_Ownership.thy ===== *)
theory Env_Ownership imports Env_Sync begin

text \<open>
  What an environment's thread owes to the rest of the daemon: it ends once and says so once,
  it answers every hand-over of a client once, and it gives back every descriptor it was given
  or made.
\<close>

section \<open>No error gets lost\<close>

lemma no_err_parts [no_err_rules]:
  "no_err (socket_set_insert fd)" "no_err (socket_set_remove fd)"
  "(\<And>S. no_err m) \<Longrightarrow> no_err (on_sockets m)"
  "no_err (pass_result_to_requesting_thread os k)"
  "no_err (report_boxed_error_and_close os ids e)"
  "(\<And>a. no_err (f a)) \<Longrightarrow> no_err (or_send_errors os q b f)"
  unfolding socket_set_insert_def socket_set_remove_def pass_result_to_requesting_thread_def
    report_boxed_error_and_close_def or_send_errors_def Let_def
  by (intro no_err_rules | simp add: no_err_def on_sockets_def split: prod.splits; metis fst_conv)+

lemma no_err_handle_event [no_err_rules]: "no_err (handle_event os gs ids epoll fuel ev)"
  unfolding handle_event_def Let_def
  by (intro no_err_rules) (auto intro!: no_err_rules split: environment_request.split)

lemma no_err_sync_turn [no_err_rules]: "no_err (sync_turn os gs ids epoll fuel u)"
proof -
  have "no_err (handle_events os gs ids epoll fuel evs)" for evs
    by (induction evs) (auto intro!: no_err_rules)
  then show ?thesis
    unfolding sync_turn_def Let_def by (intro no_err_rules)
qed

section \<open>The end of a thread\<close>

text \<open>The thread either is told to end or announces its end; both leave one call in the trace.\<close>

fun ending :: "sync_ids \<Rightarrow> event \<Rightarrow> bool" where
  "ending ids (BoolAns (SendClosedName _) _) = True"
| "ending ids (NumAns (EventFdRead fd) _) = (fd = drop_event ids)"
| "ending ids _ = False"

definition endings :: "sync_ids \<Rightarrow> event list \<Rightarrow> nat" where
  "endings ids tr = length (filter (ending ids) tr)"

lemma endings_simps [simp]:
  "endings ids [] = 0"
  "endings ids (e # es) = (if ending ids e then 1 else 0) + endings ids es"
  "endings ids (xs @ ys) = endings ids xs + endings ids ys"
  by (simp_all add: endings_def)

interpretation ends: trace_invariant "\<lambda>tr. endings ids tr = k" "\<lambda>e. \<not> ending ids e" for ids k
  by unfold_locales simp

lemma announce_ends:
  "announce_env_close os ids w = (r, w') \<Longrightarrow> endings ids (trace w') = Suc (endings ids (trace w))"
  by (auto simp: announce_env_close_def exec_defs sys_defs answer_def endings_def split: sum.splits if_splits)

lemma reports_end:
  "keeps (\<lambda>w. endings ids (trace w) = k) (send_all_errors os es :: ('e, unit) routine)"
  "keeps (\<lambda>w. endings ids (trace w) = k) (send_error os e :: ('e, unit) routine)"
  by (rule ends.reports; simp)+

lemma report_close_ends:
  assumes "report_boxed_error_and_close os ids e w = (r, w')"
  shows "endings ids (trace w') = Suc (endings ids (trace w))"
proof -
  let ?b = "ask_bool os (trace w) (SendToMain e)"
  let ?w = "log_event (BoolAns (SendToMain e) ?b) w"
  obtain x v where a: "announce_env_close os ids ?w = (x, v)"
    by (cases "announce_env_close os ids ?w")
  have v: "endings ids (trace v) = Suc (endings ids (trace w))"
    using announce_ends [OF a] by simp
  show ?thesis
    using assms a v
    by (cases x) (auto simp: report_boxed_error_and_close_def exec_defs sys_call_defs Let_def
        dest: keepsD [OF reports_end(1), OF v])
qed

text \<open>What a request or a hand-over calls never ends the thread.\<close>

abbreviation ends_at :: "sync_ids \<Rightarrow> nat \<Rightarrow> sync_state \<times> world \<Rightarrow> bool" where
  "ends_at ids k sw \<equiv> endings ids (trace (snd sw)) = k"

lemma handle_request_ends:
  "keeps (ends_at ids k) (handle_request os gs fd :: (sync_state \<times> world, 'e, bool) io)"
proof -
  have opens: "keeps (\<lambda>aw. endings ids (trace (snd aw)) = k) (handle_open_mutex os gs n fd)" for n
    unfolding handle_open_mutex_def open_or_create_def Let_def
    by (intro keeps_bind keeps_self keeps_unwrap_or_report keeps_lift keeps_case_option keeps_pure keeps_pure_io
        keeps_map_err ends.find_resource_keeps ends.allocator_calls)
      (simp_all add: init_mutex_def ends.find_resource_keeps ends.answers keeps_pure_io)
  have rcv: "keeps (\<lambda>w. endings ids (trace w) = k) (receive_and_parse_request os gs fd)"
    unfolding receive_and_parse_request_def by (rule ends.requests) simp_all
  show ?thesis
    unfolding handle_request_def
    by (intro or_send_errors_keeps keeps_lift keeps_case_request keeps_on_shm keeps_pure)
      (simp_all add: opens rcv reports_end)
qed

lemma add_listener_ends:
  assumes "add_listener_event ids \<noteq> drop_event ids"
  shows "keeps (ends_at ids k) (pass_result_to_requesting_thread os (add_listener os ids epoll fuel)
    :: (sync_state \<times> world, 'e, unit) io)"
proof -
  have turn: "keeps (ends_at ids k) (add_listener_turn os epoll u)" for u
    unfolding add_listener_turn_def socket_set_insert_def
    by (intro keeps_bind keeps_lift keeps_case_try_recv keeps_on_exit keeps_on_sockets keeps_self keeps_pure)
      (simp_all add: ends.answers)
  show ?thesis
    unfolding add_listener_def pass_result_to_requesting_thread_def Let_def
    by (intro keeps_match keeps_bind keeps_lift keeps_run_loop keeps_if keeps_pure turn)
      (simp_all add: assms ends.answers reports_end)
qed

lemma or_send_errors_True:
  assumes "or_send_errors os m False f sw = (Ok True, sw')"
  shows "\<exists>a s v. f a (s, v) = (Ok True, sw')"
proof -
  obtain x s v where m: "m sw = (x, s, v)" by (cases "m sw")
  show ?thesis
    using assms m by (cases x) (auto simp: or_send_errors_def match_io_def bind_io_def ret_def
        split: prod.splits exec.splits)
qed

lemma handle_request_goes_on:
  "handle_request os gs fd sw \<noteq> (Ok True :: ('e, bool) exec, sw')"
proof
  assume "handle_request os gs fd sw = (Ok True :: ('e, bool) exec, sw')"
  from or_send_errors_True [OF this [unfolded handle_request_def]] obtain req s v where
    "(case req of OpenMutex n \<Rightarrow> or_send_errors os (on_shm (handle_open_mutex os gs n fd)) False (\<lambda>_. ret False))
        (s, v) = (Ok True :: ('e, bool) exec, sw')"
    by blast
  then obtain n where
    "or_send_errors os (on_shm (handle_open_mutex os gs n fd)) False (\<lambda>_. ret False) (s, v) = (Ok True :: ('e, bool) exec, sw')"
    by (cases req) simp
  from or_send_errors_True [OF this] show False by (simp add: ret_def)
qed

text \<open>So a turn ends the loop exactly when it made the call that ends the thread.\<close>

lemma handle_event_ends:
  assumes run: "(handle_event os gs ids epoll fuel ev :: (sync_state \<times> world, 'e, bool) io) (st, w) = (r, st', w')"
    and ne: "add_listener_event ids \<noteq> drop_event ids"
  shows "endings ids (trace w') = endings ids (trace w) + (if r = Ok True then 1 else 0)
    \<or> r \<noteq> Ok True \<and> r \<noteq> Ok False \<and> endings ids (trace w') = Suc (endings ids (trace w))"
proof -
  consider (add) "ev_data ev = epoll_data (add_listener_event ids)"
    | (drop) "ev_data ev = epoll_data (drop_event ids)" "ev_data ev \<noteq> epoll_data (add_listener_event ids)"
    | (left) "ev_data ev \<noteq> epoll_data (add_listener_event ids)" "ev_data ev \<noteq> epoll_data (drop_event ids)"
        "EPOLLRDHUP \<in> ev_flags ev"
    | (asked) "ev_data ev \<noteq> epoll_data (add_listener_event ids)" "ev_data ev \<noteq> epoll_data (drop_event ids)"
        "EPOLLRDHUP \<notin> ev_flags ev"
    by blast
  then show ?thesis
  proof cases
    case add
    obtain x s v where p: "(pass_result_to_requesting_thread os (add_listener os ids epoll fuel)
        :: (sync_state \<times> world, 'e, unit) io) (st, w) = (x, s, v)"
      by (cases "(pass_result_to_requesting_thread os (add_listener os ids epoll fuel)
        :: (sync_state \<times> world, 'e, unit) io) (st, w)")
    have "endings ids (trace v) = endings ids (trace w)"
      using keepsD [OF add_listener_ends [OF ne] _ p] by simp
    with run add p show ?thesis
      by (cases x) (auto simp: handle_event_def bind_io_def ret_def)
  next
    case drop
    with run show ?thesis
      by (auto simp: handle_event_def exec_defs sys_call_defs answer_def send_error_def split: sum.splits if_splits)
  next
    case left
    obtain x S v where rm: "(socket_set_remove (data_fd (ev_data ev)) :: (socket_set \<times> world, 'e, bool) io)
        (sockets st, w) = (x, S, v)"
      by (cases "(socket_set_remove (data_fd (ev_data ev)) :: (socket_set \<times> world, 'e, bool) io) (sockets st, w)")
    have v: "endings ids (trace v) = endings ids (trace w)" "\<exists>b. x = Ok b"
      using rm by (auto simp: socket_set_remove_def exec_defs sys_call_defs split: if_splits)
    obtain y u where a: "announce_env_close os ids v = (y, u)" by (cases "announce_env_close os ids v")
    have u: "endings ids (trace u) = Suc (endings ids (trace w))"
      using announce_ends [OF a] v by simp
    show ?thesis
      using run left rm v u a
      by (cases y) (auto simp: handle_event_def on_sockets_def or_send_errors_def exec_defs Let_def
          split: if_splits prod.splits exec.splits dest: keepsD [OF reports_end(1), OF u])
  next
    case asked
    then have "handle_event os gs ids epoll fuel ev = (handle_request os gs (data_fd (ev_data ev))
        :: (sync_state \<times> world, 'e, bool) io)"
      by (simp add: handle_event_def handle_request_def Let_def)
    then have req: "(handle_request os gs (data_fd (ev_data ev)) :: (sync_state \<times> world, 'e, bool) io) (st, w)
        = (r, st', w')"
      using run by simp
    have "r \<noteq> Ok True"
      using req handle_request_goes_on [of os gs "data_fd (ev_data ev)" "(st, w)"] by auto
    moreover have "endings ids (trace w') = endings ids (trace w)"
      using keepsD [OF handle_request_ends _ req] by simp
    ultimately show ?thesis by simp
  qed
qed

lemma handle_events_ends:
  assumes "(handle_events os gs ids epoll fuel evs :: (sync_state \<times> world, 'e, bool) io) (st, w) = (r, st', w')"
    and "add_listener_event ids \<noteq> drop_event ids"
  shows "endings ids (trace w') = endings ids (trace w) + (if r = Ok True then 1 else 0)
    \<or> r \<noteq> Ok True \<and> r \<noteq> Ok False \<and> endings ids (trace w') = Suc (endings ids (trace w))"
  using assms(1)
proof (induction evs arbitrary: st w)
  case Nil
  then show ?case by (auto simp: ret_def)
next
  case (Cons ev evs)
  obtain x s v where h: "(handle_event os gs ids epoll fuel ev :: (sync_state \<times> world, 'e, bool) io) (st, w) = (x, s, v)"
    by (cases "(handle_event os gs ids epoll fuel ev :: (sync_state \<times> world, 'e, bool) io) (st, w)")
  note step = handle_event_ends [OF h assms(2)]
  show ?case
  proof (cases "x = Ok False")
    case True
    with Cons.prems h have "handle_events os gs ids epoll fuel evs (s, v) = (r, st', w')"
      by (simp add: bind_io_def)
    from Cons.IH [OF this] step True show ?thesis by auto
  next
    case False
    with Cons.prems h step show ?thesis
      by (cases x) (auto simp: bind_io_def ret_def split: if_splits)
  qed
qed

lemma sync_turn_ends:
  assumes run: "(sync_turn os gs ids epoll fuel u :: (sync_state \<times> world, 'e, (unit, unit) turn) io) (st, w) = (r, st', w')"
    and ne: "add_listener_event ids \<noteq> drop_event ids"
  shows "endings ids (trace w') = endings ids (trace w) + (if r = Ok (Stop ()) then 1 else 0)
    \<or> r \<noteq> Ok (Stop ()) \<and> r \<noteq> Ok (Next ()) \<and> endings ids (trace w') = Suc (endings ids (trace w))"
proof -
  let ?n = "socket_set_len (sockets st) + 2"
  define evs where "evs = ask_epoll os (trace w) epoll ?n"
  let ?w = "log_event (EpollWait epoll ?n evs) w"
  show ?thesis
  proof (cases evs)
    case (Inl e)
    obtain x v where rep: "report_boxed_error_and_close os ids e ?w = (x :: ('e, unit) exec, v)"
      by (cases "report_boxed_error_and_close os ids e ?w :: ('e, unit) exec \<times> world")
    have "endings ids (trace v) = Suc (endings ids (trace w))"
      using report_close_ends [OF rep] by simp
    with run Inl rep show ?thesis
      by (cases x) (auto simp: sync_turn_def exec_defs sys_call_defs evs_def [symmetric])
  next
    case (Inr es)
    obtain x s v where h: "(handle_events os gs ids epoll fuel es :: (sync_state \<times> world, 'e, bool) io) (st, ?w) = (x, s, v)"
      by (cases "(handle_events os gs ids epoll fuel es :: (sync_state \<times> world, 'e, bool) io) (st, ?w)")
    from handle_events_ends [OF h ne] run Inr h show ?thesis
      by (cases x) (auto simp: sync_turn_def exec_defs sys_call_defs evs_def [symmetric] split: if_splits)
  qed
qed

text \<open>The loop through the contract of \<open>run_loop\<close>: one ending when it returns, at most one otherwise.\<close>

definition not_ended :: "sync_ids \<Rightarrow> unit \<Rightarrow> sync_state \<times> world \<Rightarrow> bool" where
  "not_ended ids u sw \<longleftrightarrow> add_listener_event ids \<noteq> drop_event ids \<and> endings ids (trace (snd sw)) = 0"

definition ended_once :: "sync_ids \<Rightarrow> ('e, unit) exec \<Rightarrow> sync_state \<times> world \<Rightarrow> bool" where
  "ended_once ids r sw \<longleftrightarrow>
     endings ids (trace (snd sw)) \<le> 1 \<and> (r = Ok () \<longrightarrow> endings ids (trace (snd sw)) = 1)"

interpretation sync: loop_invariant
  "sync_turn os gs ids epoll fuel :: unit \<Rightarrow> (sync_state \<times> world, 'e, (unit, unit) turn) io"
  "not_ended ids" "ended_once ids" for os gs ids epoll fuel
  by unfold_locales
    (auto simp: not_ended_def ended_once_def dest!: sync_turn_ends)

lemma drop_locals_ends:
  "keeps (\<lambda>w. endings ids (trace w) = k) (drop_locals os gs order fds st :: ('e, unit) routine)"
  by (rule ends.drop_calls) simp_all

lemma with_drop_ends:
  assumes "with_drop (drop_locals os gs order fds st) m w = (r :: ('e, unit) exec, w')"
    and "m w = (x, v)"
  shows "endings ids (trace w') = endings ids (trace v) \<and> (r = Ok () \<longrightarrow> x = Ok ())"
proof -
  let ?d = "drop_locals os gs order fds st :: ('e, unit) routine"
  obtain y u z t where d: "?d v = (y, u)" "?d (v\<lparr>panicking := True\<rparr>) = (z, t)"
    by (cases "?d v", cases "?d (v\<lparr>panicking := True\<rparr>)")
  have "endings ids (trace u) = endings ids (trace v)" "endings ids (trace t) = endings ids (trace v)"
    using keepsD [OF drop_locals_ends _ d(1)] keepsD [OF drop_locals_ends _ d(2)] by simp_all
  with assms d show ?thesis
    by (cases x; cases y; cases z) (auto simp: with_drop_def exec_defs)
qed

lemma sync_loop_ends:
  assumes run: "(sync_loop os gs order fds ids epoll fuel st w :: ('e, unit) exec \<times> world) = (r, w')"
    and ne: "add_listener_event ids \<noteq> drop_event ids" and w: "endings ids (trace w) = 0"
    and r: "r \<noteq> NoReturn"
  shows "endings ids (trace w') \<le> 1 \<and> (r = Ok () \<longrightarrow> endings ids (trace w') = 1)"
proof -
  obtain x st' v where loop: "(run_loop fuel (sync_turn os gs ids epoll fuel) () (st, w)
      :: ('e, unit) exec \<times> sync_state \<times> world) = (x, st', v)"
    by (cases "run_loop fuel (sync_turn os gs ids epoll fuel) () (st, w) :: ('e, unit) exec \<times> sync_state \<times> world")
  have go: "with_drop (drop_locals os gs order fds st') (finally_drop (close_fd epoll) (Pair x)) v = (r, w')"
    using run loop by (simp add: sync_loop_def)
  then have "x \<noteq> NoReturn"
    using r by (auto simp: with_drop_def finally_drop_def)
  then have once: "ended_once ids x (st', v)"
    using sync.run_post [OF _ loop] ne w by (simp add: not_ended_def)
  have "finally_drop (close_fd epoll) (Pair x) v = (x, (if \<exists>c. x = Exit c then v else close_fd epoll v))"
    using \<open>x \<noteq> NoReturn\<close> by (cases x) (auto simp: finally_drop_def)
  from with_drop_ends [OF go this, of ids] once show ?thesis
    by (auto simp: ended_once_def)
qed

text \<open>
  C19: a thread ends once. If the thread ends, it has either been told to by its owner (it read
  \<open>drop_event\<close>) or has announced its end to the owner, exactly one of the two and once; a thread
  that panics has done so at most once. So its name is never in the owner's channel twice.
\<close>

theorem thread_ends_once:
  assumes run: "environment_synchronization_thread_main os gs order fds ids fuel w = (r :: ('e, unit) exec, w')"
    and "trace w = []" and ne: "add_listener_event ids \<noteq> drop_event ids" and "r \<noteq> NoReturn"
  shows "endings ids (trace w') \<le> 1 \<and> (r = Ok () \<longrightarrow> endings ids (trace w') = 1)"
proof -
  note main = environment_synchronization_thread_main_def match_io_def Let_def
  note report = report_close_ends
  obtain x v where new: "shm_new os w = (x, v)" by (cases "shm_new os w")
  have v: "endings ids (trace v) = 0"
    using new \<open>trace w = []\<close>
    by (auto simp: shm_new_def exec_defs sys_call_defs answer_def split: sum.splits option.splits if_splits)
  show ?thesis
  proof (cases x)
    case (Ok a)
    let ?st = "\<lparr>sockets = socket_set_new, shm = a\<rparr>"
    obtain y u where ep: "sys_fd os EpollCreate v = (y, u)" by (cases "sys_fd os EpollCreate v")
    have u: "endings ids (trace u) = 0" using keepsD [OF ends.answers(1) v ep] by simp
    show ?thesis
    proof (cases y)
      case epoll: (Ok epoll)
      obtain z t where reg: "register_events os epoll [add_listener_event ids, drop_event ids] u = (z, t)"
        by (cases "register_events os epoll [add_listener_event ids, drop_event ids] u")
      have t: "endings ids (trace t) = 0"
        using reg u by (auto simp: exec_defs sys_call_defs answer_def split: sum.splits)
      show ?thesis
      proof (cases z)
        case (Ok z')
        with run new \<open>x = Ok a\<close> ep epoll reg have "sync_loop os gs order fds ids epoll fuel ?st t = (r, w')"
          by (simp add: main)
        from sync_loop_ends [OF this ne t] \<open>r \<noteq> NoReturn\<close> show ?thesis by blast
      next
        case (Err e)
        obtain q p where rep: "report_boxed_error_and_close os ids e t = (q :: ('e, unit) exec, p)"
          by (cases "report_boxed_error_and_close os ids e t :: ('e, unit) exec \<times> world")
        have "endings ids (trace p) = 1" using report [OF rep] t by simp
        moreover obtain q' p' where "finally_drop (close_fd epoll) (report_boxed_error_and_close os ids e) t
            = (q' :: ('e, unit) exec, p')" "endings ids (trace p') = endings ids (trace p)"
          using rep by (cases q) (auto simp: finally_drop_def)
        moreover have "with_drop (drop_locals os gs order fds ?st)
            (finally_drop (close_fd epoll) (report_boxed_error_and_close os ids e)) t = (r, w')"
          using run new \<open>x = Ok a\<close> ep epoll reg Err by (simp add: main)
        ultimately show ?thesis
          using with_drop_ends [where m = "finally_drop (close_fd epoll) (report_boxed_error_and_close os ids e)"]
          by fastforce
      qed (use run new \<open>x = Ok a\<close> ep epoll reg t in \<open>auto simp: main\<close>)
    next
      case (Err e)
      obtain q p where rep: "report_boxed_error_and_close os ids e u = (q :: ('e, unit) exec, p)"
        by (cases "report_boxed_error_and_close os ids e u :: ('e, unit) exec \<times> world")
      have "with_drop (drop_locals os gs order fds ?st) (report_boxed_error_and_close os ids e) u = (r, w')"
        using run new \<open>x = Ok a\<close> ep Err by (simp add: main)
      from with_drop_ends [OF this rep, of ids] report [OF rep] u show ?thesis by simp
    qed (use run new \<open>x = Ok a\<close> ep u in \<open>auto simp: main\<close>)
  next
    case (Err e)
    with run new v show ?thesis by (auto simp: main dest: report)
  qed (use run new v in \<open>auto simp: main\<close>)
qed

theorem thread_ends_once_witness:
  "fst demo_run = Ok () \<and> endings demo_ids (trace (snd demo_run)) = 1"
proof -
  have run: "environment_synchronization_thread_main demo_sync_os demo_gs demo_order demo_fds demo_ids 5 start_world
      = (fst demo_run, snd demo_run)"
    by (simp add: demo_run_def)
  have ok: "fst demo_run = Ok ()" by code_simp
  have "endings demo_ids (trace (snd demo_run)) = 1"
    using thread_ends_once [OF run] ok by (simp add: start_world_def demo_ids_def)
  with ok show ?thesis by blast
qed

section \<open>The descriptors of a thread\<close>

fun moves_fd :: "event \<Rightarrow> bool" where
  "moves_fd (FdAns _ (Inr _)) = True"
| "moves_fd (RecvListener (Received _)) = True"
| "moves_fd (BoolAns (SendListener _ _) _) = True"
| "moves_fd (Did (Close _)) = True"
| "moves_fd (Spawn (WelcomeThread _ _ _) (Inr _)) = True"
| "moves_fd _ = False"

lemma own_stays [simp]: "\<not> moves_fd e \<Longrightarrow> own e S = S"
  by (induction e S rule: own.induct) auto

lemma closes_stays: "\<not> moves_fd e \<Longrightarrow> closes_from S [e]"
  by (cases e rule: moves_fd.cases) (auto split: event.split act.split)

definition owns :: "raw_fd set \<Rightarrow> event list \<Rightarrow> bool" where
  "owns S tr \<longleftrightarrow> owned tr = S \<and> closes_only_owned tr"

lemma owns_log: "owns S tr \<Longrightarrow> \<not> moves_fd e \<Longrightarrow> owns S (tr @ [e])"
  using closes_stays [of e S] by (simp add: owns_def trace_simps)

lemma owns_new: "owns S tr \<Longrightarrow> owns (insert fd S) (tr @ [FdAns c (Inr fd)])"
  "owns S tr \<Longrightarrow> owns (insert fd S) (tr @ [RecvListener (Received fd)])"
  by (simp_all add: owns_def trace_simps)

lemma owns_close: "owns S tr \<Longrightarrow> fd \<in> S \<Longrightarrow> owns (S - {fd}) (tr @ [Did (Close fd)])"
  by (simp add: owns_def trace_simps)

lemma owns_closes:
  "owns S (trace w) \<Longrightarrow> set fds \<subseteq> S \<Longrightarrow> distinct fds \<Longrightarrow> owns (S - set fds) (trace (fold close_fd fds w))"
proof (induction fds arbitrary: S w)
  case (Cons fd fds)
  from Cons.prems have "owns (S - {fd}) (trace (close_fd fd w))" by (simp add: owns_close)
  from Cons.IH [OF this] Cons.prems have "owns (S - {fd} - set fds) (trace (fold close_fd fds (close_fd fd w)))"
    by auto
  moreover have "S - {fd} - set fds = S - set (fd # fds)" by auto
  ultimately show ?case by simp
qed simp

interpretation fds: trace_invariant "owns S" "\<lambda>e. \<not> moves_fd e" for S
  by unfold_locales (rule owns_log)

text \<open>
  What the allocator owns beside a set \<open>R\<close> of others: the descriptors of its pages, each once.
\<close>

definition pages_fds :: "shm_allocator \<Rightarrow> raw_fd set" where
  "pages_fds a = page_fd ` set (pages a)"

definition owns_pages :: "raw_fd set \<Rightarrow> shm_allocator \<times> world \<Rightarrow> bool" where
  "owns_pages R aw \<longleftrightarrow>
     owns (R \<union> pages_fds (fst aw)) (trace (snd aw)) \<and> R \<inter> pages_fds (fst aw) = {}
     \<and> distinct (map page_fd (pages (fst aw)))"

lemma create_new_page_owns:
  assumes os: "fresh_fds os"
  shows "keeps (owns_pages R) (create_new_page os)"
proof (rule keepsI)
  fix aw r aw' assume own: "owns_pages R aw" and run: "create_new_page os aw = (r, aw')"
  obtain a w where aw: "aw = (a, w)" by (cases aw)
  let ?S = "R \<union> pages_fds a"
  have S: "owns ?S (trace w)" "R \<inter> pages_fds a = {}" "distinct (map page_fd (pages a))"
    using own by (auto simp: owns_pages_def aw)
  define x where "x = ask_fd os (trace w) (MemfdCreate SHM_FILE_NAME)"
  let ?w = "log_event (FdAns (MemfdCreate SHM_FILE_NAME) x) w"
  show "owns_pages R aw'"
  proof (cases x)
    case (Inl e)
    then have "aw' = (a, ?w)"
      using run by (simp add: aw create_new_page_def exec_defs sys_call_defs x_def [symmetric])
    then show ?thesis
      using S owns_log [OF S(1), of "FdAns (MemfdCreate SHM_FILE_NAME) x"] Inl by (simp add: owns_pages_def)
  next
    case (Inr fd)
    have fresh: "fd \<notin> ?S"
      using fresh_fdsD [OF os Inr [unfolded x_def]] S(1) by (simp add: owns_def)
    have w: "owns (insert fd ?S) (trace ?w)" using owns_new(1) [OF S(1)] Inr by simp
    define body :: "(shm_allocator \<times> world, detailed_error, unit) io" where "body =
      bind_io (lift_io (pure_io (off_t_try_from (page_size a)))) (\<lambda>len.
      bind_io (lift_io (sys_unit os (Ftruncate fd len))) (\<lambda>_.
      bind_io (lift_io (sys_unit os (AddSeals fd))) (\<lambda>_.
      bind_io (if page_size a = 0 then panic else ret ()) (\<lambda>_.
      bind_io (lift_io (sys_num os (Mmap fd (page_size a)))) (\<lambda>res.
      set_self (\<lambda>self. self\<lparr>free_ptr := 0,
        pages := pages self @ [\<lparr>page_fd = fd, page_mem = res\<rparr>]\<rparr>))))))"
    obtain y b v where body: "body (a, ?w) = (y, b, v)" by (cases "body (a, ?w)")
    have "keeps (\<lambda>aw. owns (insert fd ?S) (trace (snd aw))) body"
      unfolding body_def
      by (intro keeps_bind keeps_lift keeps_if keeps_pure keeps_pure_io keeps_self) (simp_all add: fds.answers)
    from keepsD [OF this _ body] w have v: "owns (insert fd ?S) (trace v)" by simp
    have ends: "(\<exists>p. y = Ok () \<and> b = add_page a p \<and> page_fd p = fd) \<or> ((\<exists>e. y = Err e) \<or> y = Panic) \<and> b = a"
      using body unfolding body_def
      by (auto simp: exec_defs sys_call_defs answer_def add_page_def split: sum.splits if_splits)
    have "create_new_page os (a, w) = on_exit_drop (apsnd (close_fd fd)) body (a, ?w)"
      using Inr by (simp add: create_new_page_def body_def bind_io_def get_self_def lift_io_def sys_fd_def
          Let_def x_def [symmetric])
    then have "(\<exists>p. aw' = (add_page a p, v) \<and> page_fd p = fd) \<or> aw' = (a, close_fd fd v)"
      using run body ends by (auto simp: aw on_exit_drop_def)
    then consider (made) p v where "aw' = (add_page a p, v)" "page_fd p = fd" "owns (insert fd ?S) (trace v)"
      | (failed) v where "aw' = (a, close_fd fd v)" "owns (insert fd ?S) (trace v)"
      using v by blast
    then show ?thesis
    proof cases
      case made
      then show ?thesis
        using S fresh by (auto simp: owns_pages_def pages_fds_def insert_commute)
    next
      case failed
      have "owns (insert fd ?S - {fd}) (trace (close_fd fd v))"
        using owns_close [OF failed(2), of fd] by simp
      moreover have "insert fd ?S - {fd} = ?S" using fresh by auto
      ultimately show ?thesis using S failed by (simp add: owns_pages_def)
    qed
  qed
qed

lemma owns_pages_keeps:
  "keeps (owns_pages R) m" if "\<And>S. keeps (owns S \<circ> trace) m'" "m = lift_io m'"
  for m' :: "(world, 'e, 'a) io"
  using that unfolding keeps_def lift_io_def owns_pages_def
  by (auto split: prod.splits)

lemma owns_calls:
  "keeps (owns S \<circ> trace) (sys_unit os u)" "keeps (owns S \<circ> trace) (sys_num os n)"
  "keeps (owns S \<circ> trace) (find_resource a T name)" "keeps (owns S \<circ> trace) (pure_io x)"
  by (simp_all add: comp_def fds.answers fds.find_resource_keeps keeps_pure_io)

lemma construct_owns:
  assumes os: "fresh_fds os"
  shows "keeps (owns_pages R) (construct_in_shm os T name (init_mutex os gs))"
proof -
  have set: "keeps (owns_pages R) (set_self f)" if "\<And>a. pages (f a) = pages a" for f
    using that by (simp add: keeps_def set_self_def owns_pages_def pages_fds_def)
  have slot: "keeps (owns_pages R) (reserve_slot os T)"
    unfolding reserve_slot_def
    by (intro keeps_bind keeps_self(1) keeps_if keeps_pure keeps_case_option create_new_page_owns [OF os] set) simp
  show ?thesis
    unfolding construct_in_shm_def init_mutex_def
    by (intro keeps_bind keeps_self(1) keeps_if keeps_pure slot set owns_pages_keeps [OF _ refl] owns_calls) simp
qed

lemma open_mutex_owns:
  assumes os: "fresh_fds os"
  shows "keeps (owns_pages R) (handle_open_mutex os gs name fd)"
proof -
  have sends: "keeps (\<lambda>w. owns_pages R (a, w)) (sys_num os n)" for a n
    using owns_calls(2) [of _ os n] by (auto simp: keeps_def owns_pages_def)
  show ?thesis
    unfolding handle_open_mutex_def open_or_create_def Let_def
    by (intro keeps_bind keeps_self(1) keeps_unwrap_or_report keeps_case_option keeps_pure keeps_map_err
        construct_owns [OF os] owns_pages_keeps [OF _ refl] owns_calls sends)
qed

text \<open>The thread owns its epoll, its clients' sockets and its pages.\<close>

definition thread_owns :: "raw_fd \<Rightarrow> sync_state \<times> world \<Rightarrow> bool" where
  "thread_owns epoll sw \<longleftrightarrow>
     owns_pages (insert epoll (sockets (fst sw))) (shm (fst sw), snd sw)
     \<and> epoll \<notin> sockets (fst sw) \<and> finite (sockets (fst sw))"

text \<open>What the type \<open>OwnedFd\<close> guarantees of a descriptor that comes through the channel.\<close>

definition fresh_listeners :: "os \<Rightarrow> bool" where
  "fresh_listeners os \<longleftrightarrow> (\<forall>tr fd. ask_listener os tr = Received fd \<longrightarrow> fd \<notin> owned tr)"

lemma thread_owns_lift:
  assumes "\<And>S. keeps (owns S \<circ> trace) m"
  shows "keeps (thread_owns epoll) (lift_io m)"
  using assms unfolding keeps_def lift_io_def thread_owns_def owns_pages_def
  by (auto split: prod.splits)

lemma report_owns:
  "keeps (owns S \<circ> trace) (send_error os e :: ('e, unit) routine)"
  "keeps (owns S \<circ> trace) (send_all_errors os es :: ('e, unit) routine)"
  "keeps (owns S \<circ> trace) (announce_env_close os ids)"
  "keeps (owns S \<circ> trace) (report_boxed_error_and_close os ids e :: ('e, unit) routine)" 
  "keeps (owns S \<circ> trace) (receive_and_parse_request os gs fd)"
  "keeps (owns S \<circ> trace) (sys_bool os (SendSyncResponse x) :: ('e, bool) routine)"
  "keeps (owns S \<circ> trace) (sys_epoll os fd n)"
  unfolding comp_def receive_and_parse_request_def
  by (simp_all add: fds.reports fds.close_report_calls fds.requests fds.answers)

lemma add_listener_turn_owns:
  assumes os: "fresh_listeners os"
  shows "keeps (thread_owns epoll) (add_listener_turn os epoll u)"
proof (rule keepsI)
  fix sw r sw' assume own: "thread_owns epoll sw" and run: "add_listener_turn os epoll u sw = (r, sw')"
  obtain st w where sw: "sw = (st, w)" by (cases sw)
  let ?S = "insert epoll (sockets st) \<union> pages_fds (shm st)"
  have S: "owns ?S (trace w)" "insert epoll (sockets st) \<inter> pages_fds (shm st) = {}"
      "distinct (map page_fd (pages (shm st)))" "epoll \<notin> sockets st" "finite (sockets st)"
    using own by (auto simp: thread_owns_def owns_pages_def sw)
  define x where "x = ask_listener os (trace w)"
  let ?w = "log_event (RecvListener x) w"
  show "thread_owns epoll sw'"
  proof (cases x)
    case (Received fd)
    have fresh: "fd \<notin> ?S"
      using os Received S(1) by (auto simp: fresh_listeners_def x_def owns_def)
    define y where "y = ask_unit os (trace ?w) (EpollAdd epoll fd {EPOLLIN, EPOLLRDHUP} (epoll_data fd))"
    have y: "ask_unit os (trace w @ [RecvListener (Received fd)])
        (EpollAdd epoll fd {EPOLLIN, EPOLLRDHUP} (epoll_data fd)) = y"
      using Received by (simp add: y_def)
    let ?v = "log_event (UnitAns (EpollAdd epoll fd {EPOLLIN, EPOLLRDHUP} (epoll_data fd)) y) ?w"
    have v: "owns (insert fd ?S) (trace ?v)"
      using owns_log [OF owns_new(2) [OF S(1)]] Received by simp
    show ?thesis
    proof (cases y)
      case (Inl e)
      have "sw' = (st, close_fd fd ?v)"
        using run Inl Received by (simp add: sw add_listener_turn_def exec_defs sys_call_defs
            x_def [symmetric] y)
      moreover have "owns (insert fd ?S - {fd}) (trace (close_fd fd ?v))"
        using owns_close [OF v, of fd] by simp
      moreover have "insert fd ?S - {fd} = ?S" using fresh by auto
      ultimately show ?thesis using S by (simp add: thread_owns_def owns_pages_def)
    next
      case (Inr z)
      have "sw' = (st\<lparr>sockets := insert fd (sockets st)\<rparr>, ?v)"
        using run Inr Received by (simp add: sw add_listener_turn_def exec_defs sys_call_defs on_sockets_def
            socket_set_insert_def x_def [symmetric] y)
      moreover have "insert epoll (insert fd (sockets st)) \<union> pages_fds (shm st) = insert fd ?S" by auto
      ultimately show ?thesis
        using S v fresh by (auto simp: thread_owns_def owns_pages_def simp del: log_event_simps)
    qed
  qed (use run S in \<open>auto simp: sw add_listener_turn_def exec_defs sys_call_defs x_def [symmetric]
         thread_owns_def owns_pages_def intro!: owns_log\<close>)
qed

lemma socket_remove_owns:
  "keeps (thread_owns epoll) (on_sockets (socket_set_remove fd) :: (sync_state \<times> world, 'e, bool) io)"
proof (rule keepsI)
  fix sw r sw' assume own: "thread_owns epoll sw"
    and run: "(on_sockets (socket_set_remove fd) :: (sync_state \<times> world, 'e, bool) io) sw = (r, sw')"
  obtain st w where sw: "sw = (st, w)" by (cases sw)
  let ?S = "insert epoll (sockets st) \<union> pages_fds (shm st)"
  show "thread_owns epoll sw'"
  proof (cases "fd \<in> sockets st")
    case True
    have S: "owns ?S (trace w)" "fd \<notin> pages_fds (shm st)" "fd \<noteq> epoll"
      using own True by (auto simp: thread_owns_def owns_pages_def sw)
    have "sw' = (st\<lparr>sockets := sockets st - {fd}\<rparr>, log_event (Did (Close fd)) w)"
      using run True by (simp add: sw on_sockets_def socket_set_remove_def exec_defs sys_call_defs)
    moreover have "?S - {fd} = insert epoll (sockets st - {fd}) \<union> pages_fds (shm st)"
      using S by auto
    ultimately show ?thesis
      using owns_close [OF S(1), of fd] own True by (auto simp: thread_owns_def owns_pages_def sw)
  next
    case False
    with run own show ?thesis
      by (simp add: sw on_sockets_def socket_set_remove_def exec_defs)
  qed
qed

lemma handle_event_owns:
  assumes os: "fresh_fds os" "fresh_listeners os"
  shows "keeps (thread_owns epoll) (handle_event os gs ids epoll fuel ev :: (sync_state \<times> world, 'e, bool) io)"
proof -
  note lift = thread_owns_lift
  have add: "keeps (thread_owns epoll) (pass_result_to_requesting_thread os (add_listener os ids epoll fuel)
      :: (sync_state \<times> world, 'e, unit) io)"
    unfolding pass_result_to_requesting_thread_def add_listener_def Let_def
    by (intro keeps_match keeps_bind keeps_run_loop add_listener_turn_owns [OF os(2)] lift owns_calls report_owns)
      (auto intro!: keeps_bind keeps_if keeps_pure report_owns)
  have opens: "keeps (thread_owns epoll) (on_shm (handle_open_mutex os gs n fd))" for n fd
    by (intro keeps_on_shm) (use open_mutex_owns [OF os(1)] in
        \<open>auto simp: thread_owns_def keeps_def\<close>)
  have errs: "keeps (thread_owns epoll) (or_send_errors os m b f)"
    if "keeps (thread_owns epoll) m" "\<And>a. keeps (thread_owns epoll) (f a)"
    for m and b :: bool and f :: "'x \<Rightarrow> (sync_state \<times> world, 'e, bool) io"
    unfolding or_send_errors_def by (intro keeps_match keeps_bind keeps_pure that lift report_owns)
  show ?thesis
    unfolding handle_event_def Let_def
    by (intro keeps_if keeps_match keeps_bind keeps_self(1) keeps_pure keeps_case_request add socket_remove_owns
        errs opens lift owns_calls report_owns)
qed

lemma sync_turn_owns:
  assumes os: "fresh_fds os" "fresh_listeners os"
  shows "keeps (thread_owns epoll) (sync_turn os gs ids epoll fuel u :: (sync_state \<times> world, 'e, (unit, unit) turn) io)"
proof -
  have "keeps (thread_owns epoll) (handle_events os gs ids epoll fuel evs :: (sync_state \<times> world, 'e, bool) io)" for evs
    by (induction evs) (simp_all add: keeps_pure keeps_bind handle_event_owns [OF os])
  then show ?thesis
    unfolding sync_turn_def Let_def
    by (intro keeps_if keeps_match keeps_bind keeps_self(1) keeps_pure thread_owns_lift report_owns)
qed

lemma drop_locals_owns:
  assumes run: "drop_locals os gs order fds st w = (r :: ('e, unit) exec, w')"
    and own: "owns (sockets st \<union> pages_fds (shm st)) (trace w)" and "distinct (map page_fd (pages (shm st)))"
    and "sockets st \<inter> pages_fds (shm st) = {}" and fds: "enumerates fds (sockets st)"
    and r: "\<forall>c. r \<noteq> Exit c" "r \<noteq> NoReturn"
  shows "owns {} (trace w')"
proof -
  obtain x v where d: "shm_destroy os gs order (shm st) w = (x :: ('e, unit) exec, v)"
    by (cases "shm_destroy os gs order (shm st) w :: ('e, unit) exec \<times> world")
  let ?ps = "map page_fd (pages (shm st))"
  have "keeps (\<lambda>w. owns S (trace w)) (shm_destroy os gs order (shm st) :: ('e, unit) routine)" for S
    by (rule fds.destroy_calls) simp_all
  from keepsD [OF this own d] have v: "owns (sockets st \<union> pages_fds (shm st)) (trace v)" .
  have close: "close_pages ps u = fold close_fd (map page_fd ps) u" for ps u
    by (simp add: close_pages_def fold_map comp_def)
  have w': "w' = fold close_fd (fds (sockets st)) (fold close_fd ?ps v)"
    using run d r by (cases x) (auto simp: drop_locals_def shm_drop_destroy finally_drop_def close socket_set_drop_def)
  have "owns (sockets st \<union> pages_fds (shm st) - set ?ps) (trace (fold close_fd ?ps v))"
    by (rule owns_closes [OF v]) (use assms(3) in \<open>auto simp: pages_fds_def\<close>)
  moreover have "sockets st \<union> pages_fds (shm st) - set ?ps = sockets st"
    using assms(4) by (auto simp: pages_fds_def)
  ultimately have "owns (sockets st) (trace (fold close_fd ?ps v))" by simp
  from owns_closes [OF this, of "fds (sockets st)"] fds show ?thesis
    by (simp add: w' enumerates_def)
qed

text \<open>A scope that ends in return or panic has run its drops to the end.\<close>

lemma with_drop_ended:
  assumes "with_drop d m w = (r, w')" and "r = Ok () \<or> r = Panic" and "m w = (x, v)"
  shows "(\<forall>c. x \<noteq> Exit c) \<and> x \<noteq> NoReturn
    \<and> (\<exists>y u. trace u = trace v \<and> d u = (y, w') \<and> (\<forall>c. y \<noteq> Exit c) \<and> y \<noteq> NoReturn)"
proof -
  obtain y u z t where d: "d v = (y, u)" "d (v\<lparr>panicking := True\<rparr>) = (z, t)"
    by (cases "d v", cases "d (v\<lparr>panicking := True\<rparr>)")
  show ?thesis
  proof (cases x)
    case Panic
    with assms d have "w' = t \<and> (\<forall>c. z \<noteq> Exit c) \<and> z \<noteq> NoReturn"
      by (cases z) (auto simp: with_drop_def)
    with Panic d show ?thesis by (intro conjI exI [of _ z] exI [of _ "v\<lparr>panicking := True\<rparr>"]) auto
  qed (use assms d in \<open>cases y; force simp: with_drop_def exec_defs\<close>)+
qed

lemma end_of_thread_owns:
  assumes run: "with_drop (drop_locals os gs order fds st) (finally_drop (close_fd epoll) m) w = (r :: ('e, unit) exec, w')"
    and r: "r = Ok () \<or> r = Panic" and m: "m w = (x, v)" and own: "thread_owns epoll (st, v)"
    and fds: "\<And>S. finite S \<Longrightarrow> enumerates fds S"
  shows "owns {} (trace w')"
proof -
  obtain y u where f: "finally_drop (close_fd epoll) m w = (y, u)"
    by (cases "finally_drop (close_fd epoll) m w")
  from with_drop_ended [OF run r f] obtain z t where
    y: "\<forall>c. y \<noteq> Exit c" "y \<noteq> NoReturn" and t: "trace t = trace u" "drop_locals os gs order fds st t = (z :: ('e, unit) exec, w')"
      "\<forall>c. z \<noteq> Exit c" "z \<noteq> NoReturn"
    by blast
  have "u = close_fd epoll v"
    using f m y by (cases x) (auto simp: finally_drop_def)
  moreover have "owns (insert epoll (sockets st) \<union> pages_fds (shm st) - {epoll}) (trace (close_fd epoll v))"
    using owns_close [of "insert epoll (sockets st) \<union> pages_fds (shm st)" "trace v" epoll] own
    by (simp add: thread_owns_def owns_pages_def)
  moreover have "insert epoll (sockets st) \<union> pages_fds (shm st) - {epoll} = sockets st \<union> pages_fds (shm st)"
    using own by (auto simp: thread_owns_def owns_pages_def)
  ultimately show ?thesis
    using drop_locals_owns [OF t(2)] t own fds by (auto simp: thread_owns_def owns_pages_def)
qed

lemma sync_loop_owns:
  assumes run: "(sync_loop os gs order fds ids epoll fuel st w :: ('e, unit) exec \<times> world) = (r, w')"
    and os: "fresh_fds os" "fresh_listeners os" and own: "thread_owns epoll (st, w)"
    and r: "r = Ok () \<or> r = Panic" and fds: "\<And>S. finite S \<Longrightarrow> enumerates fds S"
  shows "owns {} (trace w')"
proof -
  obtain x st' v where loop: "(run_loop fuel (sync_turn os gs ids epoll fuel) () (st, w)
      :: ('e, unit) exec \<times> sync_state \<times> world) = (x, st', v)"
    by (cases "run_loop fuel (sync_turn os gs ids epoll fuel) () (st, w) :: ('e, unit) exec \<times> sync_state \<times> world")
  have v: "thread_owns epoll (st', v)"
    using keepsD [OF keeps_run_loop [OF sync_turn_owns [OF os]] own loop] .
  have go: "with_drop (drop_locals os gs order fds st') (finally_drop (close_fd epoll) (Pair x)) v = (r, w')"
    using run loop by (simp add: sync_loop_def)
  show ?thesis
    by (rule end_of_thread_owns [OF go r _ v fds]) simp_all
qed

text \<open>
  C18: a thread gives back every descriptor. When the thread ends, by returning or by a panic
  anywhere on the way, it owns no descriptor any more: its epoll, the pages of its allocator and
  every client's socket it was handed are closed; and it never closed one that was not its own,
  so none was closed twice.
\<close>

theorem thread_releases_descriptors:
  assumes run: "environment_synchronization_thread_main os gs order fds ids fuel w = (r :: ('e, unit) exec, w')"
    and "trace w = []" and os: "fresh_fds os" "fresh_listeners os"
    and r: "r = Ok () \<or> r = Panic" and fds: "\<And>S. finite S \<Longrightarrow> enumerates fds S"
  shows "owned (trace w') = {} \<and> closes_only_owned (trace w')"
proof -
  note main = environment_synchronization_thread_main_def match_io_def Let_def
  have report: "keeps (\<lambda>w. owns S (trace w)) (report_boxed_error_and_close os ids e :: ('e, unit) routine)" for S e
    using report_owns(4) by (simp add: comp_def)
  obtain x v where new: "shm_new os w = (x, v)" by (cases "shm_new os w")
  have v: "owns {} (trace v)"
    using new \<open>trace w = []\<close>
    by (auto simp: shm_new_def exec_defs sys_call_defs answer_def owns_def owned_def owned_from_def
        closes_only_owned_def split: sum.splits option.splits if_splits)
  have "owns {} (trace w')"
  proof (cases x)
    case (Ok a)
    let ?st = "\<lparr>sockets = socket_set_new, shm = a\<rparr>"
    have a: "pages a = []" using shm_new_Ok [OF new [unfolded Ok]] by simp
    define y where "y = ask_fd os (trace v) EpollCreate"
    define u where "u = log_event (FdAns EpollCreate y) v"
    have ep: "sys_fd os EpollCreate v = (answer y, u)" by (simp add: sys_fd_def y_def u_def Let_def)
    show ?thesis
    proof (cases y)
      case (Inr epoll)
      have u: "owns {epoll} (trace u)"
        using owns_new(1) [OF v] Inr by (simp add: u_def)
      obtain z t where reg: "register_events os epoll [add_listener_event ids, drop_event ids] u = (z, t)"
        by (cases "register_events os epoll [add_listener_event ids, drop_event ids] u")
      have t: "thread_owns epoll (?st, t')" if "owns {epoll} (trace t')" for t'
        using that a by (simp add: thread_owns_def owns_pages_def pages_fds_def socket_set_new_def)
      have "keeps (\<lambda>w. owns {epoll} (trace w)) (register_events os epoll evs)" for evs
        by (induction evs) (simp_all add: keeps_pure keeps_bind fds.answers)
      from keepsD [OF this u reg] have o: "owns {epoll} (trace t)" .
      show ?thesis
      proof (cases z)
        case (Ok z')
        with run new \<open>x = Ok a\<close> ep Inr reg have "sync_loop os gs order fds ids epoll fuel ?st t = (r, w')"
          by (simp add: main)
        from sync_loop_owns [OF this os t [OF o] r fds] show ?thesis .
      next
        case (Err e)
        have go: "with_drop (drop_locals os gs order fds ?st)
            (finally_drop (close_fd epoll) (report_boxed_error_and_close os ids e)) t = (r, w')"
          using run new \<open>x = Ok a\<close> ep Inr reg Err by (simp add: main)
        obtain q p where q: "report_boxed_error_and_close os ids e t = (q :: ('e, unit) exec, p)"
          by (cases "report_boxed_error_and_close os ids e t :: ('e, unit) exec \<times> world")
        show ?thesis
          by (rule end_of_thread_owns [OF go r q t [OF keepsD [OF report o q]] fds])
      qed (use reg r in \<open>auto simp: exec_defs sys_call_defs answer_def split: sum.splits\<close>)
    next
      case (Inl e)
      have go: "with_drop (drop_locals os gs order fds ?st) (report_boxed_error_and_close os ids e) u = (r, w')"
        using run new Ok ep Inl by (simp add: main)
      obtain q p where q: "report_boxed_error_and_close os ids e u = (q :: ('e, unit) exec, p)"
        by (cases "report_boxed_error_and_close os ids e u :: ('e, unit) exec \<times> world")
      have p: "owns {} (trace p)"
        using keepsD [OF report _ q] v Inl owns_log [OF v] by (simp add: u_def)
      from with_drop_ended [OF go r q] obtain z t where t: "trace t = trace p"
        "drop_locals os gs order fds ?st t = (z :: ('e, unit) exec, w')" "\<forall>c. z \<noteq> Exit c" "z \<noteq> NoReturn"
        by blast
      show ?thesis
        by (rule drop_locals_owns [OF t(2)]) (use t p a fds in \<open>simp_all add: pages_fds_def socket_set_new_def\<close>)
    qed
  next
    case (Err e)
    with run new have "report_boxed_error_and_close os ids e v = (r, w')" by (simp add: main)
    from keepsD [OF report v this] show ?thesis .
  qed (use run new v in \<open>auto simp: main\<close>)
  then show ?thesis by (simp add: owns_def)
qed

lemma demo_fresh: "fresh_fds demo_sync_os"
  by (auto simp: fresh_fds_def demo_sync_os_def calm_os_def next_fd_def Let_def split: if_splits)

lemma demo_listeners: "fresh_listeners demo_sync_os"
  by (auto simp: fresh_listeners_def demo_sync_os_def Let_def split: if_splits)

theorem thread_releases_descriptors_witness:
  "owned (trace (snd demo_run)) = {} \<and> closes_only_owned (trace (snd demo_run))"
proof -
  have run: "environment_synchronization_thread_main demo_sync_os demo_gs demo_order demo_fds demo_ids 5 start_world
      = (fst demo_run, snd demo_run)"
    by (simp add: demo_run_def)
  have "fst demo_run = Ok ()" by code_simp
  with thread_releases_descriptors [OF run _ demo_fresh demo_listeners] show ?thesis
    by (simp add: start_world_def enumerates_def demo_fds_def)
qed

section \<open>Handing over a client\<close>

fun answers_handover :: "event \<Rightarrow> bool" where
  "answers_handover (BoolAns (SendSyncResponse _) _) = True"
| "answers_handover _ = False"

definition responses :: "event list \<Rightarrow> nat" where
  "responses tr = length (filter answers_handover tr)"

lemma responses_simps [simp]:
  "responses [] = 0"
  "responses (e # es) = (if answers_handover e then 1 else 0) + responses es"
  "responses (xs @ ys) = responses xs + responses ys"
  by (simp_all add: responses_def)

interpretation unanswered: trace_invariant "\<lambda>tr. responses tr = k" "\<lambda>e. \<not> answers_handover e" for k
  by unfold_locales simp

abbreviation answered :: "nat \<Rightarrow> sync_state \<times> world \<Rightarrow> bool" where
  "answered k sw \<equiv> responses (trace (snd sw)) = k"

lemma add_listener_answered: "keeps (answered k) (add_listener os ids epoll fuel)"
proof -
  have turn: "keeps (answered k) (add_listener_turn os epoll u)" for u
    unfolding add_listener_turn_def socket_set_insert_def
    by (intro keeps_bind keeps_lift keeps_case_try_recv keeps_on_exit keeps_on_sockets keeps_self keeps_pure)
      (simp_all add: unanswered.answers)
  show ?thesis
    unfolding add_listener_def
    by (intro keeps_bind keeps_lift keeps_run_loop turn) (simp add: unanswered.answers)
qed

lemma other_event_answered:
  assumes "ev_data ev \<noteq> epoll_data (add_listener_event ids)"
  shows "keeps (answered k) (handle_event os gs ids epoll fuel ev :: (sync_state \<times> world, 'e, bool) io)"
proof -
  have opens: "keeps (\<lambda>aw. responses (trace (snd aw)) = k) (handle_open_mutex os gs n fd)" for n fd
    unfolding handle_open_mutex_def open_or_create_def Let_def
    by (intro keeps_bind keeps_self keeps_unwrap_or_report keeps_lift keeps_case_option keeps_pure keeps_pure_io
        keeps_map_err unanswered.find_resource_keeps unanswered.allocator_calls)
      (simp_all add: init_mutex_def unanswered.find_resource_keeps unanswered.answers keeps_pure_io)
  have rcv: "keeps (\<lambda>w. responses (trace w) = k) (receive_and_parse_request os gs fd)" for fd
    unfolding receive_and_parse_request_def by (rule unanswered.requests) simp_all
  show ?thesis
    unfolding handle_event_def Let_def socket_set_remove_def if_not_P [OF assms]
    by (intro keeps_if keeps_match keeps_bind keeps_on_sockets keeps_self keeps_pure keeps_case_request
        keeps_on_shm or_send_errors_keeps keeps_lift)
      (simp_all add: opens rcv unanswered.answers unanswered.reports unanswered.close_report_calls)
qed

text \<open>
  C21: every hand-over is answered once. Handling one event sends the owner exactly one response
  if the event is a hand-over of clients, success or failure, and none otherwise; so the owner,
  which waits for a response after each hand-over, neither waits in vain nor reads a response
  that belongs to another one.
\<close>

theorem one_response_per_handover:
  assumes run: "(handle_event os gs ids epoll fuel ev :: (sync_state \<times> world, 'e, bool) io) (st, w)
      = (Ok b, st', w')"
  shows "responses (trace w') =
    responses (trace w) + (if ev_data ev = epoll_data (add_listener_event ids) then 1 else 0)"
proof (cases "ev_data ev = epoll_data (add_listener_event ids)")
  case True
  obtain x s v where a: "add_listener os ids epoll fuel (st, w) = (x, s, v)"
    by (cases "add_listener os ids epoll fuel (st, w)")
  have "responses (trace v) = responses (trace w)"
    using keepsD [OF add_listener_answered _ a] by simp
  with run True a show ?thesis
    by (cases x) (auto simp: handle_event_def pass_result_to_requesting_thread_def exec_defs sys_call_defs
        send_error_def split: if_splits)
next
  case False
  with keepsD [OF other_event_answered [OF False] _ run] show ?thesis by simp
qed

theorem one_response_per_handover_witness:
  "\<exists>st w. (handle_event demo_sync_os demo_gs demo_ids 101 5 (EpollEvent {EPOLLIN} (epoll_data 10))
        :: (sync_state \<times> world, unit, bool) io) (\<lparr>sockets = {}, shm = demo_alloc0\<rparr>, start_world) = (Ok False, st, w)
     \<and> responses (trace w) = 1"
proof -
  let ?run = "(handle_event demo_sync_os demo_gs demo_ids 101 5 (EpollEvent {EPOLLIN} (epoll_data 10))
        :: (sync_state \<times> world, unit, bool) io) (\<lparr>sockets = {}, shm = demo_alloc0\<rparr>, start_world)"
  obtain r st w where run: "?run = (r, st, w)" by (cases ?run)
  have "fst ?run = Ok False" by code_simp
  with run have "r = Ok False" by simp
  with run one_response_per_handover [OF run [unfolded this]] show ?thesis
    by (simp add: demo_ids_def start_world_def)
qed

text \<open>The clients taken from the queue, in order.\<close>

fun received :: "event list \<Rightarrow> raw_fd list" where
  "received [] = []"
| "received (RecvListener (Received fd) # es) = fd # received es"
| "received (_ # es) = received es"

lemma received_append [simp]: "received (xs @ ys) = received xs @ received ys"
  by (induction xs rule: received.induct) auto

lemma taken_append [simp]: "taken (xs @ ys) = taken xs + taken ys"
  by (induction xs rule: taken.induct) auto

definition watch :: "raw_fd \<Rightarrow> raw_fd \<Rightarrow> detailed_error + unit \<Rightarrow> event" where
  "watch epoll fd y = UnitAns (EpollAdd epoll fd {EPOLLIN, EPOLLRDHUP} (epoll_data fd)) y"

lemma received_watch [simp]: "received (watch epoll fd y # es) = received es"
  and taken_watch [simp]: "taken (watch epoll fd y # es) = taken es"
  by (simp_all add: watch_def)

text \<open>One turn of the drain: what it takes, watches and keeps.\<close>

lemma add_listener_turn_cases:
  assumes run: "add_listener_turn os epoll u (st, w) = (r, st', w')"
  obtains
    (kept) fd where "ask_listener os (trace w) = Received fd" "r = Ok (Next ())"
      "st' = st\<lparr>sockets := insert fd (sockets st)\<rparr>"
      "trace w' = trace w @ [RecvListener (Received fd), watch epoll fd (Inr ())]"
  | (closed) fd e where "r = Err e" "st' = st"
      "trace w' = trace w @ [RecvListener (Received fd), watch epoll fd (Inl e), Did (Close fd)]"
  | (empty) "r = Ok (Stop ())" "st' = st" "trace w' = trace w @ [RecvListener Empty]"
  | (dead) "r = Panic" "st' = st" "trace w' = trace w @ [RecvListener Disconnected]"
proof (cases "ask_listener os (trace w)")
  case (Received fd)
  show thesis
  proof (cases "ask_unit os (trace w @ [RecvListener (Received fd)])
      (EpollAdd epoll fd {EPOLLIN, EPOLLRDHUP} (epoll_data fd))")
    case (Inl e)
    with run Received show thesis
      by (intro closed) (auto simp: add_listener_turn_def exec_defs sys_call_defs watch_def)
  next
    case (Inr z)
    with run Received show thesis
      by (intro kept) (auto simp: add_listener_turn_def exec_defs sys_call_defs watch_def on_sockets_def
          socket_set_insert_def)
  qed
next
  case Empty
  with run show thesis
    by (intro empty) (auto simp: add_listener_turn_def exec_defs sys_call_defs)
next
  case Disconnected
  with run show thesis
    by (intro dead) (auto simp: add_listener_turn_def exec_defs sys_call_defs)
qed

lemma drain_result:
  assumes "run_loop fuel (add_listener_turn os epoll) () (st, w) = (r, st', w')"
  shows "\<exists>es. trace w' = trace w @ es \<and> shm st' = shm st
    \<and> (r = Ok () \<longrightarrow> sockets st' = sockets st \<union> set (received es) \<and> es \<noteq> [] \<and> last es = RecvListener Empty
         \<and> (\<forall>fd \<in> set (received es). watch epoll fd (Inr ()) \<in> set es))
    \<and> (\<forall>e. r = Err e \<longrightarrow> (\<exists>fds fd. received es = fds @ [fd] \<and> sockets st' = sockets st \<union> set fds
         \<and> (\<forall>fd \<in> set fds. watch epoll fd (Inr ()) \<in> set es)
         \<and> watch epoll fd (Inl e) \<in> set es \<and> Did (Close fd) \<in> set es))"
  using assms
proof (induction fuel arbitrary: st w)
  case 0
  then show ?case by auto
next
  case (Suc n)
  obtain x s v where t: "add_listener_turn os epoll () (st, w) = (x, s, v)"
    by (cases "add_listener_turn os epoll () (st, w)")
  from t show ?case
  proof (cases rule: add_listener_turn_cases)
    case (kept fd)
    with Suc.prems t have "run_loop n (add_listener_turn os epoll) () (s, v) = (r, st', w')" by simp
    from Suc.IH [OF this] kept obtain es where es: "trace w' = trace v @ es" "shm st' = shm s"
      "r = Ok () \<longrightarrow> sockets st' = sockets s \<union> set (received es) \<and> es \<noteq> [] \<and> last es = RecvListener Empty
         \<and> (\<forall>fd \<in> set (received es). watch epoll fd (Inr ()) \<in> set es)"
      "\<forall>e. r = Err e \<longrightarrow> (\<exists>fds fd. received es = fds @ [fd] \<and> sockets st' = sockets s \<union> set fds
         \<and> (\<forall>fd \<in> set fds. watch epoll fd (Inr ()) \<in> set es)
         \<and> watch epoll fd (Inl e) \<in> set es \<and> Did (Close fd) \<in> set es)"
      by blast
    let ?es = "[RecvListener (Received fd), watch epoll fd (Inr ())] @ es"
    have "\<exists>fds fd'. received ?es = fds @ [fd'] \<and> sockets st' = sockets st \<union> set fds
         \<and> (\<forall>fd \<in> set fds. watch epoll fd (Inr ()) \<in> set ?es)
         \<and> watch epoll fd' (Inl e) \<in> set ?es \<and> Did (Close fd') \<in> set ?es" if r: "r = Err e" for e
    proof -
      obtain fds fd' where "received es = fds @ [fd']" "sockets st' = sockets s \<union> set fds"
        "\<forall>fd \<in> set fds. watch epoll fd (Inr ()) \<in> set es"
        "watch epoll fd' (Inl e) \<in> set es" "Did (Close fd') \<in> set es"
        using es(4) r by blast
      then show ?thesis
        using kept by (intro exI [of _ "fd # fds"] exI [of _ fd']) auto
    qed
    with kept es show ?thesis
      by (intro exI [of _ ?es]) auto
  next
    case (closed fd e)
    with Suc.prems t show ?thesis
      by (intro exI [of _ "[RecvListener (Received fd), watch epoll fd (Inl e), Did (Close fd)]"]) auto
  qed (use Suc.prems t in auto)
qed

text \<open>
  C31: a hand-over is acknowledged only when the queue is empty and its clients are watched. If
  \<open>add_listener\<close> succeeds, the last thing it did was to find the queue empty; every client that was
  in the queue until then has been registered with the epoll and is in the set of sockets, and nobody else was added.
  If it fails after reading the event, the client it failed for is closed and not in the set,
  and those before it are in the set and registered.
\<close>

theorem handover_watches_clients:
  assumes "add_listener os ids epoll fuel (st, w) = (r, st', w')"
  shows "\<exists>es. trace w' = trace w @ es \<and> shm st' = shm st
    \<and> (r = Ok () \<longrightarrow> sockets st' = sockets st \<union> set (received es)
         \<and> es \<noteq> [] \<and> last es = RecvListener Empty
         \<and> (\<forall>fd \<in> set (received es).
              UnitAns (EpollAdd epoll fd {EPOLLIN, EPOLLRDHUP} (epoll_data fd)) (Inr ()) \<in> set es))
    \<and> (\<forall>e. r = Err e \<longrightarrow> received es = [] \<and> sockets st' = sockets st
         \<or> (\<exists>fds fd. received es = fds @ [fd] \<and> sockets st' = sockets st \<union> set fds \<and> Did (Close fd) \<in> set es
              \<and> (\<forall>fd \<in> set fds.
                   UnitAns (EpollAdd epoll fd {EPOLLIN, EPOLLRDHUP} (epoll_data fd)) (Inr ()) \<in> set es)))"
proof -
  let ?c = "EventFdRead (add_listener_event ids)"
  define x where "x = ask_num os (trace w) ?c"
  let ?w = "log_event (NumAns ?c x) w"
  show ?thesis
  proof (cases x)
    case (Inl e)
    with assms show ?thesis
      by (intro exI [of _ "[NumAns ?c x]"])
        (auto simp: add_listener_def exec_defs sys_call_defs x_def [symmetric])
  next
    case (Inr n)
    with assms have "run_loop fuel (add_listener_turn os epoll) () (st, ?w) = (r, st', w')"
      by (simp add: add_listener_def exec_defs sys_call_defs x_def [symmetric])
    from drain_result [OF this] obtain es where es: "trace w' = trace ?w @ es" "shm st' = shm st"
      "r = Ok () \<longrightarrow> sockets st' = sockets st \<union> set (received es) \<and> es \<noteq> [] \<and> last es = RecvListener Empty
         \<and> (\<forall>fd \<in> set (received es). watch epoll fd (Inr ()) \<in> set es)"
      "\<forall>e. r = Err e \<longrightarrow> (\<exists>fds fd. received es = fds @ [fd] \<and> sockets st' = sockets st \<union> set fds
         \<and> (\<forall>fd \<in> set fds. watch epoll fd (Inr ()) \<in> set es)
         \<and> watch epoll fd (Inl e) \<in> set es \<and> Did (Close fd) \<in> set es)"
      by blast
    have "\<exists>fds fd. received (NumAns ?c x # es) = fds @ [fd] \<and> sockets st' = sockets st \<union> set fds
        \<and> Did (Close fd) \<in> set (NumAns ?c x # es)
        \<and> (\<forall>fd \<in> set fds. watch epoll fd (Inr ()) \<in> set (NumAns ?c x # es))" if r: "r = Err e" for e
    proof -
      obtain fds fd where "received es = fds @ [fd]" "sockets st' = sockets st \<union> set fds"
        "\<forall>fd \<in> set fds. watch epoll fd (Inr ()) \<in> set es" "Did (Close fd) \<in> set es"
        using es(4) r by blast
      then show ?thesis by (intro exI [of _ fds] exI [of _ fd]) auto
    qed
    with es show ?thesis
      by (intro exI [of _ "NumAns ?c x # es"]) (auto simp: watch_def)
  qed
qed

text \<open>
  C32: draining the queue ends. If the owner has put at most \<open>m\<close> clients into the queue, the loop
  of \<open>add_listener\<close> ends after as many turns as there are clients left and one more.
\<close>

theorem handover_terminates:
  assumes queue: "\<And>tr fd. m \<le> taken tr \<Longrightarrow> ask_listener os tr \<noteq> Received fd"
    and fuel: "m - taken (trace w) < fuel"
  shows "fst (add_listener os ids epoll fuel (st, w)) \<noteq> NoReturn"
proof -
  have drain: "fst (run_loop n (add_listener_turn os epoll) () (s, v)) \<noteq> NoReturn"
    if "m - taken (trace v) < n" for n s v
    using that
  proof (induction n arbitrary: s v)
    case (Suc n)
    obtain x s' v' where t: "add_listener_turn os epoll () (s, v) = (x, s', v')"
      by (cases "add_listener_turn os epoll () (s, v)")
    from t show ?case
    proof (cases rule: add_listener_turn_cases)
      case (kept fd)
      have "taken (trace v) < m"
        using queue [of "trace v" fd] kept(1) by (metis not_le)
      with kept Suc.prems have "m - taken (trace v') < n" by simp
      from Suc.IH [OF this] t kept show ?thesis by simp
    qed (use t in simp_all)
  qed simp
  show ?thesis
    using drain [of "log_event (NumAns (EventFdRead (add_listener_event ids))
        (ask_num os (trace w) (EventFdRead (add_listener_event ids)))) w" fuel st] fuel
    by (auto simp: add_listener_def bind_io_def lift_io_def sys_num_def Let_def answer_def split: sum.splits)
qed

theorem handover_watches_clients_witness:
  "\<exists>st w. add_listener demo_sync_os demo_ids 101 3 (\<lparr>sockets = {}, shm = demo_alloc0\<rparr>, start_world)
      = (Ok (), st, w) \<and> sockets st = set (received (trace w))"
proof -
  let ?run = "add_listener demo_sync_os demo_ids 101 3 (\<lparr>sockets = {}, shm = demo_alloc0\<rparr>, start_world)"
  obtain r st w where run: "?run = (r, st, w)" by (cases ?run)
  have "fst ?run = Ok ()" by code_simp
  with run have r: "r = Ok ()" by simp
  from handover_watches_clients [OF run] r show ?thesis
    using run by (auto simp: start_world_def)
qed

theorem handover_terminates_witness:
  "fst (add_listener demo_sync_os demo_ids 101 3 (\<lparr>sockets = {}, shm = demo_alloc0\<rparr>, start_world)) \<noteq> NoReturn"
  by (rule handover_terminates [of 2]) (auto simp: demo_sync_os_def Let_def start_world_def)

section \<open>Answering a request\<close>

text \<open>Whom the messages of a trace were sent to, in order.\<close>

fun replies :: "event list \<Rightarrow> raw_fd list" where
  "replies [] = []"
| "replies (NumAns (Send fd _) _ # es) = fd # replies es"
| "replies (NumAns (SendMsg fd _ _) _ # es) = fd # replies es"
| "replies (_ # es) = replies es"

fun is_reply :: "event \<Rightarrow> bool" where
  "is_reply (NumAns (Send _ _) _) = True"
| "is_reply (NumAns (SendMsg _ _ _) _) = True"
| "is_reply _ = False"

lemma replies_append [simp]: "replies (xs @ ys) = replies xs @ replies ys"
  by (induction xs rule: replies.induct) auto

lemma replies_other: "\<not> is_reply e \<Longrightarrow> replies [e] = []"
  by (cases e rule: is_reply.cases) auto

interpretation reply: trace_invariant "\<lambda>tr. replies tr = k" "\<lambda>e. \<not> is_reply e" for k
  by unfold_locales (simp add: replies_other)

lemma errors_reply:
  "keeps (\<lambda>w. replies (trace w) = k) (send_all_errors os es :: ('e, unit) routine)"
  by (rule reply.reports) simp

lemma construct_reply:
  "keeps (\<lambda>aw. replies (trace (snd aw)) = k) (construct_in_shm os T name (init_mutex os gs))"
  by (rule reply.allocator_calls) (simp_all add: init_mutex_def reply.answers)

text \<open>A failed step has answered the client; a successful one has not yet.\<close>

definition answered_on_failure :: "raw_fd \<Rightarrow> raw_fd list \<Rightarrow> ('e, 'a) exec \<Rightarrow> world \<Rightarrow> bool" where
  "answered_on_failure fd k r w \<longleftrightarrow>
     (\<forall>a. r = Ok a \<longrightarrow> replies (trace w) = k) \<and> (\<forall>e. r = Err e \<longrightarrow> replies (trace w) = k @ [fd])"

lemma unwrap_or_report_answers:
  assumes run: "unwrap_or_report_failure os m fd t (s, w) = (r, s', w')"
    and m: "\<And>x s'' v. m (s, w) = (x, s'', v) \<Longrightarrow> replies (trace v) = k"
  shows "answered_on_failure fd k r w'"
proof -
  obtain x s'' v where x: "m (s, w) = (x, s'', v)" by (cases "m (s, w)")
  from m [OF x] run x show ?thesis
    by (cases x) (auto simp: unwrap_or_report_failure_def answered_on_failure_def exec_defs sys_call_defs
        answer_def split: sum.splits)
qed

lemma open_or_create_answers:
  assumes run: "open_or_create os gs n fd (a, w) = (r, a', w')"
  shows "answered_on_failure fd (replies (trace w)) r w'"
proof -
  let ?k = "replies (trace w)" and ?T = "pthread_mutex gs" and ?f = "environment_internal_error gs"
  obtain x b v where f: "unwrap_or_report_failure os (lift_io (find_resource a ?T n)) fd ?f (a, w) = (x, b, v)"
    by (cases "unwrap_or_report_failure os (lift_io (find_resource a ?T n)) fd ?f (a, w)")
  have "replies (trace u) = ?k" if "lift_io (find_resource a ?T n) (a, w) = (y, c, u)" for y c u
    using that keepsD [OF reply.find_resource_keeps [of ?k a ?T n], of w y u]
    by (auto simp: lift_io_def split: prod.splits)
  from unwrap_or_report_answers [OF f this] have first: "answered_on_failure fd ?k x v" .
  show ?thesis
  proof (cases x)
    case (Ok found)
    with first have v: "replies (trace v) = ?k" by (simp add: answered_on_failure_def)
    show ?thesis
    proof (cases found)
      case None
      with run Ok f have c: "unwrap_or_report_failure os (construct_in_shm os ?T n (init_mutex os gs)) fd ?f (b, v)
          = (r, a', w')"
        by (simp add: open_or_create_def Let_def bind_io_def get_self_def)
      show ?thesis
      proof (rule unwrap_or_report_answers [OF c])
        fix y c u assume run: "construct_in_shm os ?T n (init_mutex os gs) (b, v) = (y, c, u)"
        from keepsD [OF construct_reply _ run] v show "replies (trace u) = ?k" by simp
      qed
    next
      case (Some l)
      with run Ok f v show ?thesis
        by (auto simp: open_or_create_def Let_def bind_io_def get_self_def ret_def answered_on_failure_def)
    qed
  qed (use run f first in \<open>auto simp: open_or_create_def Let_def bind_io_def get_self_def answered_on_failure_def\<close>)
qed

lemma handle_open_mutex_answers:
  assumes run: "handle_open_mutex os gs n fd (a, w) = (r, a', w')" and "(\<exists>u. r = Ok u) \<or> (\<exists>es. r = Err es)"
  shows "replies (trace w') = replies (trace w) @ [fd]"
proof -
  obtain x b v where o: "open_or_create os gs n fd (a, w) = (x, b, v)"
    by (cases "open_or_create os gs n fd (a, w)")
  note o' = open_or_create_answers [OF o, unfolded answered_on_failure_def]
  show ?thesis
  proof (cases x)
    case (Ok l)
    with run o o' show ?thesis
      by (auto simp: handle_open_mutex_def unwrap_or_report_failure_def exec_defs sys_call_defs answer_def
          split: sum.splits)
  qed (use run o o' assms(2) in \<open>auto simp: handle_open_mutex_def bind_io_def\<close>)
qed

text \<open>
  The clients that get an answer to what was received from them: all, but for the malformed
  request whose answer the protocol's library cannot write down.
\<close>

definition unanswerable :: "garnshared \<Rightarrow> bytes \<Rightarrow> bool" where
  "unanswerable gs bs \<longleftrightarrow> request_in gs bs = None \<and> isl (serialize_environment gs EnvironmentMalformedRequest)"

lemma receive_answers:
  assumes run: "receive_and_parse_request os gs fd w = (r, w')"
  shows "replies (trace w') = replies (trace w)
      @ (case ask_bytes os (trace w) fd (environment_max_size gs) of
           Inl _ \<Rightarrow> []
         | Inr bs \<Rightarrow> if (\<exists>q. r = Ok q) \<or> unanswerable gs bs then [] else [fd])"
    and "r = Ok q \<Longrightarrow> \<exists>bs. ask_bytes os (trace w) fd (environment_max_size gs) = Inr bs"
    and "r = Ok q \<Longrightarrow> ask_bytes os (trace w) fd (environment_max_size gs) = Inr bs \<Longrightarrow> request_in gs bs \<noteq> None"
proof -
  show "replies (trace w') = replies (trace w)
      @ (case ask_bytes os (trace w) fd (environment_max_size gs) of
           Inl _ \<Rightarrow> []
         | Inr bs \<Rightarrow> if (\<exists>q. r = Ok q) \<or> unanswerable gs bs then [] else [fd])"
    using run
    by (auto simp: receive_and_parse_request_def parse_request_def reject_malformed_def exec_defs sys_call_defs
        answer_def unanswerable_def request_in_def split: sum.splits environment_request.splits)
  show "r = Ok q \<Longrightarrow> \<exists>bs. ask_bytes os (trace w) fd (environment_max_size gs) = Inr bs"
    using run
    by (auto simp: receive_and_parse_request_def parse_request_def reject_malformed_def exec_defs sys_call_defs
        answer_def split: sum.splits)
  show "r = Ok q \<Longrightarrow> ask_bytes os (trace w) fd (environment_max_size gs) = Inr bs \<Longrightarrow> request_in gs bs \<noteq> None"
    using run
    by (auto simp: receive_and_parse_request_def parse_request_def reject_malformed_def exec_defs sys_call_defs
        answer_def request_in_def split: sum.splits environment_request.splits)
qed

text \<open>
  C20: every request is answered once, whenever it can be. When an event of a client's socket has
  been handled and something could be received, exactly one message was sent, to that client: the mutex, the
  malformed-request response or the internal-error response. The one exception is a malformed
  request when the malformed-request response itself cannot be serialized: then, as when nothing could
  be received, no message was sent.
\<close>

theorem every_request_answered_once:
  assumes run: "(handle_event os gs ids epoll fuel ev :: (sync_state \<times> world, 'e, bool) io) (st, w)
      = (Ok b, st', w')"
    and special: "ev_data ev \<noteq> epoll_data (add_listener_event ids)" "ev_data ev \<noteq> epoll_data (drop_event ids)"
    and open_conn: "EPOLLRDHUP \<notin> ev_flags ev"
  shows "replies (trace w') = replies (trace w) @
    (case ask_bytes os (trace w) (data_fd (ev_data ev)) (environment_max_size gs) of
       Inl _ \<Rightarrow> [] | Inr bs \<Rightarrow> if unanswerable gs bs then [] else [data_fd (ev_data ev)])"
proof -
  let ?fd = "data_fd (ev_data ev)"
  have req: "(handle_request os gs ?fd :: (sync_state \<times> world, 'e, bool) io) (st, w) = (Ok b, st', w')"
    using run special open_conn by (simp add: handle_event_def handle_request_def Let_def)
  obtain x v where rcv: "receive_and_parse_request os gs ?fd w = (x, v)"
    by (cases "receive_and_parse_request os gs ?fd w")
  note got = receive_answers [OF rcv]
  have errs: "replies (trace u') = replies (trace u)"
    if "(send_all_errors os es :: ('e, unit) routine) u = (y, u')" for es u u' y
    using keepsD [OF errors_reply _ that] by simp
  show ?thesis
  proof (cases x)
    case (Ok q)
    obtain n where n: "q = OpenMutex n" by (cases q)
    obtain y a u where h: "handle_open_mutex os gs n ?fd (shm st, v) = (y, a, u)"
      by (cases "handle_open_mutex os gs n ?fd (shm st, v)")
    have y: "(\<exists>z. y = Ok z) \<or> (\<exists>es. y = Err es)"
      using req rcv Ok n h by (cases y) (auto simp: handle_request_def or_send_errors_def exec_defs on_shm_def)
    have told: "replies (trace w') = replies (trace u)"
      using req rcv Ok n h y by (auto simp: handle_request_def or_send_errors_def exec_defs on_shm_def
          split: prod.splits exec.splits dest: errs)
    from got(2) [OF Ok] obtain bs where bs: "ask_bytes os (trace w) ?fd (environment_max_size gs) = Inr bs" by blast
    have "\<not> unanswerable gs bs" using got(3) [OF Ok bs] by (simp add: unanswerable_def)
    with handle_open_mutex_answers [OF h y] got(1) Ok bs told show ?thesis by simp
  next
    case (Err es)
    have "replies (trace w') = replies (trace v)"
      using req rcv Err by (auto simp: handle_request_def or_send_errors_def exec_defs
          split: prod.splits exec.splits dest: errs)
    with got(1) Err show ?thesis by (auto split: sum.splits)
  qed (use req rcv in \<open>auto simp: handle_request_def or_send_errors_def exec_defs\<close>)
qed

theorem every_request_answered_once_witness:
  "\<exists>st w. (handle_event demo_sync_os demo_gs demo_ids 101 5 (EpollEvent {EPOLLIN} (epoll_data 50))
        :: (sync_state \<times> world, unit, bool) io) (\<lparr>sockets = {50}, shm = demo_alloc0\<rparr>, start_world) = (Ok False, st, w)
     \<and> replies (trace w) = [50]"
proof -
  let ?run = "(handle_event demo_sync_os demo_gs demo_ids 101 5 (EpollEvent {EPOLLIN} (epoll_data 50))
        :: (sync_state \<times> world, unit, bool) io) (\<lparr>sockets = {50}, shm = demo_alloc0\<rparr>, start_world)"
  obtain r st w where run: "?run = (r, st, w)" by (cases ?run)
  have "fst ?run = Ok False" by code_simp
  with run have r: "r = Ok False" by simp
  have ids: "ev_data (EpollEvent {EPOLLIN} (epoll_data 50)) \<noteq> epoll_data (add_listener_event demo_ids)"
    "ev_data (EpollEvent {EPOLLIN} (epoll_data 50)) \<noteq> epoll_data (drop_event demo_ids)"
    "EPOLLRDHUP \<notin> ev_flags (EpollEvent {EPOLLIN} (epoll_data 50))"
    by (simp_all add: demo_ids_def)
  have ok: "\<not> unanswerable demo_gs bs" for bs
    by (simp add: unanswerable_def demo_gs_def)
  have "ask_bytes demo_sync_os (trace start_world) 50 n = Inr (as_bytes ''Ma'')" for n
    by (simp add: demo_sync_os_def)
  then have "replies (trace w) = replies (trace start_world) @ [50]"
    using every_request_answered_once [OF run [unfolded r] ids] ok by simp
  then have "replies (trace w) = [50]" by (simp add: start_world_def)
  with run [unfolded r] show ?thesis by (intro exI conjI)
qed

end
