(* ===== verification/Environment.thy ===== *)
theory Environment imports Env_Ownership begin

text \<open>
  \<open>src/linux/environment.rs\<close>: the owner's handle of an environment, held by the welcome thread.
  The two eventfds are shared with the environment's thread through \<open>Arc\<close>; their descriptors are
  closed by whichever side drops its \<open>Arc\<close> last. The handle's drop joins the thread, so
  afterwards they are closed, and the model accounts the closing there. The two channels are
  the calls \<open>SendListener\<close> and \<open>RecvSyncResponse\<close>, named by the thread at their other end.
\<close>

record environment =
  e_add_listener_event :: raw_fd
  e_drop_event :: raw_fd
  e_thread :: thread_id

definition environment_new :: "os \<Rightarrow> string \<Rightarrow> (detailed_error, environment) routine" where
  "environment_new os name =
     bind_io (sys_fd os EventFdNew) (\<lambda>add_listener_event.
     on_exit_drop (close_fd add_listener_event)
       (bind_io (sys_fd os EventFdNew) (\<lambda>drop_event.
        on_exit_drop (close_fd drop_event)
          (bind_io (sys_spawn os (EnvironmentThread name)) (\<lambda>thread.
           ret \<lparr>e_add_listener_event = add_listener_event, e_drop_event = drop_event,
                e_thread = thread\<rparr>)))))"

definition insert_socket :: "os \<Rightarrow> environment \<Rightarrow> raw_fd \<Rightarrow> (detailed_error, unit) routine" where
  "insert_socket os self socket =
     bind_io (sys_bool os (SendListener (e_thread self) socket)) (\<lambda>delivered.
     bind_io (if delivered then ret () else throw SendError) (\<lambda>_.
     bind_io (sys_unit os (EventFdWrite (e_add_listener_event self) 1)) (\<lambda>_.
     bind_io (sys_sync os (e_thread self)) (\<lambda>response.
     case response of
       None \<Rightarrow> throw RecvError
     | Some (Inl e) \<Rightarrow> throw e
     | Some (Inr _) \<Rightarrow> ret ()))))"

text \<open>\<open>Drop::drop\<close>: tell the thread to end.\<close>

definition tell_to_end :: "os \<Rightarrow> garnshared \<Rightarrow> environment \<Rightarrow> ('e, unit) routine" where
  "tell_to_end os gs self =
     match_io (sys_unit os (EventFdWrite (e_drop_event self) 1))
       (\<lambda>e w. if panicking w
              then (Ok (), error_in_brittle_scenario os
                      (''Environment panicked while destructing: '' @ display_error (display_foreign gs) e) w)
              else panic w)
       ret"

text \<open>The whole drop: tell the thread, then drop the fields, the last of which joins it.\<close>

definition drop_fields :: "os \<Rightarrow> garnshared \<Rightarrow> environment \<Rightarrow> ('e, unit) routine" where
  "drop_fields os gs self =
     finally_drop (\<lambda>w. close_fd (e_drop_event self) (close_fd (e_add_listener_event self) w))
       (join_guard_drop os gs (e_thread self))"

definition environment_drop :: "os \<Rightarrow> garnshared \<Rightarrow> environment \<Rightarrow> ('e, unit) routine" where
  "environment_drop os gs self = with_drop (drop_fields os gs self) (tell_to_end os gs self)"

section \<open>What they call\<close>

text \<open>An environment is made with both descriptors and a thread, or nothing is left of it.\<close>

lemma environment_new_cases:
  assumes "environment_new os name w = (r, w')"
  obtains
    (no_add) e where "r = Err e" "trace w' = trace w @ [FdAns EventFdNew (Inl e)]"
  | (no_drop) add e where "r = Err e" "ask_fd os (trace w) EventFdNew = Inr add"
      "trace w' = trace w @ [FdAns EventFdNew (Inr add), FdAns EventFdNew (Inl e), Did (Close add)]"
  | (no_thread) add d e where "r = Err e" "ask_fd os (trace w) EventFdNew = Inr add"
      "ask_fd os (trace w @ [FdAns EventFdNew (Inr add)]) EventFdNew = Inr d"
      "trace w' = trace w @ [FdAns EventFdNew (Inr add), FdAns EventFdNew (Inr d),
         Spawn (EnvironmentThread name) (Inl e), Did (Close d), Did (Close add)]"
  | (made) env where "r = Ok env" "ask_fd os (trace w) EventFdNew = Inr (e_add_listener_event env)"
      "ask_fd os (trace w @ [FdAns EventFdNew (Inr (e_add_listener_event env))]) EventFdNew = Inr (e_drop_event env)"
      "trace w' = trace w @ [FdAns EventFdNew (Inr (e_add_listener_event env)),
         FdAns EventFdNew (Inr (e_drop_event env)), Spawn (EnvironmentThread name) (Inr (e_thread env))]"
      "ask_spawn os (trace w @ [FdAns EventFdNew (Inr (e_add_listener_event env)),
         FdAns EventFdNew (Inr (e_drop_event env))]) (EnvironmentThread name) = Inr (e_thread env)"
  using assms
  by (auto simp: environment_new_def exec_defs sys_call_defs answer_def split: sum.splits)
    (metis environment.select_convs)

lemma insert_socket_cases:
  assumes "insert_socket os env fd w = (r, w')"
  obtains
    (unsent) "r = Err SendError" "trace w' = trace w @ [BoolAns (SendListener (e_thread env) fd) False]"
  | (unnoticed) e where "r = Err e" "trace w' = trace w @ [BoolAns (SendListener (e_thread env) fd) True,
       UnitAns (EventFdWrite (e_add_listener_event env) 1) (Inl e)]"
  | (answered) x where "trace w' = trace w @ [BoolAns (SendListener (e_thread env) fd) True,
       UnitAns (EventFdWrite (e_add_listener_event env) 1) (Inr ()), RecvSyncResponse (e_thread env) x]"
      "r = (case x of None \<Rightarrow> Err RecvError | Some (Inl e) \<Rightarrow> Err e | Some (Inr u) \<Rightarrow> Ok u)"
proof -
  let ?s = "SendListener (e_thread env) fd" and ?e = "EventFdWrite (e_add_listener_event env) 1"
  show thesis
  proof (cases "ask_bool os (trace w) ?s")
    case False
    with assms show thesis
      by (intro unsent) (auto simp: insert_socket_def exec_defs sys_call_defs)
  next
    case True
    show thesis
    proof (cases "ask_unit os (trace w @ [BoolAns ?s True]) ?e")
      case (Inl e)
      with assms True show thesis
        by (intro unnoticed [of e]) (auto simp: insert_socket_def exec_defs sys_call_defs)
    next
      case (Inr u)
      define x where "x = ask_sync os (trace w @ [BoolAns ?s True, UnitAns ?e (Inr ())]) (e_thread env)"
      show thesis
        by (rule answered [of x]) (use assms True Inr in
          \<open>auto simp: insert_socket_def exec_defs sys_call_defs x_def [symmetric] split: option.splits sum.splits\<close>)
    qed
  qed
qed

text \<open>
  Dropping an environment always runs to its end: the thread is told to end, joined, and the two
  descriptors are closed. It panics exactly if the order could not be given or the thread has
  panicked, and never while unwinding.
\<close>

definition is_stderr :: "event \<Rightarrow> bool" where
  "is_stderr e \<longleftrightarrow> (\<exists>s. e = Did (Stderr s))"

definition drop_trace :: "environment \<Rightarrow> detailed_error + unit \<Rightarrow> bool \<Rightarrow> event list \<Rightarrow> event list \<Rightarrow> event list" where
  "drop_trace env x b ms ns =
     UnitAns (EventFdWrite (e_drop_event env) 1) x # ms @ BoolAns (Join (e_thread env)) b # ns
       @ [Did (Close (e_add_listener_event env)), Did (Close (e_drop_event env))]"

lemma tell_to_end_result:
  assumes "tell_to_end os gs env w = (r :: ('e, unit) exec, w')"
  shows "\<exists>x ms. trace w' = trace w @ UnitAns (EventFdWrite (e_drop_event env) 1) x # ms \<and> list_all is_stderr ms
    \<and> panicking w' = panicking w \<and> r = (if x = Inr () \<or> panicking w then Ok () else Panic)"
proof -
  define x where "x = ask_unit os (trace w) (EventFdWrite (e_drop_event env) 1)"
  show ?thesis
    by (rule exI [of _ x], cases x)
      (use assms in \<open>auto simp: tell_to_end_def exec_defs sys_call_defs is_stderr_def x_def [symmetric] split: if_splits\<close>)
qed

lemma drop_fields_result:
  assumes "drop_fields os gs env w = (r :: ('e, unit) exec, w')"
  shows "\<exists>b ns. trace w' = trace w @ BoolAns (Join (e_thread env)) b # ns
      @ [Did (Close (e_add_listener_event env)), Did (Close (e_drop_event env))]
    \<and> list_all is_stderr ns \<and> panicking w' = panicking w \<and> r = (if b \<or> panicking w then Ok () else Panic)"
proof -
  define b where "b = ask_bool os (trace w) (Join (e_thread env))"
  show ?thesis
    by (rule exI [of _ b])
      (use assms in \<open>auto simp: drop_fields_def join_guard_drop_def exec_defs sys_call_defs is_stderr_def
         b_def [symmetric] split: if_splits\<close>)
qed

lemma environment_drop_result:
  assumes run: "environment_drop os gs env w = (r :: ('e, unit) exec, w')"
  shows "\<exists>x b ms ns. trace w' = trace w @ drop_trace env x b ms ns \<and> list_all is_stderr ms \<and> list_all is_stderr ns
    \<and> r = (if panicking w \<or> x = Inr () \<and> b then Ok () else Panic)
    \<and> (r = Ok () \<longrightarrow> panicking w' = panicking w)"
proof -
  obtain y v where t: "tell_to_end os gs env w = (y :: ('e, unit) exec, v)"
    by (cases "tell_to_end os gs env w :: ('e, unit) exec \<times> world")
  from tell_to_end_result [OF t] obtain x ms where
    x: "trace v = trace w @ UnitAns (EventFdWrite (e_drop_event env) 1) x # ms" "list_all is_stderr ms"
      "panicking v = panicking w" "y = (if x = Inr () \<or> panicking w then Ok () else Panic)"
    by blast
  let ?v = "if y = Panic then v\<lparr>panicking := True\<rparr> else v"
  obtain z u where f: "drop_fields os gs env ?v = (z :: ('e, unit) exec, u)"
    by (cases "drop_fields os gs env ?v :: ('e, unit) exec \<times> world")
  from drop_fields_result [OF f] obtain b ns where
    b: "trace u = trace v @ BoolAns (Join (e_thread env)) b # ns
         @ [Did (Close (e_add_listener_event env)), Did (Close (e_drop_event env))]"
      "list_all is_stderr ns" "panicking u = panicking ?v" "z = (if b \<or> panicking ?v then Ok () else Panic)"
    by (auto split: if_splits)
  have "w' = u \<and> r = (if y = Panic then Panic else z)"
    using run t f x(4) b(4) by (auto simp: environment_drop_def with_drop_def exec_defs split: if_splits)
  then show ?thesis
    using x b by (intro exI [of _ x] exI [of _ b] exI [of _ ms] exI [of _ ns])
      (auto simp: drop_trace_def split: if_splits)
qed

text \<open>Their descriptors.\<close>

lemma owns_quiet: "owns S tr \<Longrightarrow> list_all (\<lambda>e. \<not> moves_fd e) es \<Longrightarrow> owns S (tr @ es)"
  by (induction es arbitrary: tr) (simp, force simp: fds.snoc dest: fds.snoc)

lemma stderr_quiet: "list_all is_stderr es \<Longrightarrow> list_all (\<lambda>e. \<not> moves_fd e) es"
  by (induction es) (auto simp: is_stderr_def)

definition env_fds :: "environment \<Rightarrow> raw_fd set" where
  "env_fds env = {e_add_listener_event env, e_drop_event env}"

lemma environment_new_owns:
  assumes run: "environment_new os name w = (r, w')" and os: "fresh_fds os" and own: "owns S (trace w)"
  shows "(\<exists>env. r = Ok env \<and> owns (S \<union> env_fds env) (trace w') \<and> S \<inter> env_fds env = {}
            \<and> e_add_listener_event env \<noteq> e_drop_event env)
    \<or> (\<exists>e. r = Err e) \<and> owns S (trace w')"
  using run
proof (cases rule: environment_new_cases)
  case (no_add e)
  with owns_log [OF own] show ?thesis by simp
next
  case (no_drop add e)
  have new: "add \<notin> S" using fresh_fdsD [OF os no_drop(2)] own by (simp add: owns_def)
  have "owns (insert add S) (trace w @ [FdAns EventFdNew (Inr add), FdAns EventFdNew (Inl e)])"
    using owns_log [OF owns_new(1) [OF own], of "FdAns EventFdNew (Inl e)"] by simp
  from owns_close [OF this, of add] new no_drop show ?thesis by simp
next
  case (no_thread add d e)
  let ?tr = "trace w @ [FdAns EventFdNew (Inr add)]"
  have new: "add \<notin> S" using fresh_fdsD [OF os no_thread(2)] own by (simp add: owns_def)
  have o1: "owns (insert add S) ?tr" by (rule owns_new(1) [OF own])
  have new2: "d \<notin> insert add S" using fresh_fdsD [OF os no_thread(3)] o1 by (simp add: owns_def)
  have "owns (insert d (insert add S)) (?tr @ [FdAns EventFdNew (Inr d)] @ [Spawn (EnvironmentThread name) (Inl e)])"
    using owns_log [OF owns_new(1) [OF o1], of "Spawn (EnvironmentThread name) (Inl e)"] by simp
  from owns_close [OF owns_close [OF this, of d], of add] new2
  have "owns (insert d (insert add S) - {d} - {add}) (trace w')" by (auto simp: no_thread(4))
  moreover have "insert d (insert add S) - {d} - {add} = S" using new new2 by auto
  ultimately show ?thesis using no_thread(1) by simp
next
  case (made env)
  let ?tr = "trace w @ [FdAns EventFdNew (Inr (e_add_listener_event env))]"
  have new: "e_add_listener_event env \<notin> S" using fresh_fdsD [OF os made(2)] own by (simp add: owns_def)
  have o1: "owns (insert (e_add_listener_event env) S) ?tr" by (rule owns_new(1) [OF own])
  have new2: "e_drop_event env \<notin> insert (e_add_listener_event env) S"
    using fresh_fdsD [OF os made(3)] o1 by (simp add: owns_def)
  have "owns (insert (e_drop_event env) (insert (e_add_listener_event env) S)) (trace w')"
    using owns_log [OF owns_new(1) [OF o1], of "Spawn (EnvironmentThread name) (Inr (e_thread env))"] made(4) by simp
  moreover have "insert (e_drop_event env) (insert (e_add_listener_event env) S) = S \<union> env_fds env"
    by (auto simp: env_fds_def)
  ultimately show ?thesis using new new2 made(1) by (auto simp: env_fds_def)
qed

lemma insert_socket_owns:
  assumes run: "insert_socket os env fd w = (r, w')" and own: "owns S (trace w)"
  shows "owns (S - {fd}) (trace w')"
proof -
  have sent: "owns (S - {fd}) (tr @ [BoolAns (SendListener t fd) b])" if "owns S tr" for tr t b
    using that by (simp add: owns_def trace_simps)
  from run show ?thesis
  proof (cases rule: insert_socket_cases)
    case unsent
    then show ?thesis using sent [OF own] by simp
  next
    case (unnoticed e)
    then show ?thesis using owns_quiet [OF sent [OF own], of "[UnitAns (EventFdWrite (e_add_listener_event env) 1) (Inl e)]"]
      by simp
  next
    case (answered x)
    then show ?thesis using owns_quiet [OF sent [OF own], of
      "[UnitAns (EventFdWrite (e_add_listener_event env) 1) (Inr ()), RecvSyncResponse (e_thread env) x]"]
      by simp
  qed
qed

lemma environment_drop_owns:
  assumes run: "environment_drop os gs env w = (r :: ('e, unit) exec, w')" and own: "owns S (trace w)"
    and sub: "env_fds env \<subseteq> S" and ne: "e_add_listener_event env \<noteq> e_drop_event env"
  shows "owns (S - env_fds env) (trace w')"
proof -
  from environment_drop_result [OF run] obtain x b ms ns where
    tr: "trace w' = trace w @ drop_trace env x b ms ns" "list_all is_stderr ms" "list_all is_stderr ns"
    by blast
  have "owns S (trace w @ UnitAns (EventFdWrite (e_drop_event env) 1) x # ms @ BoolAns (Join (e_thread env)) b # ns)"
    by (rule owns_quiet [OF own]) (simp add: stderr_quiet tr)
  from owns_close [OF owns_close [OF this, of "e_add_listener_event env"], of "e_drop_event env"] sub ne
  have "owns (S - {e_add_listener_event env} - {e_drop_event env}) (trace w')"
    by (simp add: tr(1) drop_trace_def env_fds_def)
  moreover have "S - {e_add_listener_event env} - {e_drop_event env} = S - env_fds env"
    by (auto simp: env_fds_def)
  ultimately show ?thesis by simp
qed

text \<open>
  C34: dropping an environment joins its thread. Whatever fails on the way, the thread is told to
  end, then joined, and then both descriptors are closed; a failure to tell it or a panic of the
  thread is passed on as a panic, except while the owner is itself unwinding.
\<close>

theorem environment_drop_joins:
  assumes "environment_drop os gs env w = (r :: ('e, unit) exec, w')"
  shows "\<exists>x b ms ns. trace w' = trace w @ UnitAns (EventFdWrite (e_drop_event env) 1) x # ms
      @ BoolAns (Join (e_thread env)) b # ns
      @ [Did (Close (e_add_listener_event env)), Did (Close (e_drop_event env))]
    \<and> list_all is_stderr (ms @ ns)
    \<and> r = (if panicking w \<or> x = Inr () \<and> b then Ok () else Panic)"
  using environment_drop_result [OF assms] unfolding drop_trace_def by fastforce

definition demo_env :: environment where
  "demo_env = \<lparr>e_add_listener_event = 20, e_drop_event = 21, e_thread = 3\<rparr>"

definition demo_panicked_os :: os where
  "demo_panicked_os = calm_os\<lparr>ask_bool := (\<lambda>tr c. case c of Join _ \<Rightarrow> False | _ \<Rightarrow> True)\<rparr>"

theorem environment_drop_joins_witness:
  "(fst (environment_drop demo_panicked_os demo_gs demo_env start_world) :: (unit, unit) exec) = Panic"
proof -
  obtain r w where run: "environment_drop demo_panicked_os demo_gs demo_env start_world = (r :: (unit, unit) exec, w)"
    by (cases "environment_drop demo_panicked_os demo_gs demo_env start_world :: (unit, unit) exec \<times> world")
  have joined: "BoolAns (Join 3) b \<in> set (trace w) \<Longrightarrow> \<not> b" for b
    using run by (auto simp: environment_drop_def with_drop_def drop_fields_def tell_to_end_def join_guard_drop_def
        exec_defs sys_call_defs demo_panicked_os_def demo_env_def calm_os_def start_world_def answer_def)
  from environment_drop_joins [OF run] obtain x b ms ns where
    tr: "trace w = trace start_world @ UnitAns (EventFdWrite (e_drop_event demo_env) 1) x # ms
        @ BoolAns (Join (e_thread demo_env)) b # ns
        @ [Did (Close (e_add_listener_event demo_env)), Did (Close (e_drop_event demo_env))]"
    and r: "r = (if panicking start_world \<or> x = Inr () \<and> b then Ok () else Panic)"
    by blast
  have "\<not> b" using joined [of b] tr by (simp add: demo_env_def)
  with r have "r = Panic" by (simp add: start_world_def)
  with run show ?thesis by simp
qed

end
