(* ===== verification/Welcome.thy ===== *)
theory Welcome imports Environment begin

text \<open>
  \<open>src/linux/welcome_thread.rs\<close>: the thread that accepts clients and hands each to the environment
  it names, making environments on demand. Its state is the map of environments; the loop polls
  four descriptors, in order of precedence shutdown, reload, the environments' announcements
  that they have ended, and the welcome socket.
\<close>

section \<open>Requests\<close>

definition welcome_receive_and_parse_request ::
  "os \<Rightarrow> garnshared \<Rightarrow> raw_fd \<Rightarrow> (detailed_error list, raw_fd \<times> welcome_request) routine" where
  "welcome_receive_and_parse_request os gs welcome_socket =
     bind_io (map_err (\<lambda>e. [e]) (sys_fd os (Accept welcome_socket))) (\<lambda>client_fd.
     on_exit_drop (close_fd client_fd)
       (bind_io (map_err (\<lambda>e. [e]) (sys_uid os client_fd)) (\<lambda>uid.
        if uid = 0 then throw [IgnoredRootRequestError]
        else bind_io
               (parse_request os (welcome_max_size gs) (deserialize_welcome gs)
                  (serialize_welcome gs WelcomeMalformedRequest) client_fd)
               (\<lambda>request. ret (client_fd, request)))))"

type_synonym environments = "string \<rightharpoonup> environment"

text \<open>
  \<open>handle_open_environment\<close> owns the client's socket and closes it on every way out; the
  environment gets a duplicate. A new environment is registered only after it has acknowledged
  the socket, and is dropped (its thread joined) if it does not.
\<close>

definition open_vacant ::
  "os \<Rightarrow> garnshared \<Rightarrow> string \<Rightarrow> raw_fd \<Rightarrow> raw_fd \<Rightarrow> (environments \<times> world, detailed_error list, unit) io" where
  "open_vacant os gs name client_fd passed_off_fd =
     bind_io
       (on_exit_drop (apsnd (close_fd passed_off_fd))
          (unwrap_or_report_failure os (lift_io (environment_new os name)) client_fd
             (welcome_internal_error gs)))
       (\<lambda>res.
     bind_io
       (drop_on_exit (environment_drop os gs res)
          (unwrap_or_report_failure os (lift_io (insert_socket os res passed_off_fd)) client_fd
             (welcome_internal_error gs)))
       (\<lambda>_. set_self (\<lambda>environments. environments(name \<mapsto> res))))"

definition handle_open_environment ::
  "os \<Rightarrow> garnshared \<Rightarrow> string \<Rightarrow> raw_fd \<Rightarrow> (environments \<times> world, detailed_error list, unit) io" where
  "handle_open_environment os gs name client_fd =
     (let failure = welcome_internal_error gs
      in finally_drop (apsnd (close_fd client_fd))
           (bind_io (unwrap_or_report_failure os (lift_io (sys_fd os (Dup client_fd))) client_fd failure)
              (\<lambda>passed_off_fd.
            bind_io get_self (\<lambda>environments.
            bind_io
              (case environments name of
                 None \<Rightarrow> open_vacant os gs name client_fd passed_off_fd
               | Some env \<Rightarrow>
                   unwrap_or_report_failure os (lift_io (insert_socket os env passed_off_fd)) client_fd failure)
              (\<lambda>_.
            bind_io
              (unwrap_or_report_failure os (lift_io (pure_io (serialize_welcome gs OpenEnvironmentOk)))
                 client_fd failure)
              (\<lambda>response.
            bind_io (map_err (\<lambda>e. [e]) (lift_io (sys_num os (Send client_fd (as_bytes response)))))
              (\<lambda>_. ret ())))))))"

section \<open>The event loop\<close>

definition any_event :: "revents \<Rightarrow> bool" where
  "any_event r = (case r of None \<Rightarrow> False | Some flags \<Rightarrow> flags \<noteq> {})"

definition read_event :: "os \<Rightarrow> raw_fd \<Rightarrow> ('e, unit) routine" where
  "read_event os fd =
     match_io (sys_num os (EventFdRead fd)) (\<lambda>e. send_error os e) (\<lambda>_. ret ())"

text \<open>
  One turn of the loop that takes the ended environments' names: \<open>remove\<close> drops the
  environment, so its thread is joined.
\<close>

definition close_turn :: "os \<Rightarrow> garnshared \<Rightarrow> unit \<Rightarrow> (environments \<times> world, 'e, (unit, unit) turn) io" where
  "close_turn os gs _ =
     bind_io (lift_io (sys_closed_name os)) (\<lambda>recv_res.
     case recv_res of
       Received name \<Rightarrow>
         bind_io get_self (\<lambda>environments.
         case environments name of
           None \<Rightarrow> ret (Next ())
         | Some env \<Rightarrow>
             bind_io (set_self (\<lambda>environments. environments(name := None))) (\<lambda>_.
             bind_io (lift_io (environment_drop os gs env)) (\<lambda>_. ret (Next ()))))
     | Empty \<Rightarrow> ret (Stop ())
     | Disconnected \<Rightarrow> bind_io (lift_io (send_error os TryRecvDisconnected)) (\<lambda>_. ret (Next ())))"

definition close_environments ::
  "os \<Rightarrow> garnshared \<Rightarrow> raw_fd \<Rightarrow> nat \<Rightarrow> (environments \<times> world, 'e, unit) io" where
  "close_environments os gs close_event fuel =
     bind_io (lift_io (read_event os close_event)) (\<lambda>_. run_loop fuel (close_turn os gs) ())"

text \<open>The part of a turn that deals with the welcome socket.\<close>

definition handle_welcome ::
  "os \<Rightarrow> garnshared \<Rightarrow> raw_fd \<Rightarrow> revents \<Rightarrow> (environments \<times> world, 'e, (unit, unit) turn) io" where
  "handle_welcome os gs welcome_socket poll_welcome =
     (if \<not> any_event poll_welcome then ret (Next ())
      else bind_io (unwrap poll_welcome) (\<lambda>revents.
           if POLLIN \<notin> revents
           then bind_io (lift_io (send_error os (RuntimeError WelcomeSocketFailed))) (\<lambda>_.
                bind_io (lift_io (send_error os ShutdownSignal)) (\<lambda>_. ret (Next ())))
           else or_send_errors os (lift_io (welcome_receive_and_parse_request os gs welcome_socket)) (Next ())
                  (\<lambda>(client_fd, request).
                    case request of
                      OpenEnvironment name \<Rightarrow>
                        or_send_errors os (handle_open_environment os gs name client_fd) (Next ())
                          (\<lambda>_. ret (Next ())))))"

record welcome_fds =
  w_socket :: raw_fd
  w_shutdown_event :: raw_fd
  w_reload_event :: raw_fd

definition signal_end :: "os \<Rightarrow> detailed_error \<Rightarrow> (environments \<times> world, 'e, (unit, unit) turn) io" where
  "signal_end os signal = bind_io (lift_io (send_error os signal)) (\<lambda>_. ret (Stop ()))"

definition welcome_turn ::
  "os \<Rightarrow> garnshared \<Rightarrow> welcome_fds \<Rightarrow> raw_fd \<Rightarrow> nat \<Rightarrow> unit
    \<Rightarrow> (environments \<times> world, 'e, (unit, unit) turn) io" where
  "welcome_turn os gs fds close_event fuel _ =
     match_io (lift_io (sys_poll os [w_shutdown_event fds, w_reload_event fds, close_event, w_socket fds]))
       (\<lambda>e. bind_io (lift_io (send_error os e)) (\<lambda>_. signal_end os ReloadRequest))
       (\<lambda>(poll_shutdown, poll_reload, poll_close_env, poll_welcome).
          if any_event poll_shutdown
          then bind_io (lift_io (read_event os (w_shutdown_event fds))) (\<lambda>_. signal_end os ShutdownSignal)
          else if any_event poll_reload
          then bind_io (lift_io (read_event os (w_reload_event fds))) (\<lambda>_. signal_end os ReloadRequest)
          else bind_io
                 (if any_event poll_close_env then close_environments os gs close_event fuel else ret ())
                 (\<lambda>_. handle_welcome os gs (w_socket fds) poll_welcome))"

section \<open>The thread\<close>

text \<open>
  The \<open>HashMap\<close> is dropped in an order of its own. Should the drop of one environment panic, the
  map's drop is left and the others are not dropped; while the thread is unwinding none panics.
\<close>

type_synonym env_order = "environments \<Rightarrow> (string \<times> environment) list"

definition enumerates_envs :: "env_order \<Rightarrow> environments \<Rightarrow> bool" where
  "enumerates_envs order m \<longleftrightarrow> distinct (map fst (order m)) \<and> map_of (order m) = m"

fun drop_environments :: "os \<Rightarrow> garnshared \<Rightarrow> (string \<times> environment) list \<Rightarrow> ('e, unit) routine" where
  "drop_environments os gs [] = ret ()"
| "drop_environments os gs ((_, env) # envs) =
     bind_io (environment_drop os gs env) (\<lambda>_. drop_environments os gs envs)"

text \<open>
  The channel and the close event are dropped before the map, but the threads of the
  environments hold the event too; it is closed when the last of them is joined.
\<close>

definition welcome_drop ::
  "os \<Rightarrow> garnshared \<Rightarrow> env_order \<Rightarrow> raw_fd \<Rightarrow> environments \<Rightarrow> ('e, unit) routine" where
  "welcome_drop os gs order close_event environments =
     finally_drop (close_fd close_event) (drop_environments os gs (order environments))"

definition welcome_loop ::
  "os \<Rightarrow> garnshared \<Rightarrow> env_order \<Rightarrow> welcome_fds \<Rightarrow> raw_fd \<Rightarrow> nat \<Rightarrow> ('e, unit) routine" where
  "welcome_loop os gs order fds close_event fuel w =
     (case run_loop fuel (welcome_turn os gs fds close_event fuel) () (Map.empty, w) of
        (r, environments, w') \<Rightarrow> with_drop (welcome_drop os gs order close_event environments) (Pair r) w')"

definition fail_and_reload :: "os \<Rightarrow> detailed_error \<Rightarrow> ('e, unit) routine" where
  "fail_and_reload os e = bind_io (send_error os e) (\<lambda>_. send_error os ReloadRequest)"

definition welcome_thread_main ::
  "os \<Rightarrow> garnshared \<Rightarrow> env_order \<Rightarrow> welcome_fds \<Rightarrow> nat \<Rightarrow> ('e, unit) routine" where
  "welcome_thread_main os gs order fds fuel =
     finally_drop (close_fd (w_socket fds))
       (match_io (sys_fd os EventFdNew)
          (fail_and_reload os)
          (\<lambda>close_event.
             match_io (sys_unit os (Listen (w_socket fds)))
               (\<lambda>e. with_drop (welcome_drop os gs order close_event Map.empty) (fail_and_reload os e))
               (\<lambda>_. welcome_loop os gs order fds close_event fuel)))"

end
