(* ===== verification/Registry.thy ===== *)
theory Registry imports Welcome begin

text \<open>
  What the welcome thread promises to its clients and to the main thread: it talks to no process of
  root's, and it says why it ends. Also what happens when its socket breaks. The theory holds the
  lemmas on the calls of each part of the thread, which \<open>Dispatch\<close> and \<open>Welcome_Promises\<close> use for
  the other promises.
\<close>

section \<open>A run to apply the theorems to\<close>

text \<open>Two clients ask for the environment ''a''; the environment ends; the daemon is shut down.\<close>

fun polls :: "event list \<Rightarrow> nat" where
  "polls [] = 0"
| "polls (Poll _ _ # es) = Suc (polls es)"
| "polls (_ # es) = polls es"

fun names_taken :: "event list \<Rightarrow> nat" where
  "names_taken [] = 0"
| "names_taken (RecvClosedName _ # es) = Suc (names_taken es)"
| "names_taken (_ # es) = names_taken es"

definition demo_welcome_os :: os where
  "demo_welcome_os = calm_os\<lparr>
     ask_poll := (\<lambda>tr fds.
       if polls tr < 2 then Inr (Some {}, Some {}, Some {}, Some {POLLIN})
       else if polls tr = 2 then Inr (Some {}, Some {}, Some {POLLIN}, Some {})
       else Inr (Some {POLLIN}, Some {}, Some {}, Some {})),
     ask_bytes := (\<lambda>tr fd n. Inr (as_bytes ''Ea'')),
     ask_name := (\<lambda>tr. if names_taken tr = 0 then Received ''a'' else Empty)\<rparr>"

definition demo_fds_of :: welcome_fds where
  "demo_fds_of = \<lparr>w_socket = 3, w_shutdown_event = 4, w_reload_event = 5\<rparr>"

definition demo_env_order :: env_order where
  "demo_env_order m = map (\<lambda>n. (n, the (m n))) (filter (\<lambda>n. m n \<noteq> None) [''a'', ''b''])"

definition demo_welcome :: "(unit, unit) exec \<times> world" where
  "demo_welcome = welcome_thread_main demo_welcome_os demo_gs demo_env_order demo_fds_of 5
     (log_event (FdAns SocketNew (Inr 3)) start_world)"

section \<open>The calls of the parts\<close>

context trace_invariant
begin

lemma environment_new_calls:
  assumes "\<And>r. q (FdAns EventFdNew r)" "\<And>r. q (Spawn (EnvironmentThread name) r)" "\<And>fd. q (Did (Close fd))"
  shows "keeps I (environment_new os name)"
  unfolding environment_new_def
  by (intro keeps_bind keeps_on_exit keeps_pure answers assms) (simp_all add: snoc assms)

lemma insert_socket_calls:
  assumes "\<And>r. q (BoolAns (SendListener (e_thread env) fd) r)" "\<And>r. q (RecvSyncResponse (e_thread env) r)"
    "\<And>r. q (UnitAns (EventFdWrite (e_add_listener_event env) 1) r)"
  shows "keeps I (insert_socket os env fd)"
  unfolding insert_socket_def
  by (intro keeps_bind keeps_if keeps_pure keeps_case_option keeps_case_sum answers assms)

lemma environment_drop_calls:
  assumes "\<And>r. q (UnitAns (EventFdWrite (e_drop_event env) 1) r)" "\<And>r. q (BoolAns (Join (e_thread env)) r)"
    "\<And>fd. q (Did (Close fd))" "\<And>s. q (Did (Stderr s))"
  shows "keeps I (environment_drop os gs env :: ('e, unit) routine)"
proof (rule keepsI)
  fix w r w' assume I: "I w" and run: "environment_drop os gs env w = (r :: ('e, unit) exec, w')"
  from environment_drop_result [OF run] obtain x b ms ns where
    tr: "trace w' = trace w @ drop_trace env x b ms ns" "list_all is_stderr ms" "list_all is_stderr ns"
    by blast
  have std: "list_all q es" if "list_all is_stderr es" for es
    using that by (induction es) (auto simp: is_stderr_def assms(4))
  have "extends (trace w) q (trace w')"
    using tr by (auto simp: extends_def drop_trace_def assms std)
  from extends_keeps [OF this I] show "I w'" .
qed

lemma drop_environments_calls:
  assumes "\<And>fd r. q (UnitAns (EventFdWrite fd 1) r)" "\<And>t r. q (BoolAns (Join t) r)"
    "\<And>fd. q (Did (Close fd))" "\<And>s. q (Did (Stderr s))"
  shows "keeps I (drop_environments os gs envs :: ('e, unit) routine)"
proof (induction envs)
  case (Cons x envs)
  then show ?case
    by (cases x) (auto intro!: keeps_bind environment_drop_calls assms)
qed (simp add: keeps_pure)

lemma welcome_drop_calls:
  assumes "\<And>fd r. q (UnitAns (EventFdWrite fd 1) r)" "\<And>t r. q (BoolAns (Join t) r)"
    "\<And>fd. q (Did (Close fd))" "\<And>s. q (Did (Stderr s))"
  shows "keeps I (welcome_drop os gs order c envs :: ('e, unit) routine)"
  unfolding welcome_drop_def
  by (intro keeps_finally drop_environments_calls assms) (simp add: snoc assms)

lemma read_event_calls:
  assumes "\<And>r. q (NumAns (EventFdRead fd) r)" "\<And>e r. q (BoolAns (SendToMain e) r)"
  shows "keeps I (read_event os fd :: ('e, unit) routine)"
  unfolding read_event_def by (intro keeps_match answers reports keeps_pure assms)

lemma close_environments_calls:
  assumes "\<And>fd r. q (NumAns (EventFdRead fd) r)" "\<And>e r. q (BoolAns (SendToMain e) r)"
    "\<And>r. q (RecvClosedName r)"
    "\<And>fd r. q (UnitAns (EventFdWrite fd 1) r)" "\<And>t r. q (BoolAns (Join t) r)"
    "\<And>fd. q (Did (Close fd))" "\<And>s. q (Did (Stderr s))"
  shows "keeps (\<lambda>sw. I (snd sw)) (close_environments os gs c fuel :: (environments \<times> world, 'e, unit) io)"
proof -
  have drops: "keeps I (environment_drop os gs env :: ('e, unit) routine)" for env
    by (rule environment_drop_calls; rule assms)
  have name: "keeps I (sys_closed_name os :: ('e, string try_recv) routine)"
    by (rule answers, rule assms)
  have send: "keeps I (send_error os e :: ('e, unit) routine)" for e
    by (rule reports, rule assms)
  have read: "keeps I (read_event os c :: ('e, unit) routine)"
    by (rule read_event_calls; rule assms)
  have turn: "keeps (\<lambda>sw. I (snd sw)) (close_turn os gs u :: (environments \<times> world, 'e, (unit, unit) turn) io)" for u
    unfolding close_turn_def
    by (intro keeps_bind keeps_lift keeps_case_try_recv keeps_self keeps_case_option keeps_pure)
      (simp_all add: drops name send)
  show ?thesis
    unfolding close_environments_def
    by (intro keeps_bind keeps_lift keeps_run_loop turn) (simp add: read)
qed

text \<open>A predicate that every turn keeps is kept by the whole thread.\<close>

lemma welcome_thread_calls:
  assumes turn: "\<And>c u. keeps (\<lambda>sw. I (snd sw)) (welcome_turn os gs fds c fuel u :: (environments \<times> world, 'e, (unit, unit) turn) io)"
    and "\<And>r. q (FdAns EventFdNew r)" "\<And>r. q (UnitAns (Listen (w_socket fds)) r)" "\<And>e r. q (BoolAns (SendToMain e) r)"
    "\<And>fd r. q (UnitAns (EventFdWrite fd 1) r)" "\<And>t r. q (BoolAns (Join t) r)" "\<And>fd. q (Did (Close fd))" "\<And>s. q (Did (Stderr s))"
  shows "keeps I (welcome_thread_main os gs order fds fuel :: ('e, unit) routine)"
proof -
  have drops: "keeps I (welcome_drop os gs order c envs :: ('e, unit) routine)" for c envs
    by (rule welcome_drop_calls; rule assms)
  have fails: "keeps I (fail_and_reload os e :: ('e, unit) routine)" for e
    unfolding fail_and_reload_def by (intro keeps_bind reports assms)
  have loop: "keeps I (welcome_loop os gs order fds c fuel :: ('e, unit) routine)" for c
  proof (rule keepsI)
    fix w r w' assume w: "I w" and run: "(welcome_loop os gs order fds c fuel :: ('e, unit) routine) w = (r, w')"
    obtain x envs v where l: "(run_loop fuel (welcome_turn os gs fds c fuel) () (Map.empty, w)
        :: ('e, unit) exec \<times> environments \<times> world) = (x, envs, v)"
      by (cases "run_loop fuel (welcome_turn os gs fds c fuel) () (Map.empty, w)
        :: ('e, unit) exec \<times> environments \<times> world")
    have v: "I v" using keepsD [OF keeps_run_loop [OF turn] _ l] w by simp
    have "keeps I (with_drop (welcome_drop os gs order c envs) (Pair x) :: ('e, unit) routine)"
      by (intro keeps_with_drop drops) (simp_all add: keeps_def)
    from keepsD [OF this v] run l show "I w'" by (simp add: welcome_loop_def)
  qed
  show ?thesis
    unfolding welcome_thread_main_def
    by (intro keeps_finally keeps_match keeps_with_drop drops fails loop answers assms) (simp_all add: snoc assms)
qed

end

section \<open>Root is never talked to\<close>

text \<open>
  Read off a trace: the clients whose credentials were read since they were accepted and are not
  root's; and whether every message went to, or came from, one of them.
\<close>

fun vet :: "event \<Rightarrow> raw_fd set \<Rightarrow> raw_fd set" where
  "vet (FdAns (Accept _) (Inr fd)) S = S - {fd}"
| "vet (PeerUid fd (Inr u)) S = (if u = 0 then S - {fd} else insert fd S)"
| "vet _ S = S"

fun talks_to :: "event \<Rightarrow> raw_fd option" where
  "talks_to (Recv fd _ _) = Some fd"
| "talks_to (NumAns (Send fd _) _) = Some fd"
| "talks_to (NumAns (SendMsg fd _ _) _) = Some fd"
| "talks_to (FdAns (Dup fd) _) = Some fd"
| "talks_to _ = None"

definition vetted :: "event list \<Rightarrow> raw_fd set" where
  "vetted tr = fold vet tr {}"

fun talks_only_to :: "raw_fd set \<Rightarrow> event list \<Rightarrow> bool" where
  "talks_only_to S [] \<longleftrightarrow> True"
| "talks_only_to S (e # es) \<longleftrightarrow>
     set_option (talks_to e) \<subseteq> S \<and> talks_only_to (vet e S) es"

definition only_vetted :: "event list \<Rightarrow> bool" where
  "only_vetted tr = talks_only_to {} tr"

lemma vetted_snoc: "vetted (tr @ [e]) = vet e (vetted tr)"
  by (simp add: vetted_def)

lemma only_vetted_snoc:
  "only_vetted (tr @ [e]) \<longleftrightarrow>
     only_vetted tr \<and> set_option (talks_to e) \<subseteq> vetted tr"
proof -
  have "talks_only_to S (tr @ [e]) \<longleftrightarrow>
      talks_only_to S tr \<and> set_option (talks_to e) \<subseteq> fold vet tr S" for S
    by (induction tr arbitrary: S) (simp_all add: conj_assoc)
  then show ?thesis by (simp add: only_vetted_def vetted_def)
qed

text \<open>Calls that talk to nobody.\<close>

interpretation silence: trace_invariant only_vetted "\<lambda>e. talks_to e = None"
  by unfold_locales (simp add: only_vetted_snoc)

text \<open>Calls that talk at most to the vetted client \<open>fd\<close> and leave it vetted.\<close>

definition client_call :: "raw_fd \<Rightarrow> event \<Rightarrow> bool" where
  "client_call fd e \<longleftrightarrow> talks_to e \<in> {None, Some fd} \<and> (\<forall>S. vet e S = S)"

interpretation client: trace_invariant "\<lambda>tr. only_vetted tr \<and> fd \<in> vetted tr" "client_call fd" for fd
  by unfold_locales (auto simp: only_vetted_snoc vetted_snoc client_call_def)

text \<open>The request is received from a client that is vetted by then.\<close>

lemma welcome_receive_vets:
  assumes run: "welcome_receive_and_parse_request os gs sock w = (r, w')" and own: "only_vetted (trace w)"
  shows "only_vetted (trace w') \<and> (\<forall>fd q. r = Ok (fd, q) \<longrightarrow> fd \<in> vetted (trace w'))"
proof -
  define x where "x = ask_fd os (trace w) (Accept sock)"
  let ?w1 = "log_event (FdAns (Accept sock) x) w"
  have w1: "only_vetted (trace ?w1)" using own by (simp add: silence.snoc)
  show ?thesis
  proof (cases x)
    case (Inl e)
    then have "r = Err [e] \<and> w' = ?w1"
      using run by (simp add: welcome_receive_and_parse_request_def exec_defs sys_call_defs x_def [symmetric])
    with w1 show ?thesis by auto
  next
    case (Inr fd)
    define u where "u = ask_uid os (trace ?w1) fd"
    let ?w2 = "log_event (PeerUid fd u) ?w1"
    have w2: "only_vetted (trace ?w2)" using silence.snoc [OF w1, of "PeerUid fd u"] by simp
    have u': "ask_uid os (trace w @ [FdAns (Accept sock) x]) fd = u" by (simp add: u_def)
    show ?thesis
    proof (cases "\<exists>n. u = Inr n \<and> n \<noteq> 0")
      case False
      then have "(\<exists>es. r = Err es) \<and> w' = close_fd fd ?w2"
        using run Inr u' by (cases u) (auto simp: welcome_receive_and_parse_request_def exec_defs sys_call_defs
            x_def [symmetric] split: if_splits)
      with silence.snoc [OF w2, of "Did (Close fd)"] show ?thesis by auto
    next
      case True
      then obtain n where n: "u = Inr n" "n \<noteq> 0" by blast
      obtain y v where p: "parse_request os (welcome_max_size gs) (deserialize_welcome gs)
          (serialize_welcome gs WelcomeMalformedRequest) fd ?w2 = (y, v)"
        by (cases "parse_request os (welcome_max_size gs) (deserialize_welcome gs)
          (serialize_welcome gs WelcomeMalformedRequest) fd ?w2")
      have pre: "only_vetted (trace ?w2) \<and> fd \<in> vetted (trace ?w2)"
        using w2 n vetted_snoc [of "trace ?w1" "PeerUid fd u"] by simp
      have "keeps (\<lambda>w. only_vetted (trace w) \<and> fd \<in> vetted (trace w))
          (parse_request os (welcome_max_size gs) (deserialize_welcome gs)
            (serialize_welcome gs WelcomeMalformedRequest) fd)"
        by (rule client.requests) (simp_all add: client_call_def)
      from keepsD [OF this pre p] have v: "only_vetted (trace v) \<and> fd \<in> vetted (trace v)" .
      have acc: "sys_fd os (Accept sock) w = (Ok fd, ?w1)"
        using Inr by (simp add: sys_fd_def x_def [symmetric] Let_def)
      have uid: "sys_uid os fd ?w1 = (Ok n, ?w2)"
        using n u' by (simp add: sys_uid_def Let_def)
      have "(\<exists>q. r = Ok (fd, q)) \<and> w' = v \<or> (\<forall>a. r \<noteq> Ok a) \<and> (w' = close_fd fd v \<or> w' = v)"
        using run p n(2) by (cases y) (auto simp: welcome_receive_and_parse_request_def bind_io_def map_err_def acc uid
            on_exit_drop_def ret_def)
      with v silence.snoc [of "trace v" "Did (Close fd)"] show ?thesis by auto
    qed
  qed
qed

lemma handle_open_environment_vetted:
  "keeps (\<lambda>sw. only_vetted (trace (snd sw)) \<and> fd \<in> vetted (trace (snd sw))) (handle_open_environment os gs n fd)"
proof -
  note call = client_call_def
  have send: "keeps (\<lambda>w. only_vetted (trace w) \<and> fd \<in> vetted (trace w)) (sys_num os (Send fd b))" for b
    by (rule client.answers) (simp add: call)
  have dup: "keeps (\<lambda>w. only_vetted (trace w) \<and> fd \<in> vetted (trace w)) (sys_fd os (Dup fd))"
  proof (rule client.answers)
    show "client_call fd (FdAns (Dup fd) r)" for r by (cases r) (simp_all add: call)
  qed
  have mk: "keeps (\<lambda>w. only_vetted (trace w) \<and> fd \<in> vetted (trace w)) (environment_new os n)"
  proof (rule client.environment_new_calls)
    show "client_call fd (FdAns EventFdNew r)" for r by (cases r) (simp_all add: call)
  qed (simp_all add: call)
  have ins: "keeps (\<lambda>w. only_vetted (trace w) \<and> fd \<in> vetted (trace w)) (insert_socket os env p)" for env p
    by (rule client.insert_socket_calls) (simp_all add: call)
  have drop: "keeps (\<lambda>w. only_vetted (trace w) \<and> fd \<in> vetted (trace w))
      (environment_drop os gs env :: (detailed_error list, unit) routine)" for env
    by (rule client.environment_drop_calls) (simp_all add: call)
  have close: "only_vetted (trace (close_fd p w)) \<and> fd \<in> vetted (trace (close_fd p w))"
    if "only_vetted (trace w) \<and> fd \<in> vetted (trace w)" for p w
    using client.snoc [OF that, of "Did (Close p)"] by (simp add: call)
  have vacant: "keeps (\<lambda>sw. only_vetted (trace (snd sw)) \<and> fd \<in> vetted (trace (snd sw))) (open_vacant os gs n fd p)" for p
    unfolding open_vacant_def
    by (intro keeps_bind keeps_on_exit keeps_drop_on_exit keeps_unwrap_or_report keeps_lift keeps_self)
      (simp_all add: send mk ins drop close del: close_fd_simps)
  show ?thesis
    unfolding handle_open_environment_def Let_def
    by (intro keeps_finally keeps_bind keeps_self keeps_case_option keeps_unwrap_or_report keeps_lift vacant
        keeps_map_err keeps_pure keeps_pure_io)
      (simp_all add: send dup ins close keeps_pure_io del: close_fd_simps)
qed

abbreviation vetted_only :: "environments \<times> world \<Rightarrow> bool" where
  "vetted_only sw \<equiv> only_vetted (trace (snd sw))"

lemma silence_parts:
  "keeps (\<lambda>w. only_vetted (trace w)) (send_error os e :: ('e, unit) routine)"
  "keeps (\<lambda>w. only_vetted (trace w)) (send_all_errors os es :: ('e, unit) routine)"
  "keeps (\<lambda>w. only_vetted (trace w)) (read_event os fd :: ('e, unit) routine)"
  "keeps (\<lambda>w. only_vetted (trace w)) (welcome_drop os gs order c envs :: ('e, unit) routine)"
  "keeps (\<lambda>w. only_vetted (trace w)) (fail_and_reload os e :: ('e, unit) routine)"
  "keeps vetted_only (close_environments os gs c fuel :: (environments \<times> world, 'e, unit) io)"
  "keeps vetted_only (signal_end os e :: (environments \<times> world, 'e, (unit, unit) turn) io)"
proof -
  show send: "keeps (\<lambda>w. only_vetted (trace w)) (send_error os e :: ('e, unit) routine)" for e
    by (rule silence.reports) simp
  show "keeps (\<lambda>w. only_vetted (trace w)) (send_all_errors os es :: ('e, unit) routine)"
    by (rule silence.reports) simp
  show "keeps (\<lambda>w. only_vetted (trace w)) (read_event os fd :: ('e, unit) routine)"
    by (rule silence.read_event_calls) simp_all
  show "keeps (\<lambda>w. only_vetted (trace w)) (welcome_drop os gs order c envs :: ('e, unit) routine)"
    by (rule silence.welcome_drop_calls) simp_all
  show "keeps (\<lambda>w. only_vetted (trace w)) (fail_and_reload os e :: ('e, unit) routine)"
    unfolding fail_and_reload_def by (intro keeps_bind send)
  show "keeps vetted_only (close_environments os gs c fuel :: (environments \<times> world, 'e, unit) io)"
    by (rule silence.close_environments_calls) simp_all
  show "keeps vetted_only (signal_end os e :: (environments \<times> world, 'e, (unit, unit) turn) io)"
    unfolding signal_end_def by (intro keeps_bind keeps_lift keeps_pure) (simp add: send)
qed

lemma handle_welcome_vetted:
  "keeps vetted_only (handle_welcome os gs sock r :: (environments \<times> world, 'e, (unit, unit) turn) io)"
proof -
  have accept: "keeps vetted_only (or_send_errors os (lift_io (welcome_receive_and_parse_request os gs sock)) (Next ())
      (\<lambda>(fd, request). case request of OpenEnvironment n \<Rightarrow>
         or_send_errors os (handle_open_environment os gs n fd) (Next ()) (\<lambda>_. ret (Next ())))
      :: (environments \<times> world, 'e, (unit, unit) turn) io)"
  proof (rule keepsI)
    fix sw r sw' assume own: "vetted_only sw"
      and run: "(or_send_errors os (lift_io (welcome_receive_and_parse_request os gs sock)) (Next ())
        (\<lambda>(fd, request). case request of OpenEnvironment n \<Rightarrow>
           or_send_errors os (handle_open_environment os gs n fd) (Next ()) (\<lambda>_. ret (Next ())))
        :: (environments \<times> world, 'e, (unit, unit) turn) io) sw = (r, sw')"
    obtain envs w where sw: "sw = (envs, w)" by (cases sw)
    obtain x v where rcv: "welcome_receive_and_parse_request os gs sock w = (x, v)"
      by (cases "welcome_receive_and_parse_request os gs sock w")
    have v: "only_vetted (trace v)" "\<And>fd q. x = Ok (fd, q) \<Longrightarrow> fd \<in> vetted (trace v)"
      using welcome_receive_vets [OF rcv] own by (auto simp: sw)
    show "vetted_only sw'"
    proof (cases x)
      case (Ok p)
      obtain fd n where p: "p = (fd, OpenEnvironment n)"
        by (cases p; cases "snd p") auto
      obtain y s u where h: "handle_open_environment os gs n fd (envs, v) = (y, s, u)"
        by (cases "handle_open_environment os gs n fd (envs, v)")
      have u: "only_vetted (trace u)"
        using keepsD [OF handle_open_environment_vetted _ h] v Ok p by simp
      have run': "(or_send_errors os (handle_open_environment os gs n fd) (Next ()) (\<lambda>_. ret (Next ()))
          :: (environments \<times> world, 'e, (unit, unit) turn) io) (envs, v) = (r, sw')"
        using run rcv Ok p by (simp add: sw or_send_errors_def [of os "lift_io k" for k] match_io_def lift_io_def)
      have "keeps (\<lambda>w. only_vetted (trace w)) (send_all_errors os es :: ('e, unit) routine)" for es
        by (rule silence_parts)
      from keepsD [OF this u] h run' u show ?thesis
        by (cases y) (auto simp: or_send_errors_def exec_defs split: prod.splits exec.splits)
    next
      case (Err es)
      have "keeps (\<lambda>w. only_vetted (trace w)) (send_all_errors os es :: ('e, unit) routine)"
        by (rule silence_parts)
      from keepsD [OF this v(1)] run rcv Err show ?thesis
        by (auto simp: sw or_send_errors_def exec_defs split: prod.splits exec.splits)
    qed (use run rcv v(1) in \<open>auto simp: sw or_send_errors_def exec_defs\<close>)
  qed
  show ?thesis
    unfolding handle_welcome_def
    by (intro keeps_if keeps_bind keeps_pure keeps_lift accept) (simp_all add: silence_parts)
qed

lemma welcome_turn_vetted:
  "keeps vetted_only (welcome_turn os gs fds c fuel u :: (environments \<times> world, 'e, (unit, unit) turn) io)"
  unfolding welcome_turn_def
  by (intro keeps_match keeps_bind keeps_case_prod keeps_if keeps_lift keeps_pure handle_welcome_vetted silence_parts)
    (simp_all add: silence.answers silence_parts)

text \<open>
  C2: no process of root's is talked to. Over the whole life of the welcome thread, whatever the
  kernel answers, it receives from, sends to and duplicates the socket of a client only after
  the kernel has named the peer's user and that user is not root, each time anew after the
  descriptor was accepted.
\<close>

theorem only_vetted_clients:
  assumes run: "welcome_thread_main os gs order fds fuel w = (r :: ('e, unit) exec, w')"
    and w: "only_vetted (trace w)"
  shows "only_vetted (trace w')"
proof -
  have "keeps (\<lambda>w. only_vetted (trace w)) (welcome_thread_main os gs order fds fuel :: ('e, unit) routine)"
    by (rule silence.welcome_thread_calls [OF welcome_turn_vetted]) simp_all
  from keepsD [OF this w run] show ?thesis .
qed

definition demo_root_os :: os where
  "demo_root_os = demo_welcome_os\<lparr>ask_uid := (\<lambda>tr fd. Inr (if fd = 104 then 0 else 1000))\<rparr>"

definition demo_root :: "(unit, unit) exec \<times> world" where
  "demo_root = welcome_thread_main demo_root_os demo_gs demo_env_order demo_fds_of 5
     (log_event (FdAns SocketNew (Inr 3)) start_world)"

theorem only_vetted_clients_witness:
  "only_vetted (trace (snd demo_root)) \<and> PeerUid 104 (Inr 0) \<in> set (trace (snd demo_root))"
proof -
  have run: "welcome_thread_main demo_root_os demo_gs demo_env_order demo_fds_of 5
      (log_event (FdAns SocketNew (Inr 3)) start_world) = (fst demo_root, snd demo_root)"
    by (simp add: demo_root_def)
  have "only_vetted (trace (log_event (FdAns SocketNew (Inr 3)) start_world))"
    by (simp add: start_world_def only_vetted_def)
  from only_vetted_clients [OF run this] have "only_vetted (trace (snd demo_root))" .
  moreover have "PeerUid 104 (Inr 0) \<in> set (trace (snd demo_root))" by code_simp
  ultimately show ?thesis by blast
qed

section \<open>Why the thread ends\<close>

text \<open>The errors delivered to the main thread, in order.\<close>

fun reports_of :: "event list \<Rightarrow> detailed_error list" where
  "reports_of [] = []"
| "reports_of (BoolAns (SendToMain e) True # es) = e # reports_of es"
| "reports_of (_ # es) = reports_of es"

fun is_report :: "event \<Rightarrow> bool" where
  "is_report (BoolAns (SendToMain _) _) = True"
| "is_report _ = False"

lemma reports_of_append [simp]: "reports_of (xs @ ys) = reports_of xs @ reports_of ys"
  by (induction xs rule: reports_of.induct) auto

lemma reports_of_other: "\<not> is_report e \<Longrightarrow> reports_of [e] = []"
  by (cases e rule: is_report.cases) auto

interpretation reported: trace_invariant "\<lambda>tr. reports_of tr = k" "\<lambda>e. \<not> is_report e" for k
  by unfold_locales (simp add: reports_of_other)

text \<open>Once the signal is the last report, dropping the environments leaves it so.\<close>

definition signalled :: "detailed_error set \<Rightarrow> event list \<Rightarrow> bool" where
  "signalled S tr \<longleftrightarrow> reports_of tr \<noteq> [] \<and> last (reports_of tr) \<in> S"

lemma send_error_reports:
  "send_error os e w = (Ok u, w') \<Longrightarrow> reports_of (trace w') = reports_of (trace w) @ [e]"
  by (auto simp: send_error_def exec_defs sys_call_defs split: if_splits)

lemma signal_end_signalled:
  assumes "(signal_end os e :: (environments \<times> world, 'e, (unit, unit) turn) io) (envs, w) = (Ok t, sw')"
  shows "signalled {e} (trace (snd sw'))"
  using assms by (auto simp: signal_end_def bind_io_Ok lift_io_def ret_def signalled_def
      split: prod.splits dest!: send_error_reports)

definition end_signals :: "detailed_error set" where
  "end_signals = {ShutdownSignal, ReloadRequest}"

lemma handle_welcome_goes_on:
  assumes "(handle_welcome os gs sock r :: (environments \<times> world, 'e, (unit, unit) turn) io) sw = (Ok (Stop u), sw')"
  shows False
proof -
  have errs: "(or_send_errors os m (Next ()) f :: (environments \<times> world, 'e, (unit, unit) turn) io) sw \<noteq> (Ok (Stop u), sw')"
    if "\<And>a sw. f a sw \<noteq> (Ok (Stop u), sw')"
    for m :: "(environments \<times> world, detailed_error list, 'x) io" and f sw
  proof -
    obtain x s v where "m sw = (x, s, v)" by (cases "m sw")
    with that show ?thesis
      by (cases x) (auto simp: or_send_errors_def exec_defs split: prod.splits exec.splits)
  qed
  have inner: "(or_send_errors os (handle_open_environment os gs n fd) (Next ()) (\<lambda>_. ret (Next ()))
      :: (environments \<times> world, 'e, (unit, unit) turn) io) sw \<noteq> (Ok (Stop u), sw')" for n fd sw
    by (rule errs) (simp add: ret_def)
  have outer: "(or_send_errors os (lift_io (welcome_receive_and_parse_request os gs sock)) (Next ())
      (\<lambda>(fd, request). case request of OpenEnvironment n \<Rightarrow>
         or_send_errors os (handle_open_environment os gs n fd) (Next ()) (\<lambda>_. ret (Next ())))
      :: (environments \<times> world, 'e, (unit, unit) turn) io) sw \<noteq> (Ok (Stop u), sw')" for sw
    by (rule errs) (use inner in \<open>auto split: prod.splits welcome_request.splits\<close>)
  show False
    using assms outer
    by (auto simp: handle_welcome_def exec_defs split: if_splits option.splits prod.splits exec.splits)
qed

lemma welcome_turn_signals:
  assumes run: "(welcome_turn os gs fds c fuel u :: (environments \<times> world, 'e, (unit, unit) turn) io) (envs, w)
      = (Ok (Stop t), sw')"
  shows "signalled end_signals (trace (snd sw'))"
    and "\<And>p q. ask_poll os (trace w) [w_shutdown_event fds, w_reload_event fds, c, w_socket fds] = Inr (p, q)
      \<Longrightarrow> any_event p \<Longrightarrow> signalled {ShutdownSignal} (trace (snd sw'))"
proof -
  define x where "x = ask_poll os (trace w) [w_shutdown_event fds, w_reload_event fds, c, w_socket fds]"
  let ?w = "log_event (Poll [w_shutdown_event fds, w_reload_event fds, c, w_socket fds] x) w"
  have sub: "signalled {ShutdownSignal} tr \<Longrightarrow> signalled end_signals tr"
    "signalled {ReloadRequest} tr \<Longrightarrow> signalled end_signals tr" for tr
    by (auto simp: signalled_def end_signals_def)
  have poll: "lift_io (sys_poll os [w_shutdown_event fds, w_reload_event fds, c, w_socket fds]) (envs, w)
      = (answer x, envs, ?w)"
    by (simp add: lift_io_def sys_poll_def Let_def x_def)
  have "signalled end_signals (trace (snd sw'))
      \<and> (\<forall>p q. x = Inr (p, q) \<longrightarrow> any_event p \<longrightarrow> signalled {ShutdownSignal} (trace (snd sw')))"
  proof (cases x)
    case (Inl e)
    with run poll obtain s v where "(signal_end os ReloadRequest :: (environments \<times> world, 'e, (unit, unit) turn) io) (s, v)
        = (Ok (Stop t), sw')"
      by (auto simp: welcome_turn_def match_io_def bind_io_Ok)
    from signal_end_signalled [OF this] sub Inl show ?thesis by auto
  next
    case (Inr ps)
    obtain p1 p2 p3 p4 where ps: "ps = (p1, p2, p3, p4)" by (cases ps)
    consider (shutdown) "any_event p1" | (reload) "\<not> any_event p1" "any_event p2" | (other) "\<not> any_event p1" "\<not> any_event p2"
      by blast
    then show ?thesis
    proof cases
      case shutdown
      with run poll Inr ps obtain s v where
        "(signal_end os ShutdownSignal :: (environments \<times> world, 'e, (unit, unit) turn) io) (s, v) = (Ok (Stop t), sw')"
        by (auto simp: welcome_turn_def match_io_def bind_io_Ok)
      from signal_end_signalled [OF this] sub show ?thesis by auto
    next
      case reload
      with run poll Inr ps obtain s v where
        "(signal_end os ReloadRequest :: (environments \<times> world, 'e, (unit, unit) turn) io) (s, v) = (Ok (Stop t), sw')"
        by (auto simp: welcome_turn_def match_io_def bind_io_Ok)
      from signal_end_signalled [OF this] sub reload Inr ps show ?thesis by auto
    next
      case other
      with run poll Inr ps obtain s where
        "(handle_welcome os gs (w_socket fds) p4 :: (environments \<times> world, 'e, (unit, unit) turn) io) s = (Ok (Stop t), sw')"
        by (auto simp: welcome_turn_def match_io_def bind_io_Ok)
      then show ?thesis by (rule handle_welcome_goes_on [THEN FalseE])
    qed
  qed
  then show "signalled end_signals (trace (snd sw'))"
    and "\<And>p q. ask_poll os (trace w) [w_shutdown_event fds, w_reload_event fds, c, w_socket fds] = Inr (p, q)
      \<Longrightarrow> any_event p \<Longrightarrow> signalled {ShutdownSignal} (trace (snd sw'))"
    by (auto simp: x_def)
qed

definition said_why :: "('e, unit) exec \<Rightarrow> environments \<times> world \<Rightarrow> bool" where
  "said_why r sw \<longleftrightarrow> (r = Ok () \<longrightarrow> signalled end_signals (trace (snd sw)))"

interpretation turns: loop_invariant
  "welcome_turn os gs fds c fuel :: unit \<Rightarrow> (environments \<times> world, 'e, (unit, unit) turn) io"
  "\<lambda>u sw. True" said_why for os gs fds c fuel
proof unfold_locales
  fix u sw r sw' assume run: "(welcome_turn os gs fds c fuel u :: (environments \<times> world, 'e, (unit, unit) turn) io) sw
      = (Ok (Stop r), sw')"
  obtain envs w where sw: "sw = (envs, w)" by (cases sw)
  show "said_why (Ok r) sw'"
    using welcome_turn_signals(1) [OF run [unfolded sw]] by (simp add: said_why_def)
qed (simp_all add: said_why_def)

lemma fail_and_reload_signals:
  "(fail_and_reload os e w :: ('e, unit) exec \<times> world) = (Ok u, w') \<Longrightarrow> signalled end_signals (trace w')"
  by (auto simp: fail_and_reload_def bind_io_Ok signalled_def end_signals_def dest!: send_error_reports)

lemma welcome_drop_reports:
  "keeps (\<lambda>w. signalled S (trace w)) (welcome_drop os gs order c envs :: ('e, unit) routine)"
proof (rule keepsI)
  fix w r w' assume "signalled S (trace w)" and run: "(welcome_drop os gs order c envs :: ('e, unit) routine) w = (r, w')"
  have "keeps (\<lambda>v. reports_of (trace v) = reports_of (trace w)) (welcome_drop os gs order c envs :: ('e, unit) routine)"
    by (rule reported.welcome_drop_calls) simp_all
  from keepsD [OF this refl run] \<open>signalled S (trace w)\<close> show "signalled S (trace w')"
    by (simp add: signalled_def)
qed

lemma with_drop_Ok:
  assumes "with_drop d m w = (Ok u, w')"
  obtains v a where "m w = (Ok u, v)" "d v = (Ok a, w')"
  using assms by (auto simp: with_drop_def bind_io_Ok throw_def ret_def split: prod.splits exec.splits)

text \<open>
  C16: the welcome thread says why it ends. If it returns, the last thing it reported to the main
  thread is the shutdown signal or the reload request, delivered; so the main thread always
  learns that there is nobody left to accept clients.
\<close>

theorem welcome_thread_says_why:
  assumes run: "welcome_thread_main os gs order fds fuel w = (Ok () :: ('e, unit) exec, w')"
  shows "reports_of (trace w') \<noteq> [] \<and> last (reports_of (trace w')) \<in> {ShutdownSignal, ReloadRequest}"
proof -
  have closed: "signalled end_signals (trace (close_fd fd v))" if "signalled end_signals (trace v)" for fd v
    using that by (simp add: signalled_def)
  have loop: "signalled end_signals (trace v')"
    if "(welcome_loop os gs order fds c fuel v :: ('e, unit) exec \<times> world) = (Ok (), v')" for c v v'
  proof -
    obtain x envs t where l: "(run_loop fuel (welcome_turn os gs fds c fuel) () (Map.empty, v)
        :: ('e, unit) exec \<times> environments \<times> world) = (x, envs, t)"
      by (cases "run_loop fuel (welcome_turn os gs fds c fuel) () (Map.empty, v)
        :: ('e, unit) exec \<times> environments \<times> world")
    with that have "with_drop (welcome_drop os gs order c envs) (Pair x) t = (Ok (), v')"
      by (simp add: welcome_loop_def)
    then obtain t' a where "x = Ok ()" and d: "welcome_drop os gs order c envs t = (Ok a :: ('e, unit) exec, v')"
      by (rule with_drop_Ok) simp
    have "said_why x (envs, t)"
      using turns.run_post [OF _ l] \<open>x = Ok ()\<close> by simp
    with \<open>x = Ok ()\<close> have "signalled end_signals (trace t)" by (simp add: said_why_def)
    from keepsD [OF welcome_drop_reports this d] show ?thesis .
  qed
  have fail: "signalled end_signals (trace v')"
    if d: "with_drop (welcome_drop os gs order c envs) (fail_and_reload os e) v = (Ok () :: ('e, unit) exec, v')" for c envs e v v'
    using d
  proof (rule with_drop_Ok)
    fix t a assume "fail_and_reload os e v = (Ok () :: ('e, unit) exec, t)"
      and d: "welcome_drop os gs order c envs t = (Ok a :: ('e, unit) exec, v')"
    from fail_and_reload_signals [OF this(1)] keepsD [OF welcome_drop_reports _ d] show ?thesis by blast
  qed
  let ?body = "match_io (sys_fd os EventFdNew) (fail_and_reload os)
    (\<lambda>c. match_io (sys_unit os (Listen (w_socket fds)))
       (\<lambda>e. with_drop (welcome_drop os gs order c Map.empty) (fail_and_reload os e))
       (\<lambda>_. welcome_loop os gs order fds c fuel)) :: ('e, unit) routine"
  obtain v where b: "?body w = (Ok (), v)" and w': "w' = close_fd (w_socket fds) v"
    using run by (auto simp: welcome_thread_main_def finally_drop_def split: prod.splits exec.splits)
  have "signalled end_signals (trace v)"
    using b by (auto simp: match_io_def split: prod.splits exec.splits
        intro: loop fail fail_and_reload_signals)
  from closed [OF this] show ?thesis by (simp add: w' signalled_def end_signals_def)
qed

theorem welcome_thread_says_why_witness:
  "last (reports_of (trace (snd demo_welcome))) \<in> {ShutdownSignal, ReloadRequest}"
proof -
  have "fst demo_welcome = Ok ()" by code_simp
  then have "welcome_thread_main demo_welcome_os demo_gs demo_env_order demo_fds_of 5
      (log_event (FdAns SocketNew (Inr 3)) start_world) = (Ok () :: (unit, unit) exec, snd demo_welcome)"
    by (simp add: demo_welcome_def prod_eq_iff)
  from welcome_thread_says_why [OF this] show ?thesis by blast
qed

section \<open>A broken welcome socket\<close>

text \<open>
  A kernel on which the welcome socket has failed, and nothing else happens: each \<open>poll\<close> reports
  an error condition on it.
\<close>

definition socket_broken :: "os \<Rightarrow> welcome_fds \<Rightarrow> raw_fd \<Rightarrow> bool" where
  "socket_broken os fds c \<longleftrightarrow>
     (\<forall>tr. \<exists>flags. flags \<noteq> {} \<and> POLLIN \<notin> flags
        \<and> ask_poll os tr [w_shutdown_event fds, w_reload_event fds, c, w_socket fds]
            = Inr (Some {}, Some {}, Some {}, Some flags))"

lemma broken_turn:
  assumes "socket_broken os fds c" and "main_listens os"
  shows "\<exists>v. (welcome_turn os gs fds c fuel u :: (environments \<times> world, 'e, (unit, unit) turn) io) (envs, w)
      = (Ok (Next ()), envs, v)
    \<and> reports_of (trace v) = reports_of (trace w) @ [RuntimeError WelcomeSocketFailed, ShutdownSignal]"
proof -
  let ?fds = "[w_shutdown_event fds, w_reload_event fds, c, w_socket fds]"
  obtain flags where f: "flags \<noteq> {}" "POLLIN \<notin> flags"
    "ask_poll os (trace w) ?fds = Inr (Some {}, Some {}, Some {}, Some flags)"
    using assms(1) unfolding socket_broken_def by blast
  show ?thesis
    using f assms(2)
    by (auto simp: welcome_turn_def handle_welcome_def any_event_def exec_defs sys_call_defs send_error_def
        main_listens_def)
qed

text \<open>
  C35: a broken welcome socket is reported for ever. Once \<open>poll\<close> reports nothing but an error on
  the welcome socket, the thread does not end although it has sent the shutdown signal: for
  every number \<open>n\<close> of turns it is still running, has sent the signal \<open>n\<close> times, and keeps sending.
\<close>

theorem broken_welcome_socket_spins:
  assumes "socket_broken os fds c" and "main_listens os"
  shows "\<exists>v. (run_loop n (welcome_turn os gs fds c fuel) () (envs, w)
        :: ('e, unit) exec \<times> environments \<times> world) = (NoReturn, envs, v)
    \<and> reports_of (trace v) = reports_of (trace w)
        @ concat (replicate n [RuntimeError WelcomeSocketFailed, ShutdownSignal])"
proof (induction n arbitrary: w)
  case 0
  then show ?case by simp
next
  case (Suc n)
  obtain v where v: "(welcome_turn os gs fds c fuel () :: (environments \<times> world, 'e, (unit, unit) turn) io) (envs, w)
      = (Ok (Next ()), envs, v)"
    "reports_of (trace v) = reports_of (trace w) @ [RuntimeError WelcomeSocketFailed, ShutdownSignal]"
    using broken_turn [OF assms] by blast
  from Suc.IH [of v] v show ?case by auto
qed

definition demo_broken_os :: os where
  "demo_broken_os = calm_os\<lparr>ask_poll := (\<lambda>tr fds. Inr (Some {}, Some {}, Some {}, Some {POLLERR, POLLHUP}))\<rparr>"

theorem broken_welcome_socket_spins_witness:
  "\<exists>v. (run_loop 3 (welcome_turn demo_broken_os demo_gs demo_fds_of 6 5) () (Map.empty, start_world)
      :: (unit, unit) exec \<times> environments \<times> world) = (NoReturn, Map.empty, v)
    \<and> length (filter (\<lambda>e. e = ShutdownSignal) (reports_of (trace v))) = 3"
proof -
  have "socket_broken demo_broken_os demo_fds_of 6"
    by (auto simp: socket_broken_def demo_broken_os_def)
  moreover have "main_listens demo_broken_os"
    by (simp add: main_listens_def demo_broken_os_def calm_os_def)
  ultimately obtain v where v: "(run_loop 3 (welcome_turn demo_broken_os demo_gs demo_fds_of 6 5) () (Map.empty, start_world)
      :: (unit, unit) exec \<times> environments \<times> world) = (NoReturn, Map.empty, v)"
    "reports_of (trace v) = reports_of (trace start_world)
       @ concat (replicate 3 [RuntimeError WelcomeSocketFailed, ShutdownSignal])"
    using broken_welcome_socket_spins [of demo_broken_os demo_fds_of 6 3 demo_gs 5 Map.empty start_world] by blast
  have "length (filter (\<lambda>e. e = ShutdownSignal) (reports_of (trace v))) = 3"
    unfolding v(2) by (simp add: start_world_def numeral_3_eq_3)
  with v(1) show ?thesis by blast
qed

end
