(* ===== verification/Dispatch.thy ===== *)
theory Dispatch imports Registry begin

text \<open>
  Which thread serves which name: at any time at most one thread runs for a name, a thread is
  started only for a name that was just asked for and has none, and a client is handed to no
  thread but that of the name it asked for.
\<close>

section \<open>The registry, read off a trace\<close>

text \<open>
  Which thread runs for each name (started and not yet joined), and the name the last request
  asked for.
\<close>

type_synonym registry = "(string \<rightharpoonup> thread_id) \<times> string option"

definition welcome_request_in :: "garnshared \<Rightarrow> bytes \<Rightarrow> string option" where
  "welcome_request_in gs bs =
     (case from_utf8 (fill_buffer (unat (welcome_max_size gs)) bs) of
        Inl _ \<Rightarrow> None
      | Inr s \<Rightarrow> (case deserialize_welcome gs s of Inl _ \<Rightarrow> None | Inr (OpenEnvironment n) \<Rightarrow> Some n))"

definition without :: "(string \<rightharpoonup> thread_id) \<Rightarrow> thread_id \<Rightarrow> string \<rightharpoonup> thread_id" where
  "without m t n = (if m n = Some t then None else m n)"

fun registry_step :: "garnshared \<Rightarrow> event \<Rightarrow> registry \<Rightarrow> registry" where
  "registry_step gs (Recv fd k (Inr bs)) (live, cur) = (live, welcome_request_in gs bs)"
| "registry_step gs (Spawn (EnvironmentThread n) (Inr t)) (live, cur) = (live(n \<mapsto> t), cur)"
| "registry_step gs (BoolAns (Join t) b) (live, cur) = (without live t, cur)"
| "registry_step gs _ st = st"

text \<open>What the promise allows in each state.\<close>

definition serves :: "registry \<Rightarrow> thread_id \<Rightarrow> bool" where
  "serves st t = (case snd st of None \<Rightarrow> False | Some n \<Rightarrow> fst st n = Some t)"

fun allowed :: "event \<Rightarrow> registry \<Rightarrow> bool" where
  "allowed (Spawn (EnvironmentThread n) (Inr t)) st = (fst st n = None \<and> snd st = Some n)"
| "allowed (BoolAns (SendListener t fd) b) st = serves st t"
| "allowed (RecvSyncResponse t r) st = serves st t"
| "allowed _ st = True"

definition registry_of :: "garnshared \<Rightarrow> event list \<Rightarrow> registry" where
  "registry_of gs tr = fold (registry_step gs) tr (Map.empty, None)"

fun all_allowed :: "garnshared \<Rightarrow> registry \<Rightarrow> event list \<Rightarrow> bool" where
  "all_allowed gs st [] = True"
| "all_allowed gs st (e # es) = (allowed e st \<and> all_allowed gs (registry_step gs e st) es)"

definition dispatched :: "garnshared \<Rightarrow> event list \<Rightarrow> bool" where
  "dispatched gs tr = all_allowed gs (Map.empty, None) tr"

lemma registry_snoc: "registry_of gs (tr @ [e]) = registry_step gs e (registry_of gs tr)"
  by (simp add: registry_of_def)

lemma dispatched_snoc: "dispatched gs (tr @ [e]) \<longleftrightarrow> dispatched gs tr \<and> allowed e (registry_of gs tr)"
proof -
  have "all_allowed gs st (tr @ [e]) \<longleftrightarrow> all_allowed gs st tr \<and> allowed e (fold (registry_step gs) tr st)" for st
    by (induction tr arbitrary: st) simp_all
  then show ?thesis by (simp add: dispatched_def registry_of_def)
qed

text \<open>The traces in state \<open>st\<close> that have kept the promise, and the calls that do not change that.\<close>

definition kept :: "garnshared \<Rightarrow> registry \<Rightarrow> event list \<Rightarrow> bool" where
  "kept gs st tr \<longleftrightarrow> dispatched gs tr \<and> registry_of gs tr = st"

fun about_threads :: "event \<Rightarrow> bool" where
  "about_threads (Recv _ _ (Inr _)) = True"
| "about_threads (Spawn (EnvironmentThread _) (Inr _)) = True"
| "about_threads (BoolAns (Join _) _) = True"
| "about_threads (BoolAns (SendListener _ _) _) = True"
| "about_threads (RecvSyncResponse _ _) = True"
| "about_threads _ = False"

lemma not_about_threads [simp]:
  "\<not> about_threads e \<Longrightarrow> registry_step gs e st = st"
  "\<not> about_threads e \<Longrightarrow> allowed e st"
  by (cases st; cases e rule: about_threads.cases; simp)+

interpretation aside: trace_invariant "kept gs st" "\<lambda>e. \<not> about_threads e" for gs st
  by unfold_locales (simp add: kept_def dispatched_snoc registry_snoc)

text \<open>Calls to the thread that serves the current request are allowed.\<close>

definition served_call :: "thread_id \<Rightarrow> event \<Rightarrow> bool" where
  "served_call t e \<longleftrightarrow> \<not> about_threads e \<or> (\<exists>fd b. e = BoolAns (SendListener t fd) b) \<or> (\<exists>r. e = RecvSyncResponse t r)"

interpretation served: trace_invariant "\<lambda>tr. kept gs st tr \<and> serves st t" "served_call t" for gs st t
proof unfold_locales
  fix tr e assume J: "kept gs st tr \<and> serves st t" and q: "served_call t e"
  have "registry_step gs e st = st \<and> allowed e st"
    using J q by (cases st) (auto simp: served_call_def)
  with J show "kept gs st (tr @ [e]) \<and> serves st t"
    by (simp add: kept_def dispatched_snoc registry_snoc)
qed

text \<open>Dropping an environment joins its thread and nothing else.\<close>

lemma kept_joins: "kept gs (live, cur) tr \<Longrightarrow> kept gs (without live t, cur) (tr @ [BoolAns (Join t) b])"
  by (simp add: kept_def dispatched_snoc registry_snoc)

lemma kept_aside: "kept gs st tr \<Longrightarrow> list_all (\<lambda>e. \<not> about_threads e) es \<Longrightarrow> kept gs st (tr @ es)"
  by (rule aside.extends_keeps [of tr]) (auto simp: extends_def)

lemma stderr_aside: "list_all is_stderr es \<Longrightarrow> list_all (\<lambda>e. \<not> about_threads e) es"
  by (induction es) (auto simp: is_stderr_def)

lemma environment_drop_kept:
  assumes run: "environment_drop os gs' env w = (r :: ('e, unit) exec, w')" and k: "kept gs (live, cur) (trace w)"
  shows "kept gs (without live (e_thread env), cur) (trace w')"
proof -
  from environment_drop_result [OF run] obtain x b ms ns where
    tr: "trace w' = trace w @ drop_trace env x b ms ns" "list_all is_stderr ms" "list_all is_stderr ns"
    by blast
  have "kept gs (live, cur) (trace w @ UnitAns (EventFdWrite (e_drop_event env) 1) x # ms)"
    by (rule kept_aside [OF k]) (simp add: stderr_aside tr)
  from kept_aside [OF kept_joins [OF this, of "e_thread env" b],
      of "ns @ [Did (Close (e_add_listener_event env)), Did (Close (e_drop_event env))]"]
  show ?thesis by (simp add: tr(1) drop_trace_def stderr_aside tr)
qed

section \<open>The map of environments is the registry\<close>

definition threads_of :: "environments \<Rightarrow> string \<rightharpoonup> thread_id" where
  "threads_of envs n = map_option e_thread (envs n)"

definition distinct_threads :: "environments \<Rightarrow> bool" where
  "distinct_threads envs \<longleftrightarrow>
     (\<forall>n m a b. envs n = Some a \<longrightarrow> envs m = Some b \<longrightarrow> e_thread a = e_thread b \<longrightarrow> n = m)"

definition registered :: "garnshared \<Rightarrow> string option \<Rightarrow> environments \<times> world \<Rightarrow> bool" where
  "registered gs cur sw \<longleftrightarrow>
     kept gs (threads_of (fst sw), cur) (trace (snd sw)) \<and> distinct_threads (fst sw)"

lemma threads_of_simps [simp]:
  "threads_of Map.empty = Map.empty"
  "threads_of (envs(n \<mapsto> env)) = (threads_of envs)(n \<mapsto> e_thread env)"
  by (auto simp: threads_of_def fun_eq_iff)

lemma without_new:
  "live n = None \<Longrightarrow> t \<notin> ran live \<Longrightarrow> without (live(n \<mapsto> t)) t = live"
  by (auto simp: without_def fun_eq_iff ran_def)

lemma without_registered:
  assumes "envs n = Some env" and "distinct_threads envs"
  shows "without (threads_of envs) (e_thread env) = threads_of (envs(n := None))"
proof
  fix m show "without (threads_of envs) (e_thread env) m = threads_of (envs(n := None)) m"
    using assms by (cases "envs m") (auto simp: without_def threads_of_def distinct_threads_def)
qed

lemma live_spawned: "ran (fst (registry_of gs tr)) \<subseteq> spawned tr"
proof (induction tr rule: rev_induct)
  case (snoc e tr)
  obtain live cur where st: "registry_of gs tr = (live, cur)" by (cases "registry_of gs tr")
  have "ran (fst (registry_step gs e (live, cur))) \<subseteq> ran live \<union> spawned [e]"
    by (cases e rule: about_threads.cases) (auto simp: without_def ran_def split: if_splits)
  with snoc st show ?case by (auto simp: registry_snoc)
qed (simp add: registry_of_def)

lemma environment_new_kept:
  assumes run: "environment_new os n w = (r, w')" and os: "fresh_threads os"
    and k: "kept gs (live, Some n) (trace w)" and free: "live n = None"
  shows "(\<exists>env. r = Ok env \<and> kept gs (live(n \<mapsto> e_thread env), Some n) (trace w') \<and> e_thread env \<notin> ran live)
    \<or> (\<exists>e. r = Err e) \<and> kept gs (live, Some n) (trace w')"
  using run
proof (cases rule: environment_new_cases)
  case (made env)
  let ?tr = "trace w @ [FdAns EventFdNew (Inr (e_add_listener_event env)), FdAns EventFdNew (Inr (e_drop_event env))]"
  have k': "kept gs (live, Some n) ?tr" by (rule kept_aside [OF k]) simp
  then have "ran live \<subseteq> spawned ?tr"
    using live_spawned [of gs ?tr] by (simp add: kept_def)
  moreover have "e_thread env \<notin> spawned ?tr"
    using os made(5) unfolding fresh_threads_def by blast
  ultimately have "e_thread env \<notin> ran live" by blast
  moreover have "kept gs (live(n \<mapsto> e_thread env), Some n) (trace w')"
    using k' free made(4) dispatched_snoc [of gs ?tr "Spawn (EnvironmentThread n) (Inr (e_thread env))"]
      registry_snoc [of gs ?tr "Spawn (EnvironmentThread n) (Inr (e_thread env))"]
    by (simp add: kept_def)
  ultimately show ?thesis using made(1) by blast
qed (use k kept_aside [OF k] in simp_all)

lemma insert_socket_kept:
  assumes run: "insert_socket os env fd w = (r, w')" and k: "kept gs (live, Some n) (trace w)"
    and serve: "live n = Some (e_thread env)"
  shows "kept gs (live, Some n) (trace w')"
proof -
  have "keeps (\<lambda>w. kept gs (live, Some n) (trace w) \<and> serves (live, Some n) (e_thread env)) (insert_socket os env fd)"
    by (rule served.insert_socket_calls) (simp_all add: served_call_def)
  from keepsD [OF this _ run] k serve show ?thesis by (simp add: serves_def)
qed

text \<open>What the guarded routine leaves: the value, or the errors after the client has been told.\<close>

lemma report_cases [consumes 2]:
  assumes run: "unwrap_or_report_failure os (lift_io m) fd t (envs, w) = (r, envs', w')"
    and m: "(\<exists>a. fst (m w) = Ok a) \<or> (\<exists>e. fst (m w) = Err e)"
  obtains (ok) a where "m w = (Ok a, w')" "r = Ok a" "envs' = envs"
  | (err) e v x es where "m w = (Err e, v)" "r = Err es" "envs' = envs"
      "trace w' = trace v @ [NumAns (Send fd (as_bytes t)) x]"
proof -
  obtain x v where x: "m w = (x, v)" by (cases "m w")
  from m show thesis
  proof (elim disjE exE)
    fix a assume "fst (m w) = Ok a"
    with run x show thesis by (intro ok [of a]) (auto simp: unwrap_or_report_failure_def exec_defs)
  next
    fix e assume "fst (m w) = Err e"
    with run x show thesis
      by (cases "ask_num os (trace v) (Send fd (as_bytes t))")
        (auto simp: unwrap_or_report_failure_def exec_defs sys_call_defs intro!: err [of e v])
  qed
qed

lemma insert_socket_outcome:
  "(\<exists>a. fst (insert_socket os env fd w) = Ok a) \<or> (\<exists>e. fst (insert_socket os env fd w) = Err e)"
  by (auto simp: insert_socket_def exec_defs sys_call_defs answer_def split: sum.splits option.splits)

lemma environment_new_outcome:
  "(\<exists>a. fst (environment_new os n w) = Ok a) \<or> (\<exists>e. fst (environment_new os n w) = Err e)"
  by (auto simp: environment_new_def exec_defs sys_call_defs answer_def split: sum.splits)

lemma told_kept: "kept gs st (trace v) \<Longrightarrow> kept gs st (trace v @ [NumAns (Send fd b) x])"
  by (rule aside.snoc) simp_all

section \<open>Every part keeps the registry\<close>

lemma registeredI:
  "kept gs (threads_of envs, cur) (trace w) \<Longrightarrow> distinct_threads envs \<Longrightarrow> registered gs cur (envs, w)"
  by (simp add: registered_def)

lemma distinct_threads_new:
  "distinct_threads envs \<Longrightarrow> e_thread env \<notin> ran (threads_of envs) \<Longrightarrow> distinct_threads (envs(n \<mapsto> env))"
  by (fastforce simp: distinct_threads_def ran_def threads_of_def)

lemma distinct_threads_removed: "distinct_threads envs \<Longrightarrow> distinct_threads (envs(n := None))"
  by (simp add: distinct_threads_def)

text \<open>Calls beside the threads.\<close>

interpretation reg: trace_invariant
  "\<lambda>tr. kept gs (threads_of envs, cur) tr \<and> distinct_threads envs" "\<lambda>e. \<not> about_threads e" for gs envs cur
  by unfold_locales (simp add: aside.snoc)

lemma registered_close: "registered gs cur sw \<Longrightarrow> registered gs cur (apsnd (close_fd fd) sw)"
  by (cases sw) (simp add: registered_def aside.snoc)

lemma open_vacant_registered:
  assumes run: "open_vacant os gs n fd p (envs, w) = (r, envs', w')" and os: "fresh_threads os"
    and reg: "registered gs (Some n) (envs, w)" and free: "envs n = None"
  shows "registered gs (Some n) (envs', w')"
proof -
  let ?live = "threads_of envs"
  have k: "kept gs (?live, Some n) (trace w)" and d: "distinct_threads envs"
    using reg by (simp_all add: registered_def)
  have free': "?live n = None" using free by (simp add: threads_of_def)
  obtain y s v where new: "unwrap_or_report_failure os (lift_io (environment_new os n)) fd
      (welcome_internal_error gs) (envs, w) = (y, s, v)"
    by (cases "unwrap_or_report_failure os (lift_io (environment_new os n)) fd (welcome_internal_error gs) (envs, w)")
  from new environment_new_outcome show ?thesis
  proof (cases rule: report_cases)
    case (err e u x es)
    from environment_new_kept [OF err(1) os k free'] have "kept gs (?live, Some n) (trace u)" by simp
    from told_kept [OF this] have "kept gs (?live, Some n) (trace v)" by (simp add: err(4))
    from aside.snoc [OF this, of "Did (Close p)"] d show ?thesis
      using run new err(2,3) by (auto simp: open_vacant_def bind_io_def on_exit_drop_def registered_def)
  next
    case (ok env)
    from environment_new_kept [OF ok(1) os k free']
    have live: "kept gs (?live(n \<mapsto> e_thread env), Some n) (trace v)" "e_thread env \<notin> ran ?live" by auto
    obtain z s2 u where ins: "unwrap_or_report_failure os (lift_io (insert_socket os env p)) fd
        (welcome_internal_error gs) (envs, v) = (z, s2, u)"
      by (cases "unwrap_or_report_failure os (lift_io (insert_socket os env p)) fd (welcome_internal_error gs) (envs, v)")
    from ins insert_socket_outcome show ?thesis
    proof (cases rule: report_cases)
      case ok': (ok a)
      have "kept gs (?live(n \<mapsto> e_thread env), Some n) (trace u)"
        by (rule insert_socket_kept [OF ok'(1) live(1)]) simp
      moreover have "envs' = envs(n \<mapsto> env) \<and> w' = u"
        using run new ins ok ok' by (auto simp: open_vacant_def bind_io_def on_exit_drop_def drop_on_exit_def set_self_def)
      ultimately show ?thesis
        using distinct_threads_new [OF d live(2)] by (simp add: registered_def)
    next
      case (err e t x es)
      have "kept gs (?live(n \<mapsto> e_thread env), Some n) (trace t)"
        by (rule insert_socket_kept [OF err(1) live(1)]) simp
      from told_kept [OF this] have u: "kept gs (?live(n \<mapsto> e_thread env), Some n) (trace u)" by (simp add: err(4))
      obtain q t' where drop: "environment_drop os gs env u = (q :: (detailed_error list, unit) exec, t')"
        by (cases "environment_drop os gs env u :: (detailed_error list, unit) exec \<times> world")
      have "w' = t' \<and> envs' = envs"
        using run new ins ok err(2,3) drop
        by (cases q) (auto simp: open_vacant_def bind_io_def on_exit_drop_def drop_on_exit_def lift_io_def throw_def)
      moreover have "kept gs (?live, Some n) (trace t')"
        using environment_drop_kept [OF drop u] without_new [of ?live n, OF free' live(2)] by simp
      ultimately show ?thesis using d by (simp add: registered_def)
    qed
  qed
qed

lemma insert_registered:
  assumes run: "unwrap_or_report_failure os (lift_io (insert_socket os env p)) fd t (envs, w) = (r, envs', w')"
    and reg: "registered gs (Some n) (envs, w)" and found: "envs n = Some env"
  shows "registered gs (Some n) (envs', w')"
proof -
  have k: "kept gs (threads_of envs, Some n) (trace w)" and d: "distinct_threads envs"
    using reg by (simp_all add: registered_def)
  have serve: "threads_of envs n = Some (e_thread env)" using found by (simp add: threads_of_def)
  from run insert_socket_outcome show ?thesis
  proof (cases rule: report_cases)
    case (ok a)
    from insert_socket_kept [OF ok(1) k serve] d ok(3) show ?thesis by (simp add: registered_def)
  next
    case (err e v x es)
    from told_kept [OF insert_socket_kept [OF err(1) k serve]] d err(3,4) show ?thesis
      by (simp add: registered_def)
  qed
qed

lemma keeps_bind_self:
  assumes "\<And>s w r sw. I (s, w) \<Longrightarrow> f s (s, w) = (r, sw) \<Longrightarrow> I sw"
  shows "keeps I (bind_io get_self f)"
  using assms by (auto simp: keeps_def bind_io_def get_self_def)

lemma bind_keeps:
  assumes run: "bind_io m f sw = (r, sw')" and m: "\<And>x v. m sw = (x, v) \<Longrightarrow> I v" and f: "\<And>a. keeps I (f a)"
  shows "I sw'"
proof -
  obtain x v where x: "m sw = (x, v)" by (cases "m sw")
  from run x m [OF x] show ?thesis by (cases x) (auto simp: bind_io_def dest: keepsD [OF f])
qed

lemma reg_call:
  assumes "\<And>envs. keeps (\<lambda>w. kept gs (threads_of envs, cur) (trace w) \<and> distinct_threads envs) m"
  shows "keeps (registered gs cur) (lift_io m)" "keeps (\<lambda>w. registered gs cur (envs, w)) m"
  using assms by (auto simp: registered_def [abs_def] intro!: keeps_lift)

lemma handle_open_environment_registered:
  assumes os: "fresh_threads os"
  shows "keeps (registered gs (Some n)) (handle_open_environment os gs n fd)"
proof -
  have send: "keeps (\<lambda>w. registered gs (Some n) (envs, w)) (sys_num os (Send fd b))" for envs b
    by (rule reg_call(2), rule reg.answers, simp)
  have dup: "keeps (\<lambda>w. registered gs (Some n) (envs, w)) (sys_fd os (Dup fd))" for envs
    by (rule reg_call(2), rule reg.answers, simp)
  have reply: "keeps (registered gs (Some n))
      (bind_io (unwrap_or_report_failure os (lift_io (pure_io (serialize_welcome gs OpenEnvironmentOk))) fd t)
        (\<lambda>response. bind_io (map_err (\<lambda>e. [e]) (lift_io (sys_num os (Send fd (as_bytes response))))) (\<lambda>_. ret ())))" for t
    by (intro keeps_bind keeps_unwrap_or_report keeps_lift keeps_pure_io keeps_map_err keeps_pure send)
  have main: "keeps (registered gs (Some n)) (bind_io get_self (\<lambda>envs.
      bind_io (case envs n of None \<Rightarrow> open_vacant os gs n fd p
               | Some env \<Rightarrow> unwrap_or_report_failure os (lift_io (insert_socket os env p)) fd t)
        (\<lambda>_. bind_io (unwrap_or_report_failure os (lift_io (pure_io (serialize_welcome gs OpenEnvironmentOk))) fd t)
        (\<lambda>response. bind_io (map_err (\<lambda>e. [e]) (lift_io (sys_num os (Send fd (as_bytes response))))) (\<lambda>_. ret ())))))"
    for p t
  proof (rule keeps_bind_self, erule bind_keeps [OF _ _ reply])
    fix envs w x v assume reg: "registered gs (Some n) (envs, w)"
      and run: "(case envs n of None \<Rightarrow> open_vacant os gs n fd p
               | Some env \<Rightarrow> unwrap_or_report_failure os (lift_io (insert_socket os env p)) fd t) (envs, w) = (x, v)"
    show "registered gs (Some n) v"
    proof (cases "envs n")
      case None
      with run show ?thesis by (cases v) (auto intro: open_vacant_registered [OF _ os reg])
    next
      case (Some env)
      with run show ?thesis by (cases v) (auto intro: insert_registered [OF _ reg])
    qed
  qed
  show ?thesis
    unfolding handle_open_environment_def Let_def
    by (intro keeps_finally keeps_bind [OF _ main] keeps_unwrap_or_report keeps_lift dup send registered_close)
qed

text \<open>The ended environments.\<close>

lemma close_turn_registered: "keeps (registered gs cur) (close_turn os gs u :: (environments \<times> world, 'e, (unit, unit) turn) io)"
proof -
  have name: "keeps (registered gs cur) (lift_io (sys_closed_name os) :: (environments \<times> world, 'e, string try_recv) io)"
    by (rule reg_call(1), rule reg.answers, simp)
  have send: "keeps (registered gs cur) (lift_io (send_error os e) :: (environments \<times> world, 'e, unit) io)" for e
    by (rule reg_call(1), rule reg.reports, simp)
  have remove: "keeps (registered gs cur) (bind_io get_self (\<lambda>envs. case envs name of
           None \<Rightarrow> ret (Next ())
         | Some env \<Rightarrow>
             bind_io (set_self (\<lambda>environments. environments(name := None))) (\<lambda>_.
             bind_io (lift_io (environment_drop os gs env)) (\<lambda>_. ret (Next ()))))
        :: (environments \<times> world, 'e, (unit, unit) turn) io)" for name
  proof (rule keeps_bind_self)
    fix envs w r sw assume reg: "registered gs cur (envs, w)"
      and run: "(case envs name of None \<Rightarrow> ret (Next ())
         | Some env \<Rightarrow>
             bind_io (set_self (\<lambda>environments. environments(name := None))) (\<lambda>_.
             bind_io (lift_io (environment_drop os gs env)) (\<lambda>_. ret (Next ())))) (envs, w)
          = (r :: ('e, (unit, unit) turn) exec, sw)"
    show "registered gs cur sw"
    proof (cases "envs name")
      case None
      with run reg show ?thesis by (simp add: ret_def)
    next
      case (Some env)
      obtain x v where d: "environment_drop os gs env w = (x :: ('e, unit) exec, v)"
        by (cases "environment_drop os gs env w :: ('e, unit) exec \<times> world")
      have "sw = (envs(name := None), v)"
        using run Some d by (cases x) (auto simp: bind_io_def set_self_def lift_io_def ret_def)
      moreover have "kept gs (without (threads_of envs) (e_thread env), cur) (trace v)"
        using reg by (intro environment_drop_kept [OF d]) (simp add: registered_def)
      ultimately show ?thesis
        using reg without_registered [of envs name, OF Some] distinct_threads_removed [of envs name]
        by (simp add: registered_def)
    qed
  qed
  show ?thesis
    unfolding close_turn_def
    by (intro keeps_bind name keeps_case_try_recv remove keeps_pure send)
qed

lemma reject_malformed_not_Ok: "reject_malformed os m fd e w \<noteq> (Ok a, w')"
  by (auto simp: reject_malformed_def exec_defs sys_call_defs answer_def split: sum.splits)

text \<open>The calls of one request: it is received, and if it is malformed an answer is sent.\<close>

definition sends_to :: "raw_fd \<Rightarrow> event \<Rightarrow> bool" where
  "sends_to fd e \<longleftrightarrow> (case e of NumAns (Send fd' _) _ \<Rightarrow> fd' = fd | _ \<Rightarrow> False)"

lemma parse_trace:
  assumes run: "parse_request os (welcome_max_size gs) (deserialize_welcome gs) m fd w = (r, w')"
  obtains (asked) n bs where "r = Ok (OpenEnvironment n)" "welcome_request_in gs bs = Some n"
      "trace w' = trace w @ [Recv fd (welcome_max_size gs) (Inr bs)]"
  | (failed) x es where "\<forall>a. r \<noteq> Ok a" "trace w' = trace w @ Recv fd (welcome_max_size gs) x # es"
      "list_all (sends_to fd) es"
proof -
  define x where "x = ask_bytes os (trace w) fd (welcome_max_size gs)"
  let ?w1 = "log_event (Recv fd (welcome_max_size gs) x) w"
  have recv: "sys_recv os fd (welcome_max_size gs) w = (answer x, ?w1)"
    by (simp add: sys_recv_def x_def Let_def)
  have reject: thesis if e: "reject_malformed os m fd e ?w1 = (r, w')" for e
  proof (rule failed)
    show "\<forall>a. r \<noteq> Ok a" using e by (auto simp: reject_malformed_not_Ok)
    have "only (sends_to fd) (reject_malformed os m fd e :: (detailed_error list, welcome_request) routine)"
      unfolding only_def reject_malformed_def
      by (intro allI keeps_match keeps_pure_io keeps_pure alphabet.answers) (simp add: sends_to_def)
    from only_result [OF this e] show "trace w' = trace w @ Recv fd (welcome_max_size gs) x # (drop (Suc (length (trace w))) (trace w'))"
      "list_all (sends_to fd) (drop (Suc (length (trace w))) (trace w'))" by auto
  qed
  show thesis
  proof (cases x)
    case (Inl e)
    then have "r = Err [e] \<and> w' = ?w1"
      using run by (simp add: parse_request_def exec_defs recv)
    then show thesis by (intro failed [of x "[]"]) simp_all
  next
    case (Inr bs)
    have body: "(case from_utf8 (fill_buffer (unat (welcome_max_size gs)) bs) of Inl e \<Rightarrow> reject_malformed os m fd e
        | Inr t \<Rightarrow> (case deserialize_welcome gs t of Inl e \<Rightarrow> reject_malformed os m fd e | Inr q \<Rightarrow> ret q)) ?w1 = (r, w')"
      using run Inr by (simp add: parse_request_def bind_io_def map_err_def recv)
    show thesis
    proof (cases "from_utf8 (fill_buffer (unat (welcome_max_size gs)) bs)")
      case (Inl e)
      with body show thesis by (simp add: reject)
    next
      case t: (Inr t)
      show thesis
      proof (cases "deserialize_welcome gs t")
        case (Inl e)
        with body t show thesis by (simp add: reject)
      next
        case q: (Inr q)
        obtain n where n: "q = OpenEnvironment n" by (cases q)
        with body t q have "r = Ok (OpenEnvironment n) \<and> w' = ?w1" by (simp add: ret_def)
        with t q n Inr show thesis by (intro asked [of n bs]) (simp_all add: welcome_request_in_def)
      qed
    qed
  qed
qed

text \<open>
  The calls that take a request in: the client is accepted, the kernel names its user, who is not
  root, and the request is received. If that fails nothing was handed to a thread.
\<close>

fun takes_in :: "event \<Rightarrow> bool" where
  "takes_in (FdAns (Accept _) _) = True"
| "takes_in (PeerUid _ _) = True"
| "takes_in (Recv _ _ _) = True"
| "takes_in (NumAns (Send _ _) _) = True"
| "takes_in (Did (Close _)) = True"
| "takes_in _ = False"

lemma sends_takes_in: "list_all (sends_to fd) es \<Longrightarrow> list_all takes_in es"
  by (induction es) (auto simp: sends_to_def split: event.splits num_call.splits)

lemma receive_cases:
  assumes run: "welcome_receive_and_parse_request os gs sock w = (r, w')"
  obtains (asked) fd u n bs where "r = Ok (fd, OpenEnvironment n)" "u \<noteq> 0" "welcome_request_in gs bs = Some n"
      "trace w' = trace w @ [FdAns (Accept sock) (Inr fd), PeerUid fd (Inr u), Recv fd (welcome_max_size gs) (Inr bs)]"
  | (failed) es where "\<forall>a. r \<noteq> Ok a" "trace w' = trace w @ es" "list_all takes_in es"
proof -
  define x where "x = ask_fd os (trace w) (Accept sock)"
  let ?w1 = "log_event (FdAns (Accept sock) x) w"
  have acc: "sys_fd os (Accept sock) w = (answer x, ?w1)"
    by (simp add: sys_fd_def x_def Let_def)
  show thesis
  proof (cases x)
    case (Inl e)
    then have "r = Err [e] \<and> w' = ?w1"
      using run acc by (simp add: welcome_receive_and_parse_request_def bind_io_def map_err_def)
    then show thesis by (intro failed [of "[FdAns (Accept sock) x]"]) simp_all
  next
    case (Inr fd)
    define u where "u = ask_uid os (trace ?w1) fd"
    let ?w2 = "log_event (PeerUid fd u) ?w1"
    have uid: "sys_uid os fd ?w1 = (answer u, ?w2)" by (simp add: sys_uid_def u_def Let_def)
    show thesis
    proof (cases "\<exists>n. u = Inr n \<and> n \<noteq> 0")
      case False
      then have "(\<exists>es. r = Err es) \<and> w' = close_fd fd ?w2"
        using run acc uid Inr by (cases u) (auto simp: welcome_receive_and_parse_request_def bind_io_def map_err_def
            on_exit_drop_def throw_def)
      then show thesis
        by (intro failed [of "[FdAns (Accept sock) x, PeerUid fd u, Did (Close fd)]"]) auto
    next
      case True
      then obtain n where n: "u = Inr n" "n \<noteq> 0" by blast
      obtain y v where p: "parse_request os (welcome_max_size gs) (deserialize_welcome gs)
          (serialize_welcome gs WelcomeMalformedRequest) fd ?w2 = (y, v)"
        by (cases "parse_request os (welcome_max_size gs) (deserialize_welcome gs)
          (serialize_welcome gs WelcomeMalformedRequest) fd ?w2")
      have r: "(\<exists>q. y = Ok q \<and> r = Ok (fd, q)) \<and> w' = v \<or> (\<forall>a. y \<noteq> Ok a) \<and> (\<forall>a. r \<noteq> Ok a) \<and> (w' = close_fd fd v \<or> w' = v)"
        using run p n acc uid Inr by (cases y) (auto simp: welcome_receive_and_parse_request_def bind_io_def map_err_def
            on_exit_drop_def ret_def)
      from p show thesis
      proof (cases rule: parse_trace)
        case (asked m bs)
        with r n(2) Inr show thesis
          by (intro that(1) [of fd m n bs]) (auto simp: n(1))
      next
        case (failed z es)
        let ?es = "FdAns (Accept sock) x # PeerUid fd u # Recv fd (welcome_max_size gs) z # es"
        have ok: "list_all takes_in ?es" using sends_takes_in [OF failed(3)] by simp
        from r failed(1) consider "\<forall>a. r \<noteq> Ok a" "w' = close_fd fd v" | "\<forall>a. r \<noteq> Ok a" "w' = v" by blast
        then show thesis
        proof cases
          case 1
          with failed(2) ok show thesis by (intro that(2) [of "?es @ [Did (Close fd)]"]) simp_all
        next
          case 2
          with failed(2) ok show thesis by (intro that(2) [of ?es]) simp_all
        qed
      qed
    qed
  qed
qed

text \<open>A request that is received names the environment the next calls may be about.\<close>

lemma takes_in_kept:
  "kept gs (live, cur) tr \<Longrightarrow> list_all takes_in es \<Longrightarrow> \<exists>cur'. kept gs (live, cur') (tr @ es)"
proof (induction es rule: rev_induct)
  case (snoc e es)
  then obtain c where c: "kept gs (live, c) (tr @ es)" by auto
  have "\<exists>c'. registry_step gs e (live, c) = (live, c') \<and> allowed e (live, c)"
    using snoc.prems by (cases e rule: about_threads.cases) auto
  with c show ?case by (auto simp: kept_def dispatched_snoc registry_snoc simp flip: append_assoc)
qed auto

lemma receive_kept:
  assumes run: "welcome_receive_and_parse_request os gs sock w = (r, w')" and k: "kept gs (live, cur) (trace w)"
  shows "\<exists>cur'. kept gs (live, cur') (trace w') \<and> (\<forall>fd n. r = Ok (fd, OpenEnvironment n) \<longrightarrow> cur' = Some n)"
  using run
proof (cases rule: receive_cases)
  case (asked fd u n bs)
  let ?tr = "trace w @ [FdAns (Accept sock) (Inr fd), PeerUid fd (Inr u)]"
  have "kept gs (live, cur) ?tr" by (rule kept_aside [OF k]) simp
  then have "kept gs (live, Some n) (?tr @ [Recv fd (welcome_max_size gs) (Inr bs)])"
    using asked(3) by (simp add: kept_def dispatched_snoc registry_snoc del: append_assoc)
  with asked show ?thesis by simp
next
  case (failed es)
  with takes_in_kept [OF k] show ?thesis by auto
qed

text \<open>The loop.\<close>

definition some_registered :: "garnshared \<Rightarrow> environments \<times> world \<Rightarrow> bool" where
  "some_registered gs sw \<longleftrightarrow> (\<exists>cur. registered gs cur sw)"

lemma keeps_some_registered: "(\<And>cur. keeps (registered gs cur) m) \<Longrightarrow> keeps (some_registered gs) m"
  unfolding keeps_def some_registered_def by blast

lemma some_call:
  "(\<And>envs cur. keeps (\<lambda>w. kept gs (threads_of envs, cur) (trace w) \<and> distinct_threads envs) m)
    \<Longrightarrow> keeps (some_registered gs) (lift_io m)"
  by (rule keeps_some_registered) (rule reg_call(1))

lemma welcome_parts_registered:
  "keeps (some_registered gs) (lift_io (send_error os e) :: (environments \<times> world, 'e, unit) io)"
  "keeps (some_registered gs) (lift_io (read_event os fd) :: (environments \<times> world, 'e, unit) io)"
  "keeps (some_registered gs) (lift_io (sys_poll os fds))"
  "keeps (some_registered gs) (lift_io (send_all_errors os es) :: (environments \<times> world, 'e, unit) io)"
  by (rule some_call, (rule reg.reports reg.read_event_calls reg.answers; simp))+

lemma close_environments_registered:
  "keeps (some_registered gs) (close_environments os gs c fuel :: (environments \<times> world, 'e, unit) io)"
  unfolding close_environments_def
  by (intro keeps_bind welcome_parts_registered keeps_run_loop keeps_some_registered close_turn_registered)

lemma handled_or_sent_keeps:
  assumes run: "or_send_errors os m b f sw = (r :: ('e, 'b) exec, sw')" and m: "\<And>x v. m sw = (x, v) \<Longrightarrow> I v"
    and ok: "\<And>a v. m sw = (Ok a, v) \<Longrightarrow> f a v = (r, sw') \<Longrightarrow> I sw'"
    and send: "\<And>es. keeps I (bind_io (lift_io (send_all_errors os es)) (\<lambda>_. ret b) :: ('s \<times> world, 'e, 'b) io)"
  shows "I sw'"
proof -
  obtain x v where x: "m sw = (x, v)" by (cases "m sw")
  from m [OF x] show ?thesis
  proof (cases x)
    case (Ok a)
    with run x show ?thesis by (intro ok [of a v]) (auto simp: or_send_errors_def match_io_def)
  next
    case (Err es)
    have "bind_io (lift_io (send_all_errors os es)) (\<lambda>_. ret b) v = (r, sw')"
      using run x Err by (simp add: or_send_errors_def match_io_def)
    from keepsD [OF send m [OF x] this] show ?thesis .
  qed (use run x in \<open>simp_all add: or_send_errors_def match_io_def\<close>)
qed

lemma report_next:
  "keeps (some_registered gs) (bind_io (lift_io (send_all_errors os es)) (\<lambda>_. ret b) :: (environments \<times> world, 'e, 'b) io)"
  by (intro keeps_bind welcome_parts_registered keeps_pure)

lemma handle_welcome_registered:
  assumes os: "fresh_threads os"
  shows "keeps (some_registered gs) (handle_welcome os gs sock r :: (environments \<times> world, 'e, (unit, unit) turn) io)"
proof -
  have accept: "keeps (some_registered gs) (or_send_errors os (lift_io (welcome_receive_and_parse_request os gs sock)) (Next ())
      (\<lambda>(fd, request). case request of OpenEnvironment n \<Rightarrow>
         or_send_errors os (handle_open_environment os gs n fd) (Next ()) (\<lambda>_. ret (Next ())))
      :: (environments \<times> world, 'e, (unit, unit) turn) io)" (is "keeps _ ?m")
  proof (rule keepsI)
    fix sw r sw' assume reg: "some_registered gs sw" and run: "?m sw = (r, sw')"
    obtain envs w where sw: "sw = (envs, w)" by (cases sw)
    from reg obtain cur where k: "kept gs (threads_of envs, cur) (trace w)" "distinct_threads envs"
      by (auto simp: some_registered_def registered_def sw)
    show "some_registered gs sw'"
      using run
    proof (rule handled_or_sent_keeps [OF _ _ _ report_next])
      fix x v assume "lift_io (welcome_receive_and_parse_request os gs sock) sw = (x, v)"
      then obtain u where "welcome_receive_and_parse_request os gs sock w = (x, u)" "v = (envs, u)"
        by (auto simp: lift_io_def sw split: prod.splits)
      with receive_kept [OF this(1) k(1)] k(2) show "some_registered gs v"
        by (auto simp: some_registered_def registered_def)
    next
      fix a v assume rcv: "lift_io (welcome_receive_and_parse_request os gs sock) sw = (Ok a, v)"
        and run: "(case a of (fd, request) \<Rightarrow> case request of OpenEnvironment n \<Rightarrow>
           or_send_errors os (handle_open_environment os gs n fd) (Next ()) (\<lambda>_. ret (Next ()))) v = (r, sw')"
      obtain fd n where a: "a = (fd, OpenEnvironment n)" by (cases a; cases "snd a") auto
      from rcv obtain u where u: "welcome_receive_and_parse_request os gs sock w = (Ok a, u)" "v = (envs, u)"
        by (auto simp: lift_io_def sw split: prod.splits)
      from receive_kept [OF u(1) k(1)] k(2) have v: "registered gs (Some n) v"
        by (auto simp: registered_def a u(2))
      have h: "some_registered gs t" if "handle_open_environment os gs n fd v = (x, t)" for x t
        using keepsD [OF handle_open_environment_registered [OF os] v that] by (auto simp: some_registered_def)
      show "some_registered gs sw'"
        using run unfolding a prod.case welcome_request.case
      proof (rule handled_or_sent_keeps [OF _ h _ report_next])
        fix b t assume "handle_open_environment os gs n fd v = (Ok b, t)" and "ret (Next ()) t = (r, sw')"
        with h show "some_registered gs sw'" by (simp add: ret_def)
      qed
    qed
  qed
  show ?thesis
    unfolding handle_welcome_def by (intro keeps_if keeps_bind keeps_pure welcome_parts_registered accept)
qed

lemma welcome_turn_registered:
  "fresh_threads os \<Longrightarrow>
    keeps (some_registered gs) (welcome_turn os gs fds c fuel u :: (environments \<times> world, 'e, (unit, unit) turn) io)"
  unfolding welcome_turn_def signal_end_def
  by (intro keeps_match keeps_bind keeps_case_prod keeps_if keeps_pure handle_welcome_registered
      close_environments_registered welcome_parts_registered)

section \<open>The whole thread\<close>

text \<open>The calls the promise does not restrict; the drops at the end make no others.\<close>

fun free_call :: "event \<Rightarrow> bool" where
  "free_call (Spawn (EnvironmentThread _) (Inr _)) = False"
| "free_call (BoolAns (SendListener _ _) _) = False"
| "free_call (RecvSyncResponse _ _) = False"
| "free_call _ = True"

lemma free_call_allowed: "free_call e \<Longrightarrow> allowed e st"
  by (cases e rule: free_call.cases) auto

interpretation free: trace_invariant "dispatched gs" free_call for gs
  by unfold_locales (simp add: dispatched_snoc free_call_allowed)

lemma welcome_drop_dispatched:
  "keeps (\<lambda>w. dispatched gs (trace w)) (welcome_drop os gs order c envs :: ('e, unit) routine)"
  by (rule free.welcome_drop_calls) simp_all

lemma welcome_loop_dispatched:
  assumes run: "(welcome_loop os gs order fds c fuel w :: ('e, unit) exec \<times> world) = (r, w')"
    and os: "fresh_threads os" and k: "kept gs (Map.empty, cur) (trace w)"
  shows "dispatched gs (trace w')"
proof -
  obtain y envs t where l: "(run_loop fuel (welcome_turn os gs fds c fuel) () (Map.empty, w)
      :: ('e, unit) exec \<times> environments \<times> world) = (y, envs, t)"
    by (cases "run_loop fuel (welcome_turn os gs fds c fuel) () (Map.empty, w)
      :: ('e, unit) exec \<times> environments \<times> world")
  have "some_registered gs (Map.empty, w)"
    using k by (auto simp: some_registered_def registered_def distinct_threads_def)
  from keepsD [OF keeps_run_loop [OF welcome_turn_registered [OF os]] this l]
  have t: "dispatched gs (trace t)" by (auto simp: some_registered_def registered_def kept_def)
  have "keeps (\<lambda>w. dispatched gs (trace w)) (with_drop (welcome_drop os gs order c envs) (Pair y) :: ('e, unit) routine)"
    by (intro keeps_with_drop welcome_drop_dispatched) (simp_all add: keeps_def)
  from keepsD [OF this t] run l show ?thesis by (simp add: welcome_loop_def)
qed

lemma fail_dispatched:
  "keeps (\<lambda>w. dispatched gs (trace w)) (fail_and_reload os e :: ('e, unit) routine)"
  "keeps (\<lambda>w. dispatched gs (trace w)) (with_drop (welcome_drop os gs order c envs) (fail_and_reload os e) :: ('e, unit) routine)"
proof -
  show f: "keeps (\<lambda>w. dispatched gs (trace w)) (fail_and_reload os e :: ('e, unit) routine)"
    unfolding fail_and_reload_def by (intro keeps_bind free.reports) simp_all
  show "keeps (\<lambda>w. dispatched gs (trace w)) (with_drop (welcome_drop os gs order c envs) (fail_and_reload os e) :: ('e, unit) routine)"
    by (intro keeps_with_drop welcome_drop_dispatched f) simp
qed

lemma welcome_thread_dispatched:
  assumes run: "welcome_thread_main os gs order fds fuel w = (r :: ('e, unit) exec, w')"
    and os: "fresh_threads os" and start: "kept gs (Map.empty, cur) (trace w)"
  shows "dispatched gs (trace w')"
proof -
  define x y where "x = ask_fd os (trace w) EventFdNew"
    and "y = ask_unit os (trace (log_event (FdAns EventFdNew x) w)) (Listen (w_socket fds))"
  let ?w1 = "log_event (FdAns EventFdNew x) w" and ?w2 = "log_event (UnitAns (Listen (w_socket fds)) y) (log_event (FdAns EventFdNew x) w)"
  have k: "kept gs (Map.empty, cur) (trace ?w1)" "kept gs (Map.empty, cur) (trace ?w2)"
    using aside.snoc [OF start, of "FdAns EventFdNew x"]
      aside.snoc [OF aside.snoc [OF start, of "FdAns EventFdNew x"], of "UnitAns (Listen (w_socket fds)) y"] by simp_all
  then have d: "dispatched gs (trace ?w1)" "dispatched gs (trace ?w2)" by (simp_all add: kept_def)
  let ?body = "match_io (sys_fd os EventFdNew) (fail_and_reload os)
    (\<lambda>c. match_io (sys_unit os (Listen (w_socket fds)))
       (\<lambda>e. with_drop (welcome_drop os gs order c Map.empty) (fail_and_reload os e))
       (\<lambda>_. welcome_loop os gs order fds c fuel)) :: ('e, unit) routine"
  obtain z v where b: "?body w = (z, v)" by (cases "?body w")
  have calls: "sys_fd os EventFdNew w = (answer x, ?w1)"
    "sys_unit os (Listen (w_socket fds)) ?w1 = (answer y, ?w2)"
    by (simp_all add: sys_fd_def sys_unit_def x_def y_def Let_def)
  note body = b [unfolded match_io_def calls]
  have "dispatched gs (trace v)"
  proof (cases x)
    case (Inl e)
    then have "answer x = Err e" by simp
    with body have "fail_and_reload os e ?w1 = (z, v)" by simp
    from keepsD [OF fail_dispatched(1) d(1) this] show ?thesis .
  next
    case (Inr c)
    then have c: "answer x = Ok c" by simp
    show ?thesis
    proof (cases y)
      case (Inl e)
      then have "answer y = Err e" by simp
      with body c have "with_drop (welcome_drop os gs order c Map.empty) (fail_and_reload os e) ?w2 = (z, v)"
        by (simp add: calls)
      from keepsD [OF fail_dispatched(2) d(2) this] show ?thesis .
    next
      case (Inr u)
      then have "answer y = Ok u" by simp
      with body c have "welcome_loop os gs order fds c fuel ?w2 = (z, v)"
        by (simp add: calls)
      from welcome_loop_dispatched [OF this os k(2)] show ?thesis .
    qed
  qed
  moreover have "w' = v \<or> w' = close_fd (w_socket fds) v"
    using run b by (cases z) (auto simp: welcome_thread_main_def finally_drop_def)
  ultimately show ?thesis using free.snoc [of gs "trace v" "Did (Close (w_socket fds))"] by auto
qed

text \<open>
  C3: one thread per name. Over the whole life of the welcome thread, whatever the kernel and the
  other threads answer: an environment thread is started only for the name the last request
  asked for and only while no thread that was started for that name is unjoined, and a client's
  socket is sent to, and an answer awaited from, no thread but the one that was started last for
  the name the client asked for. The hypothesis is that a new thread's identifier is not that of
  an older one.
\<close>

theorem one_thread_per_name:
  assumes run: "welcome_thread_main os gs order fds fuel w = (r :: ('e, unit) exec, w')"
    and os: "fresh_threads os" and start: "kept gs (Map.empty, cur) (trace w)"
  shows "dispatched gs (trace w')"
  by (rule welcome_thread_dispatched [OF assms])

theorem one_thread_per_name_witness:
  "dispatched demo_gs (trace (snd demo_welcome))
    \<and> length (filter (\<lambda>e. case e of Spawn _ _ \<Rightarrow> True | _ \<Rightarrow> False) (trace (snd demo_welcome))) = 1"
proof -
  have run: "welcome_thread_main demo_welcome_os demo_gs demo_env_order demo_fds_of 5
      (log_event (FdAns SocketNew (Inr 3)) start_world) = (fst demo_welcome, snd demo_welcome)"
    by (simp add: demo_welcome_def)
  have "fresh_threads demo_welcome_os"
    using calm_os_threads by (simp add: fresh_threads_def demo_welcome_os_def)
  moreover have "kept demo_gs (Map.empty, None) (trace (log_event (FdAns SocketNew (Inr 3)) start_world))"
    by (simp add: kept_def dispatched_def registry_of_def start_world_def)
  ultimately have "dispatched demo_gs (trace (snd demo_welcome))"
    by (rule one_thread_per_name [OF run])
  moreover have "length (filter (\<lambda>e. case e of Spawn _ _ \<Rightarrow> True | _ \<Rightarrow> False) (trace (snd demo_welcome))) = 1"
    by code_simp
  ultimately show ?thesis by blast
qed

end
