(* ===== verification/Welcome_Promises.thy ===== *)
theory Welcome_Promises imports Dispatch begin

text \<open>
  More promises of the welcome thread: a client that asks for an environment is answered exactly
  once and the map changes only for the name it asked for; and the thread gives back every
  descriptor it made or accepted.
\<close>

section \<open>Opening an environment\<close>

text \<open>A routine that answers the client exactly if it fails.\<close>

definition answers_failure :: "raw_fd \<Rightarrow> ('s \<times> world, 'e, 'a) io \<Rightarrow> bool" where
  "answers_failure fd m \<longleftrightarrow> (\<forall>s w r s' w'. m (s, w) = (r, s', w') \<longrightarrow> answered_on_failure fd (replies (trace w)) r w')"

lemma answers_failureI:
  "(\<And>s w r s' w'. m (s, w) = (r, s', w') \<Longrightarrow> answered_on_failure fd (replies (trace w)) r w') \<Longrightarrow> answers_failure fd m"
  by (simp add: answers_failure_def)

lemma answers_failureD:
  "answers_failure fd m \<Longrightarrow> m (s, w) = (r, s', w') \<Longrightarrow> answered_on_failure fd (replies (trace w)) r w'"
  by (simp add: answers_failure_def)

lemma answers_bind:
  assumes m: "answers_failure fd m" and f: "\<And>a. answers_failure fd (f a)"
  shows "answers_failure fd (bind_io m f)"
proof (rule answers_failureI)
  fix s w r s' w' assume run: "bind_io m f (s, w) = (r, s', w')"
  obtain x t v where x: "m (s, w) = (x, t, v)" by (cases "m (s, w)")
  note ans = answers_failureD [OF m x]
  show "answered_on_failure fd (replies (trace w)) r w'"
  proof (cases x)
    case (Ok a)
    then have "f a (t, v) = (r, s', w')" using run x by (simp add: bind_io_def)
    from answers_failureD [OF f this] ans Ok show ?thesis by (simp add: answered_on_failure_def)
  qed (use run x ans in \<open>auto simp: bind_io_def answered_on_failure_def\<close>)
qed

lemma answers_self: "answers_failure fd get_self" "answers_failure fd (set_self f)"
  by (auto simp: answers_failure_def answered_on_failure_def get_self_def set_self_def)

lemma answers_close:
  assumes m: "answers_failure fd m"
  shows "answers_failure fd (on_exit_drop (apsnd (close_fd c)) m)"
proof (rule answers_failureI)
  fix s w r s' w' assume run: "on_exit_drop (apsnd (close_fd c)) m (s, w) = (r, s', w')"
  obtain x t v where x: "m (s, w) = (x, t, v)" by (cases "m (s, w)")
  with run answers_failureD [OF m x] show "answered_on_failure fd (replies (trace w)) r w'"
    by (cases x) (auto simp: on_exit_drop_def answered_on_failure_def)
qed

lemma answers_drop:
  assumes m: "answers_failure fd m" and d: "\<And>k. keeps (\<lambda>w. replies (trace w) = k) d"
    and d': "no_err d"
  shows "answers_failure fd (drop_on_exit d m)"
proof (rule answers_failureI)
  fix s w r s' w' assume run: "drop_on_exit d m (s, w) = (r, s', w')"
  obtain x t v where x: "m (s, w) = (x, t, v)" by (cases "m (s, w)")
  note ans = answers_failureD [OF m x]
  show "answered_on_failure fd (replies (trace w)) r w'"
  proof (cases x)
    case (Err e)
    obtain y u where y: "d v = (y, u)" by (cases "d v")
    have "replies (trace u) = replies (trace v)" using keepsD [OF d _ y] by simp
    with run x ans Err y no_errD [OF d' y] show ?thesis
      by (cases y) (auto simp: drop_on_exit_def answered_on_failure_def exec_defs)
  next
    case Panic
    obtain y u where y: "d (v\<lparr>panicking := True\<rparr>) = (y, u)" by (cases "d (v\<lparr>panicking := True\<rparr>)")
    with run x Panic show ?thesis
      by (cases y) (auto simp: drop_on_exit_def answered_on_failure_def with_drop_def lift_io_def panic_def)
  qed (use run x ans in \<open>auto simp: drop_on_exit_def answered_on_failure_def\<close>)
qed

lemma answers_report:
  assumes m: "\<And>k. keeps (\<lambda>w. replies (trace w) = k) m"
  shows "answers_failure fd (unwrap_or_report_failure os (lift_io m) fd t)"
proof (rule answers_failureI)
  fix s w r s' w' assume run: "unwrap_or_report_failure os (lift_io m) fd t (s, w) = (r, s', w')"
  show "answered_on_failure fd (replies (trace w)) r w'"
  proof (rule unwrap_or_report_answers [OF run])
    fix x t v assume "lift_io m (s, w) = (x, t, v)"
    then have "m w = (x, v)" by (auto simp: lift_io_def split: prod.splits)
    from keepsD [OF m refl this] show "replies (trace v) = replies (trace w)" .
  qed
qed

lemma environment_replies:
  "keeps (\<lambda>w. replies (trace w) = k) (environment_new os n)"
  "keeps (\<lambda>w. replies (trace w) = k) (insert_socket os env p)"
  "keeps (\<lambda>w. replies (trace w) = k) (environment_drop os gs env :: ('e, unit) routine)"
  "keeps (\<lambda>w. replies (trace w) = k) (sys_fd os c)"
  by (rule reply.environment_new_calls reply.insert_socket_calls reply.environment_drop_calls reply.answers; simp)+

lemma no_err_environment_drop: "no_err (environment_drop os gs env :: ('e, unit) routine)"
  unfolding no_err_def
proof (intro allI)
  fix w and e :: 'e
  obtain r w' where "environment_drop os gs env w = (r :: ('e, unit) exec, w')"
    by (cases "environment_drop os gs env w :: ('e, unit) exec \<times> world")
  with environment_drop_result [OF this] show "fst (environment_drop os gs env w) \<noteq> Err e" by (auto split: if_splits)
qed

lemma open_vacant_answers: "answers_failure fd (open_vacant os gs n fd p)"
  unfolding open_vacant_def
  by (intro answers_bind answers_close answers_drop answers_report answers_self environment_replies
      no_err_environment_drop)

text \<open>What becomes of the map.\<close>

lemma report_same_map:
  assumes "unwrap_or_report_failure os (lift_io m) fd t (envs, w) = (r, envs', w')"
  shows "envs' = envs"
proof -
  obtain x v where "m w = (x, v)" by (cases "m w")
  with assms show ?thesis
    by (cases x) (auto simp: unwrap_or_report_failure_def exec_defs sys_call_defs answer_def split: sum.splits)
qed

lemma drop_on_exit_map:
  assumes "drop_on_exit d m (s, w) = (r :: ('e, 'a) exec, s', w')" and m: "\<And>x t v. m (s, w) = (x, t, v) \<Longrightarrow> t = s"
  shows "s' = s"
proof -
  obtain x t v where x: "m (s, w) = (x, t, v)" by (cases "m (s, w)")
  obtain y u where "d v = (y, u)" by (cases "d v")
  moreover obtain z q where "with_drop d panic v = (z :: ('e, 'a) exec, q)"
    by (cases "with_drop d panic v :: ('e, 'a) exec \<times> world")
  ultimately show ?thesis
    using assms(1) x m [OF x] by (cases x; cases y) (auto simp: drop_on_exit_def bind_io_def lift_io_def throw_def)
qed

lemma open_vacant_map:
  assumes run: "open_vacant os gs n fd p (envs, w) = (r, envs', w')"
  shows "if \<exists>u. r = Ok u then \<exists>env. envs' = envs(n \<mapsto> env) else envs' = envs"
proof -
  let ?new = "unwrap_or_report_failure os (lift_io (environment_new os n)) fd (welcome_internal_error gs)"
  obtain x s v where new: "?new (envs, w) = (x, s, v)" by (cases "?new (envs, w)")
  have s: "s = envs" by (rule report_same_map [OF new])
  show ?thesis
  proof (cases x)
    case (Ok env)
    let ?ins = "drop_on_exit (environment_drop os gs env)
      (unwrap_or_report_failure os (lift_io (insert_socket os env p)) fd (welcome_internal_error gs))"
    obtain y t u where ins: "?ins (envs, v) = (y, t, u)" by (cases "?ins (envs, v)")
    have t: "t = envs" by (rule drop_on_exit_map [OF ins]) (rule report_same_map)
    show ?thesis
      using run new s Ok ins t
      by (cases y) (auto simp: open_vacant_def bind_io_def on_exit_drop_def set_self_def)
  qed (use run new s in \<open>auto simp: open_vacant_def bind_io_def on_exit_drop_def\<close>)
qed

text \<open>
  C6: a client that asks for an environment is answered exactly once. Unless the thread panics, one
  message has been sent when the request is handled, and to that client; if that was a success, the
  environment is in the map. The map changes only by entering a new environment under the name asked
  for, and only if there was none.
\<close>

theorem open_request_answered_once:
  assumes run: "handle_open_environment os gs n fd (envs, w) = (r, envs', w')"
    and ends: "(\<exists>u. r = Ok u) \<or> (\<exists>es. r = Err es)"
  shows "replies (trace w') = replies (trace w) @ [fd]
    \<and> (envs' = envs \<or> envs n = None \<and> (\<exists>env. envs' = envs(n \<mapsto> env)))
    \<and> (r = Ok () \<longrightarrow> envs' n \<noteq> None)"
proof -
  let ?t = "welcome_internal_error gs"
  let ?dup = "unwrap_or_report_failure os (lift_io (sys_fd os (Dup fd))) fd ?t :: (environments \<times> world, _, _) io"
  let ?open = "\<lambda>p envs. case envs n of None \<Rightarrow> open_vacant os gs n fd p
      | Some env \<Rightarrow> unwrap_or_report_failure os (lift_io (insert_socket os env p)) fd ?t"
  let ?ser = "unwrap_or_report_failure os (lift_io (pure_io (serialize_welcome gs OpenEnvironmentOk))) fd ?t
      :: (environments \<times> world, _, _) io"
  let ?reply = "\<lambda>response. bind_io (map_err (\<lambda>e. [e]) (lift_io (sys_num os (Send fd (as_bytes response))))) (\<lambda>_. ret ())
      :: (environments \<times> world, _, _) io"
  obtain x s v where dup: "?dup (envs, w) = (x, s, v)" by (cases "?dup (envs, w)")
  note a1 = answers_failureD [OF answers_report [OF environment_replies(4)] dup, unfolded answered_on_failure_def]
  have s: "s = envs" by (rule report_same_map [OF dup])
  show ?thesis
  proof (cases x)
    case p: (Ok p)
    obtain y t u where op: "?open p envs (envs, v) = (y, t, u)" by (cases "?open p envs (envs, v)")
    have "answers_failure fd (?open p envs)"
      by (auto intro: open_vacant_answers answers_report environment_replies split: option.split)
    note a2 = answers_failureD [OF this op, unfolded answered_on_failure_def]
    have map: "(t = envs \<or> envs n = None \<and> (\<exists>env. t = envs(n \<mapsto> env))) \<and> ((\<exists>u. y = Ok u) \<longrightarrow> t n \<noteq> None)"
      using op open_vacant_map [of os gs n fd p envs v y t u] report_same_map [of os _ fd ?t envs v y t u]
      by (cases "envs n") (auto split: if_splits)
    show ?thesis
    proof (cases y)
      case (Ok z)
      obtain a q b where ser: "?ser (t, u) = (a, q, b)" by (cases "?ser (t, u)")
      have "q = t" by (rule report_same_map [OF ser])
      note a3 = answers_failureD [OF answers_report [OF keeps_pure_io] ser, unfolded answered_on_failure_def]
      have tail: "handle_open_environment os gs n fd (envs, w) = finally_drop (apsnd (close_fd fd)) (bind_io ?ser ?reply) (t, u)"
        using dup s p op Ok by (simp add: handle_open_environment_def Let_def finally_drop_def bind_io_def get_self_def)
      show ?thesis
      proof (cases a)
        case resp: (Ok resp)
        define c where "c = ask_num os (trace b) (Send fd (as_bytes resp))"
        have "r = (case c of Inl e \<Rightarrow> Err [e] | Inr _ \<Rightarrow> Ok ()) \<and> envs' = t
            \<and> trace w' = trace b @ [NumAns (Send fd (as_bytes resp)) c, Did (Close fd)]"
          using run tail ser resp \<open>q = t\<close>
          by (cases c) (auto simp: finally_drop_def bind_io_def map_err_def lift_io_def sys_num_def Let_def ret_def c_def [symmetric])
        with a1 a2 a3 p Ok resp map show ?thesis by (auto split: sum.splits)
      qed (use run tail ser \<open>q = t\<close> a1 a2 a3 p Ok map ends in \<open>auto simp: finally_drop_def bind_io_def\<close>)
    qed (use run dup s p op map a1 a2 ends in
        \<open>auto simp: handle_open_environment_def Let_def finally_drop_def bind_io_def get_self_def\<close>)
  qed (use run dup s a1 ends in \<open>auto simp: handle_open_environment_def Let_def finally_drop_def bind_io_def\<close>)
qed

theorem open_request_answered_once_witness:
  "\<exists>envs w. handle_open_environment demo_welcome_os demo_gs ''a'' 50 (Map.empty, start_world) = (Ok (), envs, w)
    \<and> replies (trace w) = [50] \<and> envs ''a'' \<noteq> None"
proof -
  let ?m = "handle_open_environment demo_welcome_os demo_gs ''a'' 50 (Map.empty, start_world)"
  obtain r envs w where run: "?m = (r, envs, w)" by (cases ?m)
  have "fst ?m = Ok ()" by code_simp
  with run have r: "r = Ok ()" by simp
  have "(\<exists>u. r = Ok u) \<or> (\<exists>es. r = Err es)" using r by simp
  from open_request_answered_once [OF run this] run r show ?thesis by (simp add: start_world_def)
qed

section \<open>Descriptors\<close>

text \<open>The descriptors of a map of environments, and the names that were ever served.\<close>

definition envs_fds :: "environments \<Rightarrow> raw_fd set" where
  "envs_fds envs = {fd. \<exists>n env. envs n = Some env \<and> fd \<in> env_fds env}"

fun names_served :: "event list \<Rightarrow> string set" where
  "names_served [] = {}"
| "names_served (Spawn (EnvironmentThread n) (Inr _) # es) = insert n (names_served es)"
| "names_served (_ # es) = names_served es"

lemma names_served_append [simp]: "names_served (xs @ ys) = names_served xs \<union> names_served ys"
  by (induction xs rule: names_served.induct) auto

definition apart :: "environments \<Rightarrow> bool" where
  "apart envs \<longleftrightarrow> (\<forall>n env. envs n = Some env \<longrightarrow> e_add_listener_event env \<noteq> e_drop_event env)
     \<and> (\<forall>n m a b. envs n = Some a \<longrightarrow> envs m = Some b \<longrightarrow> n \<noteq> m \<longrightarrow> env_fds a \<inter> env_fds b = {})"

text \<open>The thread owns \<open>R\<close> and the descriptors of its environments, each once.\<close>

definition welcome_owns :: "raw_fd set \<Rightarrow> environments \<times> world \<Rightarrow> bool" where
  "welcome_owns R sw \<longleftrightarrow> owns (R \<union> envs_fds (fst sw)) (trace (snd sw)) \<and> R \<inter> envs_fds (fst sw) = {} \<and> apart (fst sw)
     \<and> dom (fst sw) \<subseteq> names_served (trace (snd sw))"

lemma envs_fds_new: "envs n = None \<Longrightarrow> envs_fds (envs(n \<mapsto> env)) = envs_fds envs \<union> env_fds env"
proof -
  assume "envs n = None"
  then have "fd \<in> envs_fds (envs(n \<mapsto> env)) \<longleftrightarrow> fd \<in> envs_fds envs \<union> env_fds env" for fd
    unfolding envs_fds_def by (simp, metis option.distinct(1))
  then show ?thesis by blast
qed

lemma envs_fds_removed:
  assumes "apart envs" "envs n = Some env"
  shows "envs_fds envs = envs_fds (envs(n := None)) \<union> env_fds env"
    and "envs_fds (envs(n := None)) \<inter> env_fds env = {}"
proof -
  have "fd \<in> envs_fds envs \<longleftrightarrow> fd \<in> envs_fds (envs(n := None)) \<union> env_fds env" for fd
    using assms(2) unfolding envs_fds_def by (simp, metis option.inject)
  then show "envs_fds envs = envs_fds (envs(n := None)) \<union> env_fds env" by blast
  have "fd \<notin> env_fds env" if "envs m = Some b" "m \<noteq> n" "fd \<in> env_fds b" for m b fd
    using that assms unfolding apart_def by blast
  then show "envs_fds (envs(n := None)) \<inter> env_fds env = {}" by (auto simp: envs_fds_def split: if_splits)
qed

lemma apart_removed: "apart envs \<Longrightarrow> apart (envs(n := None))"
  by (auto simp: apart_def split: if_splits)

lemma apart_new:
  assumes "apart envs" "env_fds env \<inter> envs_fds envs = {}" "e_add_listener_event env \<noteq> e_drop_event env"
  shows "apart (envs(n \<mapsto> env))"
proof -
  have "env_fds env \<inter> env_fds b = {}" if "envs m = Some b" for m b
    using assms(2) that by (auto simp: envs_fds_def)
  with assms(1,3) show ?thesis by (auto simp: apart_def Int_commute split: if_splits)
qed

text \<open>The trace only grows.\<close>

lemma trace_grows:
  "environment_new os n w = (r1, w') \<Longrightarrow> names_served (trace w) \<subseteq> names_served (trace w')"
  "insert_socket os env p w = (r2, w') \<Longrightarrow> names_served (trace w) \<subseteq> names_served (trace w')"
  "environment_drop os gs env w = (r3 :: ('e, unit) exec, w') \<Longrightarrow> names_served (trace w) \<subseteq> names_served (trace w')"
proof -
  note grow = only_result [of "\<lambda>_. True", unfolded only_def]
  show "environment_new os n w = (r1, w') \<Longrightarrow> names_served (trace w) \<subseteq> names_served (trace w')"
    using grow [of "environment_new os n"] alphabet.environment_new_calls [of "\<lambda>_. True"] by fastforce
  show "insert_socket os env p w = (r2, w') \<Longrightarrow> names_served (trace w) \<subseteq> names_served (trace w')"
    using grow [of "insert_socket os env p"] alphabet.insert_socket_calls [of "\<lambda>_. True"] by fastforce
  show "environment_drop os gs env w = (r3 :: ('e, unit) exec, w') \<Longrightarrow> names_served (trace w) \<subseteq> names_served (trace w')"
    using grow [of "environment_drop os gs env :: ('e, unit) routine"] alphabet.environment_drop_calls [of "\<lambda>_. True"]
    by fastforce
qed

text \<open>Calls that move no descriptor.\<close>

interpretation wfds: trace_invariant "\<lambda>tr. owns (R \<union> envs_fds envs) tr \<and> R \<inter> envs_fds envs = {} \<and> apart envs
     \<and> dom envs \<subseteq> names_served tr" "\<lambda>e. \<not> moves_fd e" for R envs
  by unfold_locales (auto simp: fds.snoc)

lemma wfds_call:
  assumes "\<And>envs. keeps (\<lambda>w. owns (R \<union> envs_fds envs) (trace w) \<and> R \<inter> envs_fds envs = {} \<and> apart envs
     \<and> dom envs \<subseteq> names_served (trace w)) m"
  shows "keeps (welcome_owns R) (lift_io m)" "keeps (\<lambda>w. welcome_owns R (envs, w)) m"
  using assms by (auto simp: welcome_owns_def [abs_def] intro!: keeps_lift)

lemma welcome_owns_quiet:
  "welcome_owns R (envs, w) \<Longrightarrow> list_all (\<lambda>e. \<not> moves_fd e) es \<Longrightarrow> trace w' = trace w @ es \<Longrightarrow> welcome_owns R (envs, w')"
  using owns_quiet by (auto simp: welcome_owns_def)

lemma welcome_owns_close:
  assumes "welcome_owns (insert p R) (envs, w)" and "p \<notin> R"
  shows "welcome_owns R (envs, close_fd p w)"
proof -
  have "insert p R \<union> envs_fds envs - {p} = R \<union> envs_fds envs"
    using assms by (auto simp: welcome_owns_def)
  with owns_close [of "insert p R \<union> envs_fds envs" "trace w" p] assms(1) show ?thesis
    by (auto simp: welcome_owns_def)
qed

section \<open>Every part keeps the accounts\<close>

lemma insert_socket_welcome:
  assumes run: "insert_socket os env p w = (r, w')" and own: "welcome_owns (insert p R) (envs, w)" and p: "p \<notin> R"
  shows "welcome_owns R (envs, w')"
proof -
  have "insert p R \<union> envs_fds envs - {p} = R \<union> envs_fds envs"
    using own p by (auto simp: welcome_owns_def)
  with insert_socket_owns [OF run, of "insert p R \<union> envs_fds envs"] trace_grows(2) [OF run] own show ?thesis
    by (auto simp: welcome_owns_def)
qed

lemma environment_drop_welcome:
  assumes run: "environment_drop os gs env w = (r :: ('e, unit) exec, w')"
    and own: "owns (S \<union> env_fds env) (trace w)" "S \<inter> env_fds env = {}" and ne: "e_add_listener_event env \<noteq> e_drop_event env"
  shows "owns S (trace w')"
proof -
  have "S \<union> env_fds env - env_fds env = S" using own(2) by auto
  with environment_drop_owns [OF run own(1) _ ne] show ?thesis by simp
qed

lemma open_vacant_owns:
  assumes run: "open_vacant os gs n fd p (envs, w) = (r, envs', w')" and os: "fresh_fds os"
    and own: "welcome_owns (insert p R) (envs, w)" and p: "p \<notin> R" and free: "envs n = None"
  shows "welcome_owns R (envs', w')"
proof -
  let ?S = "insert p R \<union> envs_fds envs" and ?t = "welcome_internal_error gs"
  let ?new = "unwrap_or_report_failure os (lift_io (environment_new os n)) fd ?t"
  have S: "owns ?S (trace w)" "apart envs" "dom envs \<subseteq> names_served (trace w)" "p \<notin> envs_fds envs" "R \<inter> envs_fds envs = {}"
    using own by (auto simp: welcome_owns_def)
  obtain y s v where new: "?new (envs, w) = (y, s, v)" by (cases "?new (envs, w)")
  from new environment_new_outcome show ?thesis
  proof (cases rule: report_cases)
    case (err e u x es)
    from environment_new_owns [OF err(1) os S(1)] have "owns ?S (trace u)" by simp
    with S trace_grows(1) [OF err(1)] have "welcome_owns (insert p R) (envs, u)" by (auto simp: welcome_owns_def)
    from welcome_owns_close [OF welcome_owns_quiet [OF this _ err(4)] p] show ?thesis
      using run new err(2,3) by (simp add: open_vacant_def bind_io_def on_exit_drop_def)
  next
    case (ok env)
    from environment_new_owns [OF ok(1) os S(1)]
    have E: "owns (?S \<union> env_fds env) (trace v)" "?S \<inter> env_fds env = {}" "e_add_listener_event env \<noteq> e_drop_event env"
      by auto
    have served: "insert n (dom envs) \<subseteq> names_served (trace v)"
      using ok(1) S(3) by (cases rule: environment_new_cases) auto
    obtain z s2 u where ins: "unwrap_or_report_failure os (lift_io (insert_socket os env p)) fd ?t (envs, v) = (z, s2, u)"
      by (cases "unwrap_or_report_failure os (lift_io (insert_socket os env p)) fd ?t (envs, v)")
    have gone: "?S \<union> env_fds env - {p} = (R \<union> envs_fds envs) \<union> env_fds env"
      using S(4) p E(2) by auto
    from ins insert_socket_outcome show ?thesis
    proof (cases rule: report_cases)
      case ok': (ok a)
      have "owns ((R \<union> envs_fds envs) \<union> env_fds env) (trace u)"
        using insert_socket_owns [OF ok'(1) E(1)] gone by simp
      moreover have "envs' = envs(n \<mapsto> env) \<and> w' = u"
        using run new ins ok ok' by (auto simp: open_vacant_def bind_io_def on_exit_drop_def drop_on_exit_def set_self_def)
      moreover have "apart (envs(n \<mapsto> env))"
        using S(2) E(2,3) by (intro apart_new) auto
      ultimately show ?thesis
        using S(5) E(2) served trace_grows(2) [OF ok'(1)] envs_fds_new [of envs n env, OF free]
        by (auto simp: welcome_owns_def Un_assoc)
    next
      case (err e t x es)
      have "owns ((R \<union> envs_fds envs) \<union> env_fds env) (trace t)"
        using insert_socket_owns [OF err(1) E(1)] gone by simp
      from owns_quiet [OF this, of "[NumAns (Send fd (as_bytes ?t)) x]"]
      have u: "owns ((R \<union> envs_fds envs) \<union> env_fds env) (trace u)" by (simp add: err(4))
      obtain q t' where drop: "environment_drop os gs env u = (q :: (detailed_error list, unit) exec, t')"
        by (cases "environment_drop os gs env u :: (detailed_error list, unit) exec \<times> world")
      have "w' = t' \<and> envs' = envs"
        using run new ins ok err(2,3) drop
        by (cases q) (auto simp: open_vacant_def bind_io_def on_exit_drop_def drop_on_exit_def lift_io_def throw_def)
      moreover have "owns (R \<union> envs_fds envs) (trace t')"
        by (rule environment_drop_welcome [OF drop u _ E(3)]) (use E(2) in auto)
      moreover have "dom envs \<subseteq> names_served (trace t')"
        using served trace_grows(2) [OF err(1)] trace_grows(3) [OF drop] by (auto simp: err(4))
      ultimately show ?thesis using S by (simp add: welcome_owns_def)
    qed
  qed
qed

lemma report_owns_keeps:
  assumes run: "unwrap_or_report_failure os (lift_io m) fd t (envs, w) = (r, envs', w')"
    and m: "\<And>x v. m w = (x, v) \<Longrightarrow> welcome_owns R (envs, v)"
  shows "welcome_owns R (envs', w')"
proof -
  obtain x v where x: "m w = (x, v)" by (cases "m w")
  have told: "welcome_owns R (envs, u)" if "trace u = trace v @ [NumAns (Send fd b) y]" for u b y
    by (rule welcome_owns_quiet [OF m [OF x] _ that]) simp
  show ?thesis
    using run x m [OF x] told
    by (cases x) (auto simp: unwrap_or_report_failure_def exec_defs sys_call_defs answer_def split: sum.splits)
qed

lemma handle_open_environment_owns:
  assumes run: "handle_open_environment os gs n fd (envs, w) = (r, envs', w')" and os: "fresh_fds os"
    and own: "welcome_owns (insert fd R) (envs, w)" and fd: "fd \<notin> R" and r: "\<forall>c. r \<noteq> Exit c" "r \<noteq> NoReturn"
  shows "welcome_owns R (envs', w')"
proof -
  let ?t = "welcome_internal_error gs" and ?Q = "insert fd R"
  let ?reply = "bind_io (unwrap_or_report_failure os (lift_io (pure_io (serialize_welcome gs OpenEnvironmentOk))) fd ?t)
        (\<lambda>response. bind_io (map_err (\<lambda>e. [e]) (lift_io (sys_num os (Send fd (as_bytes response))))) (\<lambda>_. ret ()))
      :: (environments \<times> world, detailed_error list, unit) io"
  let ?rest = "\<lambda>p. bind_io get_self (\<lambda>envs. bind_io (case envs n of None \<Rightarrow> open_vacant os gs n fd p
      | Some env \<Rightarrow> unwrap_or_report_failure os (lift_io (insert_socket os env p)) fd ?t) (\<lambda>_. ?reply))"
  let ?dup = "unwrap_or_report_failure os (lift_io (sys_fd os (Dup fd))) fd ?t :: (environments \<times> world, _, _) io"
  have send: "keeps (\<lambda>w. welcome_owns ?Q (envs, w)) (sys_num os (Send fd b))" for envs b
    by (rule wfds_call(2), rule wfds.answers, simp)
  have reply: "keeps (welcome_owns ?Q) ?reply"
    by (intro keeps_bind keeps_unwrap_or_report keeps_lift keeps_pure_io keeps_map_err keeps_pure send)
  define d where "d = ask_fd os (trace w) (Dup fd)"
  let ?w1 = "log_event (FdAns (Dup fd) d) w"
  obtain y s v where body: "bind_io ?dup ?rest (envs, w) = (y, s, v)" by (cases "bind_io ?dup ?rest (envs, w)")
  have "welcome_owns ?Q (s, v)"
  proof (cases d)
    case (Inl e)
    have "welcome_owns ?Q (envs, ?w1)"
      by (rule welcome_owns_quiet [OF own, of "[FdAns (Dup fd) (Inl e)]"]) (simp_all add: Inl)
    from welcome_owns_quiet [OF this, of "[NumAns (Send fd (as_bytes ?t)) z]" for z] show ?thesis
      using body Inl
      by (cases "ask_num os (trace ?w1) (Send fd (as_bytes ?t))")
        (auto simp: unwrap_or_report_failure_def exec_defs sys_call_defs d_def [symmetric])
  next
    case (Inr p)
    have p: "p \<notin> ?Q \<union> envs_fds envs"
      using fresh_fdsD [OF os Inr [unfolded d_def]] own by (auto simp: welcome_owns_def owns_def)
    have dup: "?dup (envs, w) = (Ok p, envs, ?w1)"
      using Inr by (simp add: unwrap_or_report_failure_def exec_defs sys_fd_def Let_def d_def [symmetric])
    have w1: "welcome_owns (insert p ?Q) (envs, ?w1)"
      using own p owns_new(1) [of "?Q \<union> envs_fds envs" "trace w" p "Dup fd"] Inr
      by (auto simp: welcome_owns_def)
    have "bind_io (case envs n of None \<Rightarrow> open_vacant os gs n fd p
      | Some env \<Rightarrow> unwrap_or_report_failure os (lift_io (insert_socket os env p)) fd ?t) (\<lambda>_. ?reply) (envs, ?w1) = (y, s, v)"
      using body dup by (simp add: bind_io_def get_self_def)
    then show ?thesis
    proof (rule bind_keeps [OF _ _ reply])
      fix x z assume o': "(case envs n of None \<Rightarrow> open_vacant os gs n fd p
        | Some env \<Rightarrow> unwrap_or_report_failure os (lift_io (insert_socket os env p)) fd ?t) (envs, ?w1) = (x, z)"
      show "welcome_owns ?Q z"
      proof (cases "envs n")
        case None
        obtain z1 z2 where z: "z = (z1, z2)" by (cases z)
        have "open_vacant os gs n fd p (envs, ?w1) = (x, z1, z2)" using o' None z by simp
        from open_vacant_owns [OF this os w1 _ None] p show ?thesis by (simp add: z)
      next
        case (Some env)
        obtain z1 z2 where z: "z = (z1, z2)" by (cases z)
        have "unwrap_or_report_failure os (lift_io (insert_socket os env p)) fd ?t (envs, ?w1) = (x, z1, z2)"
          using o' Some z by simp
        then show ?thesis
          unfolding z by (rule report_owns_keeps) (erule insert_socket_welcome [OF _ w1], use p in simp)
      qed
    qed
  qed
  from welcome_owns_close [OF this fd] show ?thesis
    using run body r by (cases y) (auto simp: handle_open_environment_def Let_def finally_drop_def)
qed

text \<open>The client's socket belongs to the handler from the moment the request is parsed.\<close>

lemma receive_owns:
  assumes run: "welcome_receive_and_parse_request os gs sock w = (r, w')" and os: "fresh_fds os"
    and own: "welcome_owns R (envs, w)"
  shows "(\<exists>fd q. r = Ok (fd, q) \<and> fd \<notin> R \<and> welcome_owns (insert fd R) (envs, w')) \<or> (\<forall>a. r \<noteq> Ok a) \<and> welcome_owns R (envs, w')"
proof -
  define x where "x = ask_fd os (trace w) (Accept sock)"
  let ?w1 = "log_event (FdAns (Accept sock) x) w"
  have acc: "sys_fd os (Accept sock) w = (answer x, ?w1)"
    by (simp add: sys_fd_def x_def Let_def)
  show ?thesis
  proof (cases x)
    case (Inl e)
    have "r = Err [e] \<and> w' = ?w1"
      using run acc Inl by (simp add: welcome_receive_and_parse_request_def bind_io_def map_err_def)
    with welcome_owns_quiet [OF own, of "[FdAns (Accept sock) (Inl e)]" ?w1] Inl show ?thesis by simp
  next
    case (Inr fd)
    let ?body = "bind_io (map_err (\<lambda>e. [e]) (sys_uid os fd)) (\<lambda>uid.
        if uid = 0 then throw [IgnoredRootRequestError]
        else bind_io (parse_request os (welcome_max_size gs) (deserialize_welcome gs)
                  (serialize_welcome gs WelcomeMalformedRequest) fd) (\<lambda>request. ret (fd, request)))"
    have fd: "fd \<notin> R \<union> envs_fds envs"
      using fresh_fdsD [OF os Inr [unfolded x_def]] own by (auto simp: welcome_owns_def owns_def)
    have w1: "welcome_owns (insert fd R) (envs, ?w1)"
      using own fd owns_new(1) [of "R \<union> envs_fds envs" "trace w" fd "Accept sock"] Inr by (auto simp: welcome_owns_def)
    obtain y v where b: "?body ?w1 = (y, v)" by (cases "?body ?w1")
    have "keeps (\<lambda>w. welcome_owns (insert fd R) (envs, w)) ?body"
      by (rule wfds_call(2), intro keeps_bind keeps_map_err keeps_if keeps_pure wfds.answers wfds.requests) simp_all
    from keepsD [OF this w1 b] have v: "welcome_owns (insert fd R) (envs, v)" .
    have run': "on_exit_drop (close_fd fd) ?body ?w1 = (r, w')"
      using run acc Inr by (simp add: welcome_receive_and_parse_request_def bind_io_def map_err_def)
    have ok: "y = Ok (fst (fd, q), q)" if "y = Ok (a, q)" for a q
      using b that by (auto simp: bind_io_Ok ret_def throw_def split: if_splits)
    have ends: "(\<forall>c. y \<noteq> Exit c) \<and> y \<noteq> NoReturn"
      using b by (auto simp: parse_request_def reject_malformed_def exec_defs sys_call_defs answer_def
          split: sum.splits if_splits)
    show ?thesis
    proof (cases y)
      case (Ok aq)
      with run' b v fd ok show ?thesis by (cases aq) (auto simp: on_exit_drop_def)
    qed (use run' b welcome_owns_close [OF v] fd ends in \<open>auto simp: on_exit_drop_def\<close>)
  qed
qed

text \<open>Handling a request neither ends the process nor hangs.\<close>

definition returns :: "('w, 'e, 'a) io \<Rightarrow> bool" where
  "returns m \<longleftrightarrow> (\<forall>w. fst (m w) \<noteq> NoReturn \<and> (\<forall>c. fst (m w) \<noteq> Exit c))"

lemma returns_bind: "returns m \<Longrightarrow> (\<And>a. returns (f a)) \<Longrightarrow> returns (bind_io m f)"
  unfolding returns_def bind_io_def by (auto split: prod.splits exec.splits) (metis fst_conv)+

lemma returns_basic: "returns (ret a)" "returns get_self" "returns (set_self f)" "returns (lift_io (sys_num os n))"
  "returns (lift_io (pure_io x))" "returns (lift_io (sys_fd os c))"
  by (auto simp: returns_def exec_defs sys_call_defs answer_def split: sum.splits)

lemma returns_map_err: "returns m \<Longrightarrow> returns (map_err g m)"
  unfolding returns_def map_err_def by (auto split: prod.splits exec.splits) (metis fst_conv)+

lemma returns_exit: "returns m \<Longrightarrow> returns (on_exit_drop d m)"
  unfolding returns_def on_exit_drop_def by (auto split: prod.splits exec.splits) (metis fst_conv)+

lemma returns_finally: "returns m \<Longrightarrow> returns (finally_drop d m)"
  unfolding returns_def finally_drop_def by (auto split: prod.splits exec.splits) (metis fst_conv)+

lemma returns_report: "returns m \<Longrightarrow> returns (unwrap_or_report_failure os m fd t)"
  unfolding returns_def unwrap_or_report_failure_def match_io_def
  by (auto simp: lift_io_def sys_call_defs throw_def ret_def answer_def split: prod.splits exec.splits sum.splits) (metis fst_conv)+

lemma returns_environment:
  "returns (lift_io (environment_new os n))" "returns (lift_io (insert_socket os env p))"
  using environment_new_outcome [of os n] insert_socket_outcome [of os env p]
  by (auto simp: returns_def lift_io_def split: prod.splits) (metis exec.distinct fst_conv)+

lemma returns_vacant: "returns (open_vacant os gs n fd p)"
proof -
  let ?ins = "\<lambda>env. unwrap_or_report_failure os (lift_io (insert_socket os env p)) fd (welcome_internal_error gs)
    :: (environments \<times> world, _, _) io"
  have "returns (drop_on_exit (environment_drop os gs env) (?ins env))" for env
    unfolding returns_def
  proof (rule allI)
    fix sw :: "environments \<times> world"
    obtain envs w where sw: "sw = (envs, w)" by (cases sw)
    obtain y s v where ins: "?ins env (envs, w) = (y, s, v)" by (cases "?ins env (envs, w)")
    obtain q u where d: "environment_drop os gs env v = (q :: (detailed_error list, unit) exec, u)"
      by (cases "environment_drop os gs env v :: (detailed_error list, unit) exec \<times> world")
    have "q = Ok () \<or> q = Panic" using environment_drop_result [OF d] by (auto split: if_splits)
    with ins d insert_socket_outcome show "fst (drop_on_exit (environment_drop os gs env) (?ins env) sw) \<noteq> NoReturn
        \<and> (\<forall>c. fst (drop_on_exit (environment_drop os gs env) (?ins env) sw) \<noteq> Exit c)"
      by (cases rule: report_cases [OF ins insert_socket_outcome])
        (auto simp: sw drop_on_exit_def bind_io_def lift_io_def throw_def)
  qed
  then show ?thesis
    unfolding open_vacant_def
    by (intro returns_bind returns_exit returns_report returns_basic returns_environment)
qed

lemma returns_open: "returns (handle_open_environment os gs n fd)"
proof -
  have "returns (case envs n of None \<Rightarrow> open_vacant os gs n fd p
      | Some env \<Rightarrow> unwrap_or_report_failure os (lift_io (insert_socket os env p)) fd t)" for envs p t
    by (cases "envs n") (simp_all add: returns_vacant returns_report returns_environment)
  then show ?thesis
    unfolding handle_open_environment_def Let_def
    by (intro returns_finally returns_bind returns_report returns_map_err returns_basic)
qed

section \<open>The whole thread\<close>

lemma welcome_parts_owns:
  "keeps (welcome_owns R) (lift_io (send_error os e) :: (environments \<times> world, 'e, unit) io)"
  "keeps (welcome_owns R) (lift_io (read_event os fd) :: (environments \<times> world, 'e, unit) io)"
  "keeps (welcome_owns R) (lift_io (sys_poll os fds))"
  "keeps (welcome_owns R) (lift_io (send_all_errors os es) :: (environments \<times> world, 'e, unit) io)"
  "keeps (welcome_owns R) (lift_io (sys_closed_name os) :: (environments \<times> world, 'e, string try_recv) io)"
  by (rule wfds_call, (rule wfds.reports wfds.read_event_calls wfds.answers; simp))+

lemma close_turn_owns: "keeps (welcome_owns R) (close_turn os gs u :: (environments \<times> world, 'e, (unit, unit) turn) io)"
proof -
  have remove: "keeps (welcome_owns R) (bind_io get_self (\<lambda>envs. case envs name of
           None \<Rightarrow> ret (Next ())
         | Some env \<Rightarrow>
             bind_io (set_self (\<lambda>environments. environments(name := None))) (\<lambda>_.
             bind_io (lift_io (environment_drop os gs env)) (\<lambda>_. ret (Next ()))))
        :: (environments \<times> world, 'e, (unit, unit) turn) io)" for name
  proof (rule keeps_bind_self)
    fix envs w r sw assume own: "welcome_owns R (envs, w)"
      and run: "(case envs name of None \<Rightarrow> ret (Next ())
         | Some env \<Rightarrow>
             bind_io (set_self (\<lambda>environments. environments(name := None))) (\<lambda>_.
             bind_io (lift_io (environment_drop os gs env)) (\<lambda>_. ret (Next ())))) (envs, w)
          = (r :: ('e, (unit, unit) turn) exec, sw)"
    show "welcome_owns R sw"
    proof (cases "envs name")
      case None
      with run own show ?thesis by (simp add: ret_def)
    next
      case (Some env)
      obtain x v where d: "environment_drop os gs env w = (x :: ('e, unit) exec, v)"
        by (cases "environment_drop os gs env w :: ('e, unit) exec \<times> world")
      have sw: "sw = (envs(name := None), v)"
        using run Some d by (cases x) (auto simp: bind_io_def set_self_def lift_io_def ret_def)
      have o1: "owns (R \<union> envs_fds envs) (trace w)" "R \<inter> envs_fds envs = {}" "apart envs" "dom envs \<subseteq> names_served (trace w)"
        using own by (auto simp: welcome_owns_def)
      note rem = envs_fds_removed [of envs name env, OF o1(3) Some]
      have "owns (R \<union> envs_fds (envs(name := None))) (trace v)"
      proof (rule environment_drop_welcome [OF d])
        show "owns (R \<union> envs_fds (envs(name := None)) \<union> env_fds env) (trace w)"
          using o1(1) rem(1) by (simp add: Un_assoc)
        show "(R \<union> envs_fds (envs(name := None))) \<inter> env_fds env = {}" using o1(2) rem by auto
        show "e_add_listener_event env \<noteq> e_drop_event env" using o1(3) Some by (auto simp: apart_def)
      qed
      then show ?thesis
        using o1 rem apart_removed [OF o1(3), of name] trace_grows(3) [OF d] by (auto simp: sw welcome_owns_def)
    qed
  qed
  show ?thesis
    unfolding close_turn_def
    by (intro keeps_bind welcome_parts_owns keeps_case_try_recv remove keeps_pure)
qed

lemma report_next_owns:
  "keeps (welcome_owns R) (bind_io (lift_io (send_all_errors os es)) (\<lambda>_. ret b) :: (environments \<times> world, 'e, 'b) io)"
  by (intro keeps_bind welcome_parts_owns keeps_pure)

lemma handle_welcome_owns:
  assumes os: "fresh_fds os"
  shows "keeps (welcome_owns R) (handle_welcome os gs sock r :: (environments \<times> world, 'e, (unit, unit) turn) io)"
proof -
  have accept: "keeps (welcome_owns R) (or_send_errors os (lift_io (welcome_receive_and_parse_request os gs sock)) (Next ())
      (\<lambda>(fd, request). case request of OpenEnvironment n \<Rightarrow>
         or_send_errors os (handle_open_environment os gs n fd) (Next ()) (\<lambda>_. ret (Next ())))
      :: (environments \<times> world, 'e, (unit, unit) turn) io)" (is "keeps _ ?m")
  proof (rule keepsI)
    fix sw r sw' assume own: "welcome_owns R sw" and run: "?m sw = (r, sw')"
    obtain envs w where sw: "sw = (envs, w)" by (cases sw)
    obtain x u where rcv: "welcome_receive_and_parse_request os gs sock w = (x, u)"
      by (cases "welcome_receive_and_parse_request os gs sock w")
    from receive_owns [OF rcv os own [unfolded sw]] show "welcome_owns R sw'"
    proof (elim disjE exE conjE)
      fix fd q assume x: "x = Ok (fd, q)" and fd: "fd \<notin> R" and u: "welcome_owns (insert fd R) (envs, u)"
      obtain n where q: "q = OpenEnvironment n" by (cases q)
      have run': "or_send_errors os (handle_open_environment os gs n fd) (Next ()) (\<lambda>_. ret (Next ())) (envs, u) = (r, sw')"
        using run rcv x q by (simp add: sw or_send_errors_def [of os "lift_io k" for k] match_io_def lift_io_def)
      have h: "welcome_owns R t" if h: "handle_open_environment os gs n fd (envs, u) = (y, t)" for y t
      proof -
        obtain e v where t: "t = (e, v)" by (cases t)
        have "\<forall>c. y \<noteq> Exit c" "y \<noteq> NoReturn"
          using returns_open [of os gs n fd] h by (auto simp: returns_def) (metis fst_conv)+
        from handle_open_environment_owns [OF h [unfolded t] os u fd this] show ?thesis by (simp add: t)
      qed
      show ?thesis
        using run'
      proof (rule handled_or_sent_keeps [OF _ h _ report_next_owns])
        fix b t assume "handle_open_environment os gs n fd (envs, u) = (Ok b, t)" and "ret (Next ()) t = (r, sw')"
        with h show "welcome_owns R sw'" by (simp add: ret_def)
      qed
    next
      assume x: "\<forall>a. x \<noteq> Ok a" and u: "welcome_owns R (envs, u)"
      show ?thesis
        using run
      proof (rule handled_or_sent_keeps [OF _ _ _ report_next_owns])
        fix y t assume "lift_io (welcome_receive_and_parse_request os gs sock) sw = (y, t)"
        with rcv u show "welcome_owns R t" by (simp add: sw lift_io_def)
      next
        fix a t assume "lift_io (welcome_receive_and_parse_request os gs sock) sw = (Ok a, t)"
        with rcv x show "welcome_owns R sw'" by (cases a) (simp add: sw lift_io_def)
      qed
    qed
  qed
  show ?thesis
    unfolding handle_welcome_def by (intro keeps_if keeps_bind keeps_pure welcome_parts_owns accept)
qed

lemma welcome_turn_owns:
  "fresh_fds os \<Longrightarrow>
    keeps (welcome_owns R) (welcome_turn os gs fds c fuel u :: (environments \<times> world, 'e, (unit, unit) turn) io)"
  unfolding welcome_turn_def signal_end_def close_environments_def
  by (intro keeps_match keeps_bind keeps_case_prod keeps_if keeps_pure keeps_run_loop handle_welcome_owns
      close_turn_owns welcome_parts_owns)

text \<open>
  Dropping the map releases the descriptors of every environment dropped; a panic leaves the
  others, which never happens while the thread already unwinds.
\<close>

lemma envs_fds_Cons:
  assumes "distinct (map fst ((n, env) # xs))" and "apart (map_of ((n, env) # xs))"
  shows "apart (map_of xs)"
    and "envs_fds (map_of ((n, env) # xs)) = envs_fds (map_of xs) \<union> env_fds env"
    and "envs_fds (map_of xs) \<inter> env_fds env = {}"
    and "e_add_listener_event env \<noteq> e_drop_event env"
proof -
  have "map_of xs n = None" using assms(1) by (simp add: map_of_eq_None_iff)
  then have rest: "(map_of ((n, env) # xs))(n := None) = map_of xs" by (auto simp: fun_eq_iff)
  have some: "map_of ((n, env) # xs) n = Some env" by simp
  show "apart (map_of xs)" using apart_removed [OF assms(2), of n] by (simp only: rest)
  show "envs_fds (map_of ((n, env) # xs)) = envs_fds (map_of xs) \<union> env_fds env"
    "envs_fds (map_of xs) \<inter> env_fds env = {}"
    using envs_fds_removed [OF assms(2), of n env, unfolded rest] by simp_all
  show "e_add_listener_event env \<noteq> e_drop_event env"
    using assms(2) some unfolding apart_def by blast
qed

lemma drop_environments_owns:
  assumes "drop_environments os gs xs w = (r :: ('e, unit) exec, w')" and "distinct (map fst xs)" and "apart (map_of xs)"
    and "owns (S \<union> envs_fds (map_of xs)) (trace w)" and "S \<inter> envs_fds (map_of xs) = {}"
  shows "\<exists>T. S \<subseteq> T \<and> owns T (trace w') \<and> (r = Ok () \<longrightarrow> T = S)"
  using assms
proof (induction xs arbitrary: w)
  case Nil
  then show ?case by (auto simp: ret_def envs_fds_def)
next
  case (Cons x xs)
  obtain n env where x: "x = (n, env)" by (cases x)
  note split = envs_fds_Cons [OF Cons.prems(2,3) [unfolded x]]
  obtain y v where d: "environment_drop os gs env w = (y :: ('e, unit) exec, v)"
    by (cases "environment_drop os gs env w :: ('e, unit) exec \<times> world")
  have v: "owns (S \<union> envs_fds (map_of xs)) (trace v)"
  proof (rule environment_drop_welcome [OF d])
    show "owns (S \<union> envs_fds (map_of xs) \<union> env_fds env) (trace w)"
      using Cons.prems(4) unfolding x split(2) by (simp add: Un_assoc)
    show "(S \<union> envs_fds (map_of xs)) \<inter> env_fds env = {}"
      using Cons.prems(5) split(3) unfolding x split(2) by blast
  qed (rule split)
  have y: "y = Ok () \<or> y = Panic" using environment_drop_result [OF d] by (auto split: if_splits)
  show ?case
  proof (cases "y = Ok ()")
    case True
    then have "drop_environments os gs xs v = (r, w')"
      using Cons.prems(1) d by (simp add: x bind_io_def)
    moreover have "S \<inter> envs_fds (map_of xs) = {}"
      using Cons.prems(5) unfolding x split(2) by blast
    ultimately show ?thesis
      using Cons.IH v split(1) Cons.prems(2) by simp
  next
    case False
    then have "r = Panic \<and> w' = v" using y Cons.prems(1) d by (auto simp: x bind_io_def)
    with v show ?thesis by blast
  qed
qed

lemma welcome_drop_owns:
  assumes run: "welcome_drop os gs order c envs w = (r :: ('e, unit) exec, w')" and own: "welcome_owns {s, c} (envs, w)"
    and order: "enumerates_envs order envs" and "s \<noteq> c"
  shows "\<exists>T. s \<in> T \<and> owns T (trace w') \<and> (r = Ok () \<longrightarrow> T = {s})"
proof -
  obtain x v where d: "drop_environments os gs (order envs) w = (x :: ('e, unit) exec, v)"
    by (cases "drop_environments os gs (order envs) w :: ('e, unit) exec \<times> world")
  have "distinct (map fst (order envs))" "apart (map_of (order envs))"
    "owns ({s, c} \<union> envs_fds (map_of (order envs))) (trace w)" "{s, c} \<inter> envs_fds (map_of (order envs)) = {}"
    using own order by (simp_all add: enumerates_envs_def welcome_owns_def)
  from drop_environments_owns [OF d this] obtain T where
    T: "{s, c} \<subseteq> T" "owns T (trace v)" "x = Ok () \<longrightarrow> T = {s, c}"
    by blast
  have closed: "owns (T - {c}) (trace (close_fd c v))"
    using owns_close [OF T(2), of c] T(1) by simp
  have ends: "w' = close_fd c v \<and> r = x \<or> w' = v \<and> r \<noteq> Ok ()"
    using run d by (cases x) (auto simp: welcome_drop_def finally_drop_def)
  show ?thesis
  proof (cases "w' = close_fd c v \<and> r = x")
    case True
    have "s \<in> T - {c}" "x = Ok () \<longrightarrow> T - {c} = {s}" using T(1,3) \<open>s \<noteq> c\<close> by auto
    with True closed show ?thesis by (intro exI [of _ "T - {c}"]) simp
  next
    case False
    with ends T(1,2) show ?thesis by (intro exI [of _ T]) simp
  qed
qed

text \<open>A scope of the thread that ends, and then drops the map.\<close>

lemma scope_owns:
  assumes run: "with_drop (welcome_drop os gs order c envs) m w = (r :: ('e, unit) exec, w')" and m: "m w = (x, v)"
    and own: "welcome_owns {s, c} (envs, v)" and order: "enumerates_envs order envs" and ne: "s \<noteq> c"
  shows "\<exists>T. s \<in> T \<and> owns T (trace w') \<and> (r = Ok () \<longrightarrow> T = {s})"
proof -
  have own': "welcome_owns {s, c} (envs, v\<lparr>panicking := b\<rparr>)" for b
    using own by (simp add: welcome_owns_def)
  obtain y t where d: "welcome_drop os gs order c envs v = (y :: ('e, unit) exec, t)"
    by (cases "welcome_drop os gs order c envs v :: ('e, unit) exec \<times> world")
  obtain z u where p: "welcome_drop os gs order c envs (v\<lparr>panicking := True\<rparr>) = (z :: ('e, unit) exec, u)"
    by (cases "welcome_drop os gs order c envs (v\<lparr>panicking := True\<rparr>) :: ('e, unit) exec \<times> world")
  note drops = welcome_drop_owns [OF d own order ne] welcome_drop_owns [OF p own' order ne]
  have alone: "owns ({s, c} \<union> envs_fds envs) (trace v)" "s \<in> {s, c} \<union> envs_fds envs"
    using own by (simp_all add: welcome_owns_def)
  show ?thesis
  proof (cases x)
    case (Ok a)
    with run m d have "w' = t" "r = Ok () \<longrightarrow> y = Ok ()" by (cases y; simp add: with_drop_def exec_defs)+
    with drops(1) show ?thesis by blast
  next
    case (Err e)
    with run m d have "w' = t" "r \<noteq> Ok ()" by (cases y; auto simp: with_drop_def exec_defs)+
    with drops(1) show ?thesis by blast
  next
    case Panic
    with run m p have "w' = u" "r \<noteq> Ok ()" by (cases z; auto simp: with_drop_def)+
    with drops(2) show ?thesis by blast
  qed (use run m alone in \<open>auto simp: with_drop_def\<close>)
qed

interpretation named: trace_invariant "\<lambda>tr. N \<subseteq> names_served tr" "\<lambda>_. True" for N
  by unfold_locales auto

lemma names_grow:
  "keeps (\<lambda>w. N \<subseteq> names_served (trace w)) (welcome_drop os gs order c envs :: ('e, unit) routine)"
  "(with_drop (welcome_drop os gs order c envs) (Pair x) :: ('e, unit) routine) v = (r, w')
    \<Longrightarrow> N \<subseteq> names_served (trace v) \<Longrightarrow> N \<subseteq> names_served (trace w')"
proof -
  show d: "keeps (\<lambda>w. N \<subseteq> names_served (trace w)) (welcome_drop os gs order c envs :: ('e, unit) routine)"
    by (rule named.welcome_drop_calls) simp_all
  have "keeps (\<lambda>w. N \<subseteq> names_served (trace w)) (with_drop (welcome_drop os gs order c envs) (Pair x) :: ('e, unit) routine)"
    by (intro keeps_with_drop d) (simp_all add: keeps_def)
  from keepsD [OF this] show "(with_drop (welcome_drop os gs order c envs) (Pair x) :: ('e, unit) routine) v = (r, w')
    \<Longrightarrow> N \<subseteq> names_served (trace v) \<Longrightarrow> N \<subseteq> names_served (trace w')" by blast
qed

lemma welcome_loop_owns:
  assumes run: "(welcome_loop os gs order fds c fuel :: ('e, unit) routine) w = (r, w')" and os: "fresh_fds os"
    and own: "welcome_owns {s, c} (Map.empty, w)" and ne: "s \<noteq> c"
    and order: "\<And>m. dom m \<subseteq> names_served (trace w') \<Longrightarrow> enumerates_envs order m"
  shows "\<exists>T. s \<in> T \<and> owns T (trace w') \<and> (r = Ok () \<longrightarrow> T = {s})"
proof -
  obtain x envs v where l: "(run_loop fuel (welcome_turn os gs fds c fuel) () (Map.empty, w)
      :: ('e, unit) exec \<times> environments \<times> world) = (x, envs, v)"
    by (cases "run_loop fuel (welcome_turn os gs fds c fuel) () (Map.empty, w) :: ('e, unit) exec \<times> environments \<times> world")
  have v: "welcome_owns {s, c} (envs, v)"
    using keepsD [OF keeps_run_loop [OF welcome_turn_owns [OF os]] own l] .
  have d: "with_drop (welcome_drop os gs order c envs) (Pair x) v = (r, w')"
    using run l by (simp add: welcome_loop_def)
  have "dom envs \<subseteq> names_served (trace w')"
    by (rule names_grow(2) [OF d]) (use v in \<open>simp add: welcome_owns_def\<close>)
  from scope_owns [OF d refl v order [OF this] ne] show ?thesis .
qed

lemma fail_and_reload_owns: "keeps (\<lambda>w. welcome_owns R (envs, w)) (fail_and_reload os e :: ('e, unit) routine)"
  unfolding fail_and_reload_def by (intro keeps_bind wfds_call(2)) (rule wfds.reports; simp)+

lemma demo_order_enumerates:
  assumes "dom m \<subseteq> {''a'', ''b''}"
  shows "enumerates_envs demo_env_order m"
proof -
  have "map_of (demo_env_order m) n = m n" for n
    using assms by (cases "n \<in> dom m") (auto simp: demo_env_order_def)
  moreover have "distinct (map fst (demo_env_order m))"
    by (simp add: demo_env_order_def)
  ultimately show ?thesis by (simp add: enumerates_envs_def fun_eq_iff)
qed

lemma demo_welcome_fresh: "fresh_fds demo_welcome_os"
  using calm_os_fresh by (simp add: demo_welcome_os_def fresh_fds_def)

text \<open>
  C7: the welcome thread gives back every descriptor. When the thread returns, it owns no
  descriptor any more: the welcome socket, the close event, the events of every environment it
  started and the socket of every client it accepted are closed or handed to a thread; and however
  it ends, it never closed a descriptor that was not its own, so none was closed twice.
\<close>

theorem welcome_thread_releases_descriptors:
  assumes run: "welcome_thread_main os gs order fds fuel w = (r :: ('e, unit) exec, w')" and os: "fresh_fds os"
    and own: "owned (trace w) = {w_socket fds}" "closes_only_owned (trace w)"
    and order: "\<And>m. dom m \<subseteq> names_served (trace w') \<Longrightarrow> enumerates_envs order m"
  shows "closes_only_owned (trace w') \<and> (r = Ok () \<longrightarrow> owned (trace w') = {})"
proof -
  let ?s = "w_socket fds"
  let ?good = "\<lambda>(r :: ('e, unit) exec) w. \<exists>T. ?s \<in> T \<and> owns T (trace w) \<and> (r = Ok () \<longrightarrow> T = {?s})"
  define x where "x = ask_fd os (trace w) EventFdNew"
  let ?w1 = "log_event (FdAns EventFdNew x) w"
  let ?rest = "\<lambda>c. match_io (sys_unit os (Listen ?s))
       (\<lambda>e. with_drop (welcome_drop os gs order c Map.empty) (fail_and_reload os e))
       (\<lambda>_. welcome_loop os gs order fds c fuel) :: ('e, unit) routine"
  obtain y v where b: "match_io (sys_fd os EventFdNew) (fail_and_reload os) ?rest w = (y, v)"
    by (cases "match_io (sys_fd os EventFdNew) (fail_and_reload os) ?rest w")
  have ends: "w' = close_fd ?s v \<and> r = y \<or> w' = v \<and> r \<noteq> Ok ()"
    using run b by (cases y) (auto simp: welcome_thread_main_def finally_drop_def)
  have empty: "welcome_owns R (Map.empty, u) \<longleftrightarrow> owns R (trace u)" for R u
    by (simp add: welcome_owns_def envs_fds_def apart_def)
  have order': "enumerates_envs order m" if "dom m \<subseteq> names_served (trace v)" for m
    using order [of m] that ends by auto
  have new: "sys_fd os EventFdNew w = (answer x, ?w1)" by (simp add: sys_fd_def x_def Let_def)
  have start: "owns {?s} (trace w)" using own by (simp add: owns_def)
  have "?good y v"
  proof (cases x)
    case (Inl e)
    have "owns {?s} (trace ?w1)" using owns_log [OF start] Inl by simp
    moreover obtain a where "fail_and_reload os a ?w1 = (y, v)"
      using b new Inl by (auto simp: match_io_def)
    ultimately have "owns {?s} (trace v)"
      using keepsD [OF fail_and_reload_owns, of "{?s}" Map.empty] empty by blast
    then show ?thesis by blast
  next
    case (Inr c)
    have ne: "?s \<noteq> c" using fresh_fdsD [OF os Inr [unfolded x_def]] own(1) by auto
    have w1: "welcome_owns {?s, c} (Map.empty, ?w1)"
      using owns_new(1) [OF start, of c EventFdNew] Inr by (simp add: empty insert_commute)
    obtain z u where l: "sys_unit os (Listen ?s) ?w1 = (z, u)" by (cases "sys_unit os (Listen ?s) ?w1")
    have "keeps (\<lambda>w. welcome_owns {?s, c} (Map.empty, w)) (sys_unit os (Listen ?s))"
      by (rule wfds_call(2)) (rule wfds.answers, simp)
    from keepsD [OF this w1 l] have u: "welcome_owns {?s, c} (Map.empty, u)" .
    have rest: "?rest c ?w1 = (y, v)" using b new Inr by (simp add: match_io_def)
    show ?thesis
    proof (cases z)
      case (Ok a)
      then have "welcome_loop os gs order fds c fuel u = (y, v)" using rest l by (simp add: match_io_def)
      from welcome_loop_owns [OF this os u ne order'] show ?thesis by blast
    next
      case (Err e)
      then have f: "with_drop (welcome_drop os gs order c Map.empty) (fail_and_reload os e) u = (y, v)"
        using rest l by (simp add: match_io_def)
      obtain q t where q: "fail_and_reload os e u = (q :: ('e, unit) exec, t)"
        by (cases "fail_and_reload os e u :: ('e, unit) exec \<times> world")
      from scope_owns [OF f q keepsD [OF fail_and_reload_owns u q] order' ne] show ?thesis by simp
    qed (use rest l u in \<open>auto simp: match_io_def exec_defs sys_call_defs answer_def split: sum.splits\<close>)
  qed
  then obtain T where T: "?s \<in> T" "owns T (trace v)" "y = Ok () \<longrightarrow> T = {?s}" by blast
  from ends show ?thesis
  proof (elim disjE conjE)
    assume "w' = close_fd ?s v" "r = y"
    with owns_close [OF T(2,1)] T(3) show ?thesis by (auto simp: owns_def)
  next
    assume "w' = v" "r \<noteq> Ok ()"
    with T(2) show ?thesis by (simp add: owns_def)
  qed
qed

theorem welcome_thread_releases_descriptors_witness:
  "fst demo_welcome = Ok () \<and> owned (trace (snd demo_welcome)) = {}"
proof -
  let ?w = "log_event (FdAns SocketNew (Inr 3)) start_world"
  have ok: "fst demo_welcome = Ok ()" by code_simp
  then have run: "welcome_thread_main demo_welcome_os demo_gs demo_env_order demo_fds_of 5 ?w
      = (Ok () :: (unit, unit) exec, snd demo_welcome)"
    by (simp add: demo_welcome_def prod_eq_iff)
  have served: "names_served (trace (snd demo_welcome)) \<subseteq> {''a'', ''b''}" by code_simp
  have order: "enumerates_envs demo_env_order m" if "dom m \<subseteq> names_served (trace (snd demo_welcome))" for m
    by (rule demo_order_enumerates) (use that served in blast)
  have "owned (trace ?w) = {w_socket demo_fds_of}" "closes_only_owned (trace ?w)"
    by (simp_all add: trace_simps start_world_def demo_fds_of_def owned_def closes_only_owned_def)
  with welcome_thread_releases_descriptors [OF run _ _ _ order] ok show ?thesis
    using demo_welcome_fresh by blast
qed

end
