(* ===== verification/Introductions.thy ===== *)
theory Introductions imports Dispatch begin

text \<open>
  How a client gets to the thread of an environment: the welcome thread accepts it, learns from
  the kernel whose process it is, receives its request, duplicates its socket and sends the
  duplicate to the thread, in this order, for one client at a time.
\<close>

section \<open>Acquaintance\<close>

text \<open>How far the welcome thread knows the client it deals with, read off the trace.\<close>

datatype acquaintance =
    Nobody
  | Met raw_fd
  | Vetted raw_fd uid
  | Asked raw_fd uid string
  | Copied raw_fd uid string

fun meet :: "garnshared \<Rightarrow> event \<Rightarrow> acquaintance \<Rightarrow> acquaintance" where
  "meet gs (FdAns (Accept _) (Inr fd)) c = Met fd"
| "meet gs (PeerUid fd (Inr u)) c = (if c = Met fd then Vetted fd u else Nobody)"
| "meet gs (Recv fd k (Inr bs)) c =
     (case c of Vetted fd' u \<Rightarrow>
        (case welcome_request_in gs bs of Some n \<Rightarrow> if fd' = fd then Asked fd u n else Nobody | None \<Rightarrow> Nobody)
      | _ \<Rightarrow> Nobody)"
| "meet gs (FdAns (Dup fd) (Inr p)) c =
     (case c of Asked fd' u n \<Rightarrow> if fd' = fd then Copied p u n else Nobody | _ \<Rightarrow> Nobody)"
| "meet gs (BoolAns (SendListener _ _) _) c = Nobody"
| "meet gs _ c = c"

definition met_in :: "garnshared \<Rightarrow> event list \<Rightarrow> acquaintance" where
  "met_in gs tr = fold (meet gs) tr Nobody"

text \<open>A hand-over is proper if the socket is the copy of a client's that asked and is not root's.\<close>

fun fits :: "event \<Rightarrow> acquaintance \<Rightarrow> bool" where
  "fits (BoolAns (SendListener t p) b) c = (case c of Copied p' u n \<Rightarrow> p' = p \<and> u \<noteq> 0 | _ \<Rightarrow> False)"
| "fits _ c = True"

fun proper :: "garnshared \<Rightarrow> acquaintance \<Rightarrow> event list \<Rightarrow> bool" where
  "proper gs c [] = True"
| "proper gs c (e # es) = (fits e c \<and> proper gs (meet gs e c) es)"

definition introduces :: "garnshared \<Rightarrow> event list \<Rightarrow> bool" where
  "introduces gs tr = proper gs Nobody tr"

lemma met_in_snoc: "met_in gs (tr @ [e]) = meet gs e (met_in gs tr)"
  by (simp add: met_in_def)

lemma introduces_snoc: "introduces gs (tr @ [e]) \<longleftrightarrow> introduces gs tr \<and> fits e (met_in gs tr)"
proof -
  have "proper gs c (tr @ [e]) \<longleftrightarrow> proper gs c tr \<and> fits e (fold (meet gs) tr c)" for c
    by (induction tr arbitrary: c) (simp_all add: conj_assoc)
  then show ?thesis by (simp add: introduces_def met_in_def)
qed

lemma introduces_prefix: "introduces gs (xs @ ys) \<Longrightarrow> introduces gs xs"
  by (induction ys rule: rev_induct) (auto simp: introduces_snoc simp flip: append_assoc)

text \<open>Calls that introduce nobody, and calls that leave the acquaintance alone too.\<close>

fun hands_over :: "event \<Rightarrow> bool" where
  "hands_over (BoolAns (SendListener _ _) _) = True"
| "hands_over _ = False"

fun meets :: "event \<Rightarrow> bool" where
  "meets (FdAns (Accept _) (Inr _)) = True"
| "meets (PeerUid _ (Inr _)) = True"
| "meets (Recv _ _ (Inr _)) = True"
| "meets (FdAns (Dup _) (Inr _)) = True"
| "meets e = hands_over e"

lemma introduces_quiet: "\<not> hands_over e \<Longrightarrow> introduces gs (tr @ [e]) \<longleftrightarrow> introduces gs tr"
  by (cases "(e, met_in gs tr)" rule: fits.cases) (auto simp: introduces_snoc)

lemma meets_not: "\<not> meets e \<Longrightarrow> meet gs e c = c \<and> \<not> hands_over e"
  by (cases "(gs, e, c)" rule: meet.cases) auto

interpretation unnamed: trace_invariant "introduces gs" "\<lambda>e. \<not> hands_over e" for gs
  by unfold_locales (simp add: introduces_quiet)

interpretation known: trace_invariant "\<lambda>tr. introduces gs tr \<and> met_in gs tr = c" "\<lambda>e. \<not> meets e" for gs c
  using meets_not by unfold_locales (auto simp: introduces_quiet met_in_snoc)

section \<open>Every part introduces properly\<close>

text \<open>What holds after a routine that is followed by others.\<close>

lemma bind_post:
  assumes run: "bind_io m f sw = (r, sw')" and m: "\<And>x v. m sw = (x, v) \<Longrightarrow> (\<forall>a. x \<noteq> Ok a) \<Longrightarrow> I v"
    and f: "\<And>a v. m sw = (Ok a, v) \<Longrightarrow> f a v = (r, sw') \<Longrightarrow> I sw'"
  shows "I sw'"
proof -
  obtain x v where x: "m sw = (x, v)" by (cases "m sw")
  show ?thesis
  proof (cases x)
    case (Ok a)
    with run x show ?thesis by (intro f [of a v]) (simp_all add: bind_io_def)
  next
    case (Err e)
    with run x m [OF x] show ?thesis by (auto simp: bind_io_def)
  next
    case Panic
    with run x m [OF x] show ?thesis by (auto simp: bind_io_def)
  next
    case (Exit c)
    with run x m [OF x] show ?thesis by (auto simp: bind_io_def)
  next
    case NoReturn
    with run x m [OF x] show ?thesis by (auto simp: bind_io_def)
  qed
qed

lemma drop_on_exit_post:
  assumes run: "drop_on_exit d m sw = (r, sw')" and m: "\<And>x v. m sw = (x, v) \<Longrightarrow> I v"
    and d: "\<And>s. keeps (\<lambda>w. I (s, w)) d" and I: "\<And>s w. I (s, w) \<Longrightarrow> I (s, w\<lparr>panicking := True\<rparr>)"
  shows "I sw'"
proof -
  obtain x v where x: "m sw = (x, v)" by (cases "m sw")
  have "keeps I (\<lambda>_. m sw)" using m [OF x] x by (auto simp: keeps_def)
  from keeps_drop_on_exit [OF this d I] have "keeps I (drop_on_exit d (\<lambda>_. m sw))" .
  from keepsD [OF this m [OF x], of r sw'] run show ?thesis by (simp add: drop_on_exit_def)
qed

lemma unnamed_parts:
  "keeps (\<lambda>w. introduces gs (trace w)) (environment_drop os gs' env :: ('e, unit) routine)"
  "keeps (\<lambda>w. introduces gs (trace w)) (send_error os e :: ('e, unit) routine)"
  "keeps (\<lambda>w. introduces gs (trace w)) (send_all_errors os es :: ('e, unit) routine)"
  "keeps (\<lambda>w. introduces gs (trace w)) (read_event os fd :: ('e, unit) routine)"
  "keeps (\<lambda>w. introduces gs (trace w)) (welcome_drop os gs' order c envs :: ('e, unit) routine)"
  "keeps (\<lambda>w. introduces gs (trace w)) (sys_num os (Send fd b))"
  "keeps (\<lambda>w. introduces gs (trace w)) (sys_poll os fds)"
  "keeps (\<lambda>sw. introduces gs (trace (snd sw))) (close_environments os gs' c fuel :: (environments \<times> world, 'e, unit) io)"
  by (rule unnamed.environment_drop_calls unnamed.reports unnamed.read_event_calls unnamed.welcome_drop_calls
      unnamed.answers unnamed.close_environments_calls; simp)+

text \<open>Handing over the socket that was just copied.\<close>

lemma insert_socket_introduces:
  assumes run: "insert_socket os env p w = (r, w')"
    and known: "introduces gs (trace w)" "met_in gs (trace w) = Copied p u n" and u: "u \<noteq> 0"
  shows "introduces gs (trace w')"
proof -
  let ?b = "ask_bool os (trace w) (SendListener (e_thread env) p)"
  let ?e = "BoolAns (SendListener (e_thread env) p) ?b"
  let ?rest = "\<lambda>delivered. bind_io (if delivered then ret () else throw SendError) (\<lambda>_.
     bind_io (sys_unit os (EventFdWrite (e_add_listener_event env) 1)) (\<lambda>_.
     bind_io (sys_sync os (e_thread env)) (\<lambda>response. case response of
       None \<Rightarrow> throw RecvError | Some (Inl e) \<Rightarrow> throw e | Some (Inr _) \<Rightarrow> ret ())))"
  have told: "introduces gs (trace (log_event ?e w))"
    using known u by (simp add: introduces_snoc)
  have rest: "?rest ?b (log_event ?e w) = (r, w')"
    using run by (simp only: insert_socket_def bind_io_def [of "sys_bool os c" for c] sys_bool_def Let_def prod.case exec.case)
  have "keeps (\<lambda>w. introduces gs (trace w)) (?rest b)" for b
    by (intro keeps_bind keeps_if keeps_pure keeps_case_option keeps_case_sum unnamed.answers) simp_all
  from keepsD [OF this told rest] show ?thesis .
qed

lemma report_introduces:
  assumes run: "unwrap_or_report_failure os (lift_io m) fd t (envs, w) = (r, envs', w')"
    and m: "\<And>x v. m w = (x, v) \<Longrightarrow> introduces gs (trace v)"
  shows "introduces gs (trace w')"
proof -
  obtain x v where x: "m w = (x, v)" by (cases "m w")
  have told: "introduces gs (trace v @ [NumAns (Send fd b) y])" for b y
    using m [OF x] by (simp add: introduces_quiet)
  show ?thesis
    using run x m [OF x] told
    by (cases x) (auto simp: unwrap_or_report_failure_def exec_defs sys_call_defs answer_def split: sum.splits)
qed

lemma open_vacant_introduces:
  assumes run: "open_vacant os gs n fd p (envs, w) = (r, sw')"
    and known: "introduces gs (trace w) \<and> met_in gs (trace w) = Copied p u m" and u: "u \<noteq> 0"
  shows "introduces gs (trace (snd sw'))"
proof -
  let ?I = "\<lambda>sw :: environments \<times> world. introduces gs (trace (snd sw))"
  let ?t = "welcome_internal_error gs"
  let ?new = "unwrap_or_report_failure os (lift_io (environment_new os n)) fd ?t :: (environments \<times> world, _, _) io"
  let ?ins = "\<lambda>env. unwrap_or_report_failure os (lift_io (insert_socket os env p)) fd ?t :: (environments \<times> world, _, _) io"
  have made: "introduces gs (trace v) \<and> met_in gs (trace v) = Copied p u m" if "environment_new os n w = (x, v)" for x v
  proof -
    have "keeps (known.I gs (Copied p u m)) (environment_new os n)"
      by (rule known.environment_new_calls) simp_all
    from keepsD [OF this known that] show ?thesis .
  qed
  have ins: "introduces gs (trace b)" if "?ins env (a, v) = (y, c, b)"
    and "introduces gs (trace v) \<and> met_in gs (trace v) = Copied p u m" for env a v y c b
    by (rule report_introduces [OF that(1)]) (use that(2) in \<open>blast intro: insert_socket_introduces [OF _ _ _ u]\<close>)
  from run show ?thesis
    unfolding open_vacant_def
  proof (rule bind_post [where I = ?I])
    fix x v assume e: "on_exit_drop (apsnd (close_fd p)) ?new (envs, w) = (x, v)" and x: "\<forall>a. x \<noteq> Ok a"
    obtain y a b where y: "?new (envs, w) = (y, a, b)" by (cases "?new (envs, w)")
    have "introduces gs (trace b)" by (rule report_introduces [OF y]) (use made in blast)
    moreover have "v = (a, b) \<or> v = (a, close_fd p b)"
      using e y by (cases y) (auto simp: on_exit_drop_def)
    ultimately show "?I v" by (auto simp: introduces_quiet)
  next
    fix env v assume "on_exit_drop (apsnd (close_fd p)) ?new (envs, w) = (Ok env, v)"
      and rest: "bind_io (drop_on_exit (environment_drop os gs env) (?ins env))
          (\<lambda>_. set_self (\<lambda>environments. environments(n \<mapsto> env))) v = (r, sw')"
    then have "?new (envs, w) = (Ok env, v)"
      by (auto simp: on_exit_drop_def split: prod.splits exec.splits)
    then obtain b where b: "environment_new os n w = (Ok env, b)" "v = (envs, b)"
      by (auto simp: unwrap_or_report_failure_def exec_defs sys_call_defs answer_def split: prod.splits exec.splits sum.splits)
    let ?dropped = "drop_on_exit (environment_drop os gs env) (?ins env)"
    obtain z s where z: "?dropped v = (z, s)" by (cases "?dropped v")
    have "?I s"
    proof (rule drop_on_exit_post [OF z])
      show "?I t" if "?ins env v = (x, t)" for x t
        using ins [OF _ made [OF b(1)]] that by (cases t) (auto simp: b(2))
      show "keeps (\<lambda>w. ?I (e, w)) (environment_drop os gs env :: (detailed_error list, unit) routine)" for e :: environments
        by (simp add: unnamed_parts)
    qed simp
    then show "?I sw'"
      using rest z by (cases z) (auto simp: bind_io_def set_self_def)
  qed
qed

lemma handle_open_environment_introduces:
  assumes run: "handle_open_environment os gs n fd (envs, w) = (r, sw')"
    and known: "introduces gs (trace w)" "met_in gs (trace w) = Asked fd u n" and u: "u \<noteq> 0"
  shows "introduces gs (trace (snd sw'))"
proof -
  let ?I = "\<lambda>sw :: environments \<times> world. introduces gs (trace (snd sw))"
  let ?t = "welcome_internal_error gs"
  let ?dup = "unwrap_or_report_failure os (lift_io (sys_fd os (Dup fd))) fd ?t :: (environments \<times> world, _, _) io"
  let ?open = "\<lambda>p envs. case envs n of None \<Rightarrow> open_vacant os gs n fd p
      | Some env \<Rightarrow> unwrap_or_report_failure os (lift_io (insert_socket os env p)) fd ?t"
  let ?reply = "bind_io (unwrap_or_report_failure os (lift_io (pure_io (serialize_welcome gs OpenEnvironmentOk))) fd ?t)
      (\<lambda>response. bind_io (map_err (\<lambda>e. [e]) (lift_io (sys_num os (Send fd (as_bytes response))))) (\<lambda>_. ret ()))
      :: (environments \<times> world, _, _) io"
  let ?rest = "\<lambda>p. bind_io get_self (\<lambda>envs. bind_io (?open p envs) (\<lambda>_. ?reply))"
  have reply: "keeps ?I ?reply"
    by (intro keeps_bind keeps_unwrap_or_report keeps_lift keeps_pure_io keeps_map_err keeps_pure)
      (simp_all add: unnamed_parts)
  have dup: "introduces gs (trace v)" if "sys_fd os (Dup fd) w = (x, v)" for x v
    using that known(1) by (auto simp: sys_fd_def Let_def introduces_quiet)
  obtain y v where body: "bind_io ?dup ?rest (envs, w) = (y, v)" by (cases "bind_io ?dup ?rest (envs, w)")
  then have "?I v"
  proof (rule bind_post [where I = ?I])
    fix x s assume d: "?dup (envs, w) = (x, s)"
    obtain a b where s: "s = (a, b)" by (cases s)
    show "?I s" unfolding s snd_conv
      by (rule report_introduces [OF d [unfolded s]]) (rule dup)
  next
    fix p s assume d: "?dup (envs, w) = (Ok p, s)" and rest: "?rest p s = (y, v)"
    let ?w1 = "log_event (FdAns (Dup fd) (Inr p)) w"
    have s: "s = (envs, ?w1)"
      using d by (auto simp: unwrap_or_report_failure_def exec_defs sys_call_defs answer_def split: prod.splits sum.splits)
    have copied: "introduces gs (trace ?w1) \<and> met_in gs (trace ?w1) = Copied p u n"
      using known by (simp add: introduces_quiet met_in_snoc)
    have "bind_io (?open p envs) (\<lambda>_. ?reply) (envs, ?w1) = (y, v)"
      using rest by (simp add: s bind_io_def [of get_self] get_self_def)
    then show "?I v"
    proof (rule bind_keeps [OF _ _ reply])
      fix x z assume o': "?open p envs (envs, ?w1) = (x, z)"
      show "?I z"
      proof (cases "envs n")
        case None
        with o' show ?thesis by (auto intro: open_vacant_introduces [OF _ copied u])
      next
        case (Some env)
        obtain a b where z: "z = (a, b)" by (cases z)
        have "unwrap_or_report_failure os (lift_io (insert_socket os env p)) fd ?t (envs, ?w1) = (x, a, b)"
          using o' Some z by simp
        then show ?thesis unfolding z snd_conv
          by (rule report_introduces) (use copied in \<open>blast intro: insert_socket_introduces [OF _ _ _ u]\<close>)
      qed
    qed
  qed
  moreover have "sw' = apsnd (close_fd fd) v \<or> sw' = v"
    using run body by (cases y) (auto simp: handle_open_environment_def Let_def finally_drop_def)
  ultimately show ?thesis by (cases v) (auto simp: introduces_quiet)
qed

text \<open>A request that is received makes the client known.\<close>

lemma receive_introduces:
  assumes run: "welcome_receive_and_parse_request os gs sock w = (r, w')" and I: "introduces gs (trace w)"
  shows "introduces gs (trace w')
    \<and> (\<forall>fd n. r = Ok (fd, OpenEnvironment n) \<longrightarrow> (\<exists>u. u \<noteq> 0 \<and> met_in gs (trace w') = Asked fd u n))"
  using run
proof (cases rule: receive_cases)
  case (asked fd u n bs)
  let ?tr = "((trace w @ [FdAns (Accept sock) (Inr fd)]) @ [PeerUid fd (Inr u)]) @ [Recv fd (welcome_max_size gs) (Inr bs)]"
  have "introduces gs ?tr" "met_in gs ?tr = Asked fd u n"
    using I asked(3) by (simp_all add: introduces_quiet met_in_snoc del: append_assoc)
  with asked show ?thesis by auto
next
  case (failed es)
  have "\<not> hands_over e" if "takes_in e" for e
    using that by (cases e rule: takes_in.cases) auto
  then have "list_all (\<lambda>e. \<not> hands_over e) es" using failed(3) by (auto simp: list_all_iff)
  with unnamed.extends_keeps [of "trace w" "trace w'" gs] I failed(1,2) show ?thesis by (auto simp: extends_def)
qed

lemma report_next_unnamed:
  "keeps (\<lambda>sw. introduces gs (trace (snd sw))) (bind_io (lift_io (send_all_errors os es)) (\<lambda>_. ret b)
    :: (environments \<times> world, 'e, 'b) io)"
  by (intro keeps_bind keeps_lift keeps_pure) (simp add: unnamed_parts)

lemma handle_welcome_introduces:
  "keeps (\<lambda>sw. introduces gs (trace (snd sw))) (handle_welcome os gs sock r :: (environments \<times> world, 'e, (unit, unit) turn) io)"
proof -
  let ?I = "\<lambda>sw :: environments \<times> world. introduces gs (trace (snd sw))"
  have accept: "keeps ?I (or_send_errors os (lift_io (welcome_receive_and_parse_request os gs sock)) (Next ())
      (\<lambda>(fd, request). case request of OpenEnvironment n \<Rightarrow>
         or_send_errors os (handle_open_environment os gs n fd) (Next ()) (\<lambda>_. ret (Next ())))
      :: (environments \<times> world, 'e, (unit, unit) turn) io)" (is "keeps _ ?m")
  proof (rule keepsI)
    fix sw r sw' assume I: "?I sw" and run: "?m sw = (r, sw')"
    obtain envs w where sw: "sw = (envs, w)" by (cases sw)
    show "?I sw'"
      using run
    proof (rule handled_or_sent_keeps [OF _ _ _ report_next_unnamed])
      fix x v assume "lift_io (welcome_receive_and_parse_request os gs sock) sw = (x, v)"
      then obtain u where "welcome_receive_and_parse_request os gs sock w = (x, u)" "v = (envs, u)"
        by (auto simp: lift_io_def sw split: prod.splits)
      with receive_introduces [OF this(1)] I show "?I v" by (simp add: sw)
    next
      fix a v assume rcv: "lift_io (welcome_receive_and_parse_request os gs sock) sw = (Ok a, v)"
        and run: "(case a of (fd, request) \<Rightarrow> case request of OpenEnvironment n \<Rightarrow>
           or_send_errors os (handle_open_environment os gs n fd) (Next ()) (\<lambda>_. ret (Next ()))) v = (r, sw')"
      obtain fd n where a: "a = (fd, OpenEnvironment n)" by (cases a; cases "snd a") auto
      from rcv obtain b where b: "welcome_receive_and_parse_request os gs sock w = (Ok a, b)" "v = (envs, b)"
        by (auto simp: lift_io_def sw split: prod.splits)
      from receive_introduces [OF b(1)] I a obtain u where
        u: "introduces gs (trace b)" "u \<noteq> 0" "met_in gs (trace b) = Asked fd u n"
        by (auto simp: sw)
      have h: "?I t" if "handle_open_environment os gs n fd v = (x, t)" for x t
        by (rule handle_open_environment_introduces [OF that [unfolded b(2)] u(1,3,2)])
      show "?I sw'"
        using run unfolding a prod.case welcome_request.case
      proof (rule handled_or_sent_keeps [OF _ h _ report_next_unnamed])
        fix b t assume "handle_open_environment os gs n fd v = (Ok b, t)" and "ret (Next ()) t = (r, sw')"
        with h show "?I sw'" by (simp add: ret_def)
      qed
    qed
  qed
  show ?thesis
    unfolding handle_welcome_def by (intro keeps_if keeps_bind keeps_pure keeps_lift accept) (simp_all add: unnamed_parts)
qed

lemma welcome_turn_introduces:
  "keeps (\<lambda>sw. introduces gs (trace (snd sw)))
    (welcome_turn os gs fds c fuel u :: (environments \<times> world, 'e, (unit, unit) turn) io)"
  unfolding welcome_turn_def signal_end_def
  by (intro keeps_match keeps_bind keeps_case_prod keeps_if keeps_lift keeps_pure handle_welcome_introduces)
    (simp_all add: unnamed_parts)

lemma welcome_thread_introduces:
  "keeps (\<lambda>w. introduces gs (trace w)) (welcome_thread_main os gs order fds fuel :: ('e, unit) routine)"
  by (rule unnamed.welcome_thread_calls [OF welcome_turn_introduces]) simp_all

text \<open>
  C4: a client is introduced before it is handed over. Over the whole life of the welcome thread,
  each socket sent to the thread of an environment is the duplicate of the socket of the client
  accepted last, made after the kernel had named that client's user, who is not root, and after
  its request to open an environment was received; and no duplicate is sent twice.
\<close>

theorem clients_are_introduced:
  assumes run: "welcome_thread_main os gs order fds fuel w = (r :: ('e, unit) exec, w')"
    and w: "introduces gs (trace w)"
  shows "introduces gs (trace w')"
  by (rule keepsD [OF welcome_thread_introduces w run])

theorem clients_are_introduced_witness:
  "introduces demo_gs (trace (snd demo_welcome))
    \<and> length (filter hands_over (trace (snd demo_welcome))) = 2"
proof -
  have run: "welcome_thread_main demo_welcome_os demo_gs demo_env_order demo_fds_of 5
      (log_event (FdAns SocketNew (Inr 3)) start_world) = (fst demo_welcome, snd demo_welcome)"
    by (simp add: demo_welcome_def)
  have "introduces demo_gs (trace (log_event (FdAns SocketNew (Inr 3)) start_world))"
    by (simp add: introduces_def start_world_def)
  from clients_are_introduced [OF run this] have "introduces demo_gs (trace (snd demo_welcome))" .
  moreover have "length (filter hands_over (trace (snd demo_welcome))) = 2" by code_simp
  ultimately show ?thesis by blast
qed

end
