(* ===== verification/Env_Clients.thy ===== *)
theory Env_Clients imports Dispatch begin

text \<open>
  To whom an environment's thread talks: only to the clients that were handed to it, while it
  holds their sockets. The sockets it reads from are named by the kernel, in the data of epoll events; what
  the kernel documents of them is the predicate \<open>honest_epoll\<close>.
\<close>

section \<open>What epoll promises\<close>

text \<open>The interest list of an epoll, as descriptor and data: closing a descriptor removes it.\<close>

fun watch :: "raw_fd \<Rightarrow> event \<Rightarrow> (raw_fd \<times> u64) set \<Rightarrow> (raw_fd \<times> u64) set" where
  "watch ep (UnitAns (EpollAdd ep' fd fl d) (Inr ())) W = (if ep' = ep then insert (fd, d) W else W)"
| "watch ep (Did (Close fd)) W = {x \<in> W. fst x \<noteq> fd}"
| "watch ep _ W = W"

definition watched :: "raw_fd \<Rightarrow> event list \<Rightarrow> (raw_fd \<times> u64) set" where
  "watched ep tr = fold (watch ep) tr {}"

text \<open>All data that was ever given to an epoll.\<close>

fun registered_data :: "raw_fd \<Rightarrow> event list \<Rightarrow> u64 set" where
  "registered_data ep [] = {}"
| "registered_data ep (UnitAns (EpollAdd ep' fd fl d) (Inr ()) # es) =
     (if ep' = ep then insert d (registered_data ep es) else registered_data ep es)"
| "registered_data ep (_ # es) = registered_data ep es"

text \<open>
  No entry is reported twice by one wait, and each reported entry is one of the list; except that
  the peer's hang-up may be reported once more for a socket this thread has closed already, as
  the entry stays as long as another duplicate of the socket is open in the welcome thread.
\<close>

definition honest_events :: "raw_fd \<Rightarrow> event list \<Rightarrow> epoll_event list \<Rightarrow> bool" where
  "honest_events ep tr evs \<longleftrightarrow> distinct (map ev_data evs)
     \<and> list_all (\<lambda>ev. ev_data ev \<in> snd ` watched ep tr \<or> EPOLLRDHUP \<in> ev_flags ev \<and> ev_data ev \<in> registered_data ep tr) evs"

definition honest_epoll :: "os \<Rightarrow> bool" where
  "honest_epoll os \<longleftrightarrow> (\<forall>tr ep n evs. ask_epoll os tr ep n = Inr evs \<longrightarrow> honest_events ep tr evs)"

lemma watched_snoc: "watched ep (tr @ [e]) = watch ep e (watched ep tr)"
  by (simp add: watched_def)

lemma registered_data_append [simp]: "registered_data ep (xs @ ys) = registered_data ep xs \<union> registered_data ep ys"
  by (induction ep xs rule: registered_data.induct) auto

section \<open>Talking to clients\<close>

fun hand :: "event \<Rightarrow> raw_fd set \<Rightarrow> raw_fd set" where
  "hand (RecvListener (Received fd)) H = insert fd H"
| "hand _ H = H"

definition handed :: "event list \<Rightarrow> raw_fd set" where
  "handed tr = fold hand tr {}"

text \<open>Each call that talks to a socket talks to one that was handed over and is still owned.\<close>

fun speaks_from :: "raw_fd set \<Rightarrow> raw_fd set \<Rightarrow> event list \<Rightarrow> bool" where
  "speaks_from H S [] \<longleftrightarrow> True"
| "speaks_from H S (e # es) \<longleftrightarrow> set_option (talks_to e) \<subseteq> H \<inter> S \<and> speaks_from (hand e H) (own e S) es"

definition speaks_to_clients :: "event list \<Rightarrow> bool" where
  "speaks_to_clients tr = speaks_from {} {} tr"

lemma handed_snoc: "handed (tr @ [e]) = hand e (handed tr)"
  by (simp add: handed_def)

lemma hand_grows: "H \<subseteq> hand e H"
  by (induction e H rule: hand.induct) auto

lemma speaks_snoc:
  "speaks_to_clients (tr @ [e]) \<longleftrightarrow> speaks_to_clients tr \<and> set_option (talks_to e) \<subseteq> handed tr \<inter> owned tr"
proof -
  have "speaks_from H S (tr @ [e]) \<longleftrightarrow>
      speaks_from H S tr \<and> set_option (talks_to e) \<subseteq> fold hand tr H \<inter> fold own tr S" for H S
    by (induction tr arbitrary: H S) (simp_all add: conj_assoc)
  then show ?thesis by (simp add: speaks_to_clients_def handed_def owned_def owned_from_def)
qed

text \<open>
  The clients \<open>K\<close> were handed over, at most \<open>W\<close> is watched, the data are descriptors, and nobody else
  was talked to. Calls that do not talk and watch nothing new keep this.
\<close>

definition good_trace :: "raw_fd \<Rightarrow> raw_fd set \<Rightarrow> raw_fd set \<Rightarrow> event list \<Rightarrow> bool" where
  "good_trace ep K W tr \<longleftrightarrow> K \<subseteq> handed tr \<and> watched ep tr \<subseteq> (\<lambda>fd. (fd, epoll_data fd)) ` W
     \<and> registered_data ep tr \<subseteq> range epoll_data \<and> speaks_to_clients tr"

fun adds_watch :: "event \<Rightarrow> bool" where
  "adds_watch (UnitAns (EpollAdd _ _ _ _) _) = True"
| "adds_watch _ = False"

definition aside_call :: "event \<Rightarrow> bool" where
  "aside_call e \<longleftrightarrow> talks_to e = None \<and> \<not> adds_watch e"

lemma watch_shrinks: "\<not> adds_watch e \<Longrightarrow> watch ep e W \<subseteq> W"
  by (induction ep e W rule: watch.induct) auto

lemma no_new_data: "\<not> adds_watch e \<Longrightarrow> registered_data ep [e] = {}"
  by (cases "(ep, [e])" rule: registered_data.cases) auto

interpretation clients: trace_invariant "good_trace ep K W" aside_call for ep K W
proof unfold_locales
  fix tr e assume J: "good_trace ep K W tr" and q: "aside_call e"
  show "good_trace ep K W (tr @ [e])"
    using J q watch_shrinks [of e ep "watched ep tr"] no_new_data [of e ep] hand_grows [of "handed tr" e]
    by (auto simp: good_trace_def aside_call_def watched_snoc handed_snoc speaks_snoc)
qed

section \<open>Every part talks to clients only\<close>

lemma keeps_both: "keeps P m \<Longrightarrow> keeps Q m \<Longrightarrow> keeps (\<lambda>s. P s \<and> Q s) m"
  unfolding keeps_def by blast

lemma talk_snoc:
  assumes "good_trace ep K W tr" and "fd \<in> K" and "fd \<in> owned tr" and "talks_to e = Some fd"
  shows "good_trace ep K W (tr @ [e])"
proof -
  have "watch ep e W' = W' \<and> hand e H = H \<and> registered_data ep [e] = {}" for W' H
    using assms(4) by (cases e rule: talks_to.cases) auto
  with assms show ?thesis
    by (auto simp: good_trace_def watched_snoc handed_snoc speaks_snoc)
qed

lemma talk_keeps:
  assumes "\<And>w. P w \<Longrightarrow> good_trace ep K W (trace w) \<and> fd \<in> K \<and> fd \<in> owned (trace w)"
    and "\<And>w e. P w \<Longrightarrow> good_trace ep K W (trace (log_event e w)) \<Longrightarrow> \<not> moves_fd e \<Longrightarrow> P (log_event e w)"
  shows "keeps P (sys_num os (Send fd b))" "keeps P (sys_num os (SendMsg fd b mfd))" "keeps P (sys_recv os fd n)"
proof -
  have "P (log_event e w)" if "P w" "talks_to e = Some fd" "\<not> moves_fd e" for e w
    using assms(2) [OF that(1) _ that(3)] assms(1) [OF that(1)] talk_snoc [OF _ _ _ that(2)] by simp
  then show "keeps P (sys_num os (Send fd b))" "keeps P (sys_num os (SendMsg fd b mfd))" "keeps P (sys_recv os fd n)"
    by (simp_all add: keeps_def sys_num_def sys_recv_def Let_def)
qed

definition mutex_good :: "raw_fd \<Rightarrow> raw_fd set \<Rightarrow> raw_fd set \<Rightarrow> raw_fd set \<Rightarrow> shm_allocator \<times> world \<Rightarrow> bool" where
  "mutex_good ep R K W aw \<longleftrightarrow> owns_pages R aw \<and> good_trace ep K W (trace (snd aw))"

lemma mutex_good_talk:
  assumes "fd \<in> R" "fd \<in> K"
  shows "keeps (\<lambda>w. mutex_good ep R K W (a, w)) (sys_num os (Send fd b))"
    "keeps (\<lambda>w. mutex_good ep R K W (a, w)) (sys_num os (SendMsg fd b mfd))"
proof -
  have "owns_pages R (a, log_event e w)" if "owns_pages R (a, w)" "\<not> moves_fd e" for e w
    using that owns_log [of _ "trace w" e] by (simp add: owns_pages_def)
  moreover have "R \<subseteq> owned (trace w)" if "owns_pages R (a, w)" for w
    using that by (auto simp: owns_pages_def owns_def)
  ultimately show "keeps (\<lambda>w. mutex_good ep R K W (a, w)) (sys_num os (Send fd b))"
    "keeps (\<lambda>w. mutex_good ep R K W (a, w)) (sys_num os (SendMsg fd b mfd))"
    using assms by (intro talk_keeps [of _ ep K W]; auto simp: mutex_good_def)+
qed

lemma mutex_good_call:
  assumes "keeps (owns_pages R) m" and "keeps (\<lambda>aw. good_trace ep K W (trace (snd aw))) m"
  shows "keeps (mutex_good ep R K W) m"
  using keeps_both [OF assms] by (simp add: mutex_good_def [abs_def])

lemma open_mutex_good:
  assumes os: "fresh_fds os" and fd: "fd \<in> R" "fd \<in> K"
  shows "keeps (mutex_good ep R K W) (handle_open_mutex os gs name fd)"
proof -
  have construct: "keeps (mutex_good ep R K W) (construct_in_shm os T name (init_mutex os gs))" for T
  proof (rule mutex_good_call [OF construct_owns [OF os]], rule clients.allocator_calls(3))
    show "keeps (clients.I ep K W) (init_mutex os gs d)" for d
      unfolding init_mutex_def by (rule clients.answers) (simp add: aside_call_def)
  qed (simp_all add: aside_call_def)
  have find: "keeps (mutex_good ep R K W) (lift_io (find_resource a T name))" for a T
    by (intro mutex_good_call owns_pages_keeps [OF _ refl] owns_calls keeps_lift)
      (simp add: clients.find_resource_keeps)
  show ?thesis
    unfolding handle_open_mutex_def open_or_create_def Let_def
    by (intro keeps_bind keeps_self(1) keeps_unwrap_or_report keeps_case_option keeps_pure keeps_map_err
        keeps_lift [of "mutex_good ep R K W"] keeps_pure_io construct find mutex_good_talk fd)
qed

section \<open>The thread\<close>

text \<open>
  Beside the thread's ownership: the sockets are clients that were handed over, and nothing but
  they and the two events is watched. \<open>S\<close> are sockets that are surely still there.
\<close>

definition attentive :: "sync_ids \<Rightarrow> raw_fd \<Rightarrow> raw_fd set \<Rightarrow> sync_state \<times> world \<Rightarrow> bool" where
  "attentive ids ep S sw \<longleftrightarrow> thread_owns ep sw \<and> S \<subseteq> sockets (fst sw)
     \<and> good_trace ep (sockets (fst sw)) (sockets (fst sw) \<union> {add_listener_event ids, drop_event ids}) (trace (snd sw))"

lemma thread_owns_log: "thread_owns ep (st, w) \<Longrightarrow> \<not> moves_fd e \<Longrightarrow> thread_owns ep (st, log_event e w)"
  using owns_log by (simp add: thread_owns_def owns_pages_def)

lemma attentive_lift:
  assumes "\<And>S. keeps (owns S \<circ> trace) m" and "\<And>K W. keeps (\<lambda>w. good_trace ep K W (trace w)) m"
  shows "keeps (attentive ids ep S) (lift_io m)"
proof -
  have good: "keeps (\<lambda>sw. good_trace ep (sockets (fst sw)) (sockets (fst sw) \<union> {add_listener_event ids, drop_event ids})
      (trace (snd sw))) (lift_io m)"
    by (rule keeps_lift) (simp add: assms(2))
  have "keeps (\<lambda>sw. S \<subseteq> sockets (fst sw)) (lift_io m)"
    by (rule keeps_lift) (simp add: keeps_def)
  from keeps_both [OF thread_owns_lift [OF assms(1)] keeps_both [OF this good]] show ?thesis
    by (simp only: attentive_def [abs_def])
qed

lemma attentive_talk:
  assumes "fd \<in> S"
  shows "keeps (\<lambda>w. attentive ids ep S (st, w)) (sys_num os (Send fd b))"
    "keeps (\<lambda>w. attentive ids ep S (st, w)) (sys_recv os fd n)"
proof -
  let ?P = "\<lambda>w. attentive ids ep S (st, w)" and ?W = "sockets st \<union> {add_listener_event ids, drop_event ids}"
  have "sockets st \<subseteq> owned (trace w)" if "thread_owns ep (st, w)" for w
    using that by (auto simp: thread_owns_def owns_pages_def owns_def)
  then have pre: "good_trace ep (sockets st) ?W (trace w) \<and> fd \<in> sockets st \<and> fd \<in> owned (trace w)" if "?P w" for w
    using that assms by (auto simp: attentive_def)
  have post: "?P (log_event e w)" if "?P w" "good_trace ep (sockets st) ?W (trace (log_event e w))" "\<not> moves_fd e" for e w
    using that thread_owns_log [of ep st w e] by (simp add: attentive_def)
  show "keeps ?P (sys_num os (Send fd b))" by (rule talk_keeps(1) [of ?P, OF pre post])
  show "keeps ?P (sys_recv os fd n)" by (rule talk_keeps(3) [of ?P, OF pre post])
qed

text \<open>A client that is registered is watched, one that could not be registered is not.\<close>

lemma registration:
  assumes "good_trace ep K W tr"
  shows "good_trace ep K W (tr @ [UnitAns (EpollAdd ep fd fl d) (Inl e)])"
    and "fd \<in> handed tr \<Longrightarrow>
      good_trace ep (insert fd K) (insert fd W) (tr @ [UnitAns (EpollAdd ep fd fl (epoll_data fd)) (Inr u)])"
    and "fd \<in> W \<Longrightarrow> good_trace ep K W (tr @ [UnitAns (EpollAdd ep fd fl (epoll_data fd)) (Inr u)])"
  using assms by (auto simp: good_trace_def watched_snoc handed_snoc speaks_snoc)

lemma add_listener_turn_attentive:
  assumes os: "fresh_listeners os"
  shows "keeps (attentive ids ep S) (add_listener_turn os ep u)"
proof (rule keepsI)
  fix sw r sw' assume att: "attentive ids ep S sw" and run: "add_listener_turn os ep u sw = (r, sw')"
  obtain st w where sw: "sw = (st, w)" by (cases sw)
  let ?W = "sockets st \<union> {add_listener_event ids, drop_event ids}"
  have own: "thread_owns ep sw'"
    using keepsD [OF add_listener_turn_owns [OF os] _ run] att by (simp add: attentive_def)
  have good: "good_trace ep (sockets st) ?W (trace w)" and S: "S \<subseteq> sockets st"
    using att by (simp_all add: attentive_def sw)
  define x where "x = ask_listener os (trace w)"
  let ?w = "log_event (RecvListener x) w"
  have w: "good_trace ep (sockets st) ?W (trace ?w)"
    using clients.snoc [OF good, of "RecvListener x"] by (simp add: aside_call_def)
  show "attentive ids ep S sw'"
  proof (cases x)
    case (Received fd)
    define y where "y = ask_unit os (trace ?w) (EpollAdd ep fd {EPOLLIN, EPOLLRDHUP} (epoll_data fd))"
    have y: "ask_unit os (trace w @ [RecvListener (Received fd)])
        (EpollAdd ep fd {EPOLLIN, EPOLLRDHUP} (epoll_data fd)) = y"
      using Received by (simp add: y_def)
    let ?e = "UnitAns (EpollAdd ep fd {EPOLLIN, EPOLLRDHUP} (epoll_data fd)) y"
    have fd: "fd \<in> handed (trace ?w)" by (simp add: handed_snoc Received)
    show ?thesis
    proof (cases y)
      case (Inl e)
      have sw': "sw' = (st, close_fd fd (log_event ?e ?w))"
        using run Inl Received by (simp add: sw add_listener_turn_def exec_defs sys_call_defs
            x_def [symmetric] y)
      have "good_trace ep (sockets st) ?W (trace (log_event ?e ?w))"
        using registration(1) [OF w] Inl by simp
      from clients.snoc [OF this, of "Did (Close fd)"] own S show ?thesis
        by (simp add: sw' attentive_def aside_call_def)
    next
      case (Inr z)
      have sw': "sw' = (st\<lparr>sockets := insert fd (sockets st)\<rparr>, log_event ?e ?w)"
        using run Inr Received by (simp add: sw add_listener_turn_def exec_defs sys_call_defs on_sockets_def
            socket_set_insert_def x_def [symmetric] y)
      have "good_trace ep (insert fd (sockets st)) (insert fd ?W) (trace (log_event ?e ?w))"
        using registration(2) [OF w fd] Inr by simp
      with own S show ?thesis by (auto simp: sw' attentive_def insert_commute)
    qed
  qed (use run w own S in \<open>auto simp: sw add_listener_turn_def exec_defs sys_call_defs x_def [symmetric] attentive_def\<close>)
qed

lemma socket_remove_attentive:
  assumes att: "attentive ids ep S sw"
    and run: "(on_sockets (socket_set_remove fd) :: (sync_state \<times> world, 'e, bool) io) sw = (r, sw')"
  shows "attentive ids ep (S - {fd}) sw'"
proof -
  obtain st w where sw: "sw = (st, w)" by (cases sw)
  have own: "thread_owns ep sw'"
    using keepsD [OF socket_remove_owns _ run] att by (simp add: attentive_def)
  show ?thesis
  proof (cases "fd \<in> sockets st")
    case True
    have sw': "sw' = (st\<lparr>sockets := sockets st - {fd}\<rparr>, log_event (Did (Close fd)) w)"
      using run True by (simp add: sw on_sockets_def socket_set_remove_def exec_defs sys_call_defs)
    have "good_trace ep (sockets st - {fd}) (sockets st - {fd} \<union> {add_listener_event ids, drop_event ids})
        (trace w @ [Did (Close fd)])"
      using att by (auto simp: sw attentive_def good_trace_def watched_snoc handed_snoc speaks_snoc)
    with own att show ?thesis by (auto simp: sw sw' attentive_def)
  next
    case False
    with run own att show ?thesis
      by (auto simp: sw on_sockets_def socket_set_remove_def exec_defs attentive_def)
  qed
qed

text \<open>What a well-formed entry of the batch of events is, and the errors sent to the main thread.\<close>

definition entry_ok :: "sync_ids \<Rightarrow> raw_fd set \<Rightarrow> epoll_event \<Rightarrow> bool" where
  "entry_ok ids S ev \<longleftrightarrow> ev_data ev \<in> range epoll_data
     \<and> (EPOLLRDHUP \<in> ev_flags ev \<or> ev_data ev \<in> epoll_data ` (S \<union> {add_listener_event ids, drop_event ids}))"

lemma attentive_weaken: "attentive ids ep S sw \<Longrightarrow> T \<subseteq> S \<Longrightarrow> attentive ids ep T sw"
  by (auto simp: attentive_def)

lemma attentive_reports:
  "keeps (attentive ids ep S) (lift_io (send_error os e) :: (sync_state \<times> world, 'e, unit) io)"
  "keeps (attentive ids ep S) (lift_io (send_all_errors os es) :: (sync_state \<times> world, 'e, unit) io)"
  "keeps (attentive ids ep S) (lift_io (announce_env_close os ids'))"
  "keeps (attentive ids ep S) (lift_io (report_boxed_error_and_close os ids' e) :: (sync_state \<times> world, 'e, unit) io)"
  "keeps (attentive ids ep S) (lift_io (sys_bool os (SendSyncResponse x)) :: (sync_state \<times> world, 'e, bool) io)"
  "keeps (attentive ids ep S) (lift_io (sys_epoll os fd n))"
  "keeps (attentive ids ep S) (lift_io (sys_num os (EventFdRead fd)))"
  by (intro attentive_lift report_owns owns_calls; (rule clients.reports clients.close_report_calls clients.answers);
      simp add: aside_call_def)+

lemma attentive_respond:
  "keeps (attentive ids ep S) (lift_io (bind_io (sys_bool os (SendSyncResponse x))
      (\<lambda>delivered. if delivered then ret () else send_error os SendError)) :: (sync_state \<times> world, 'e, unit) io)"
proof (rule attentive_lift)
  show "keeps (owns S \<circ> trace) (bind_io (sys_bool os (SendSyncResponse x))
      (\<lambda>delivered. if delivered then ret () else send_error os SendError) :: ('e, unit) routine)" for S
    by (intro keeps_bind keeps_if keeps_pure report_owns)
  show "keeps (\<lambda>w. good_trace ep K W (trace w)) (bind_io (sys_bool os (SendSyncResponse x))
      (\<lambda>delivered. if delivered then ret () else send_error os SendError) :: ('e, unit) routine)" for K W
    by (intro keeps_bind keeps_if keeps_pure clients.answers clients.reports) (simp_all add: aside_call_def)
qed

lemma or_send_errors_attentive:
  assumes "keeps (attentive ids ep S) m" and "\<And>a. keeps (attentive ids ep S) (f a)"
  shows "keeps (attentive ids ep S) (or_send_errors os m b f :: (sync_state \<times> world, 'e, 'b) io)"
  unfolding or_send_errors_def by (intro keeps_match keeps_bind keeps_pure assms attentive_reports)

text \<open>One event.\<close>

lemma handle_event_attentive:
  assumes run: "(handle_event os gs ids ep fuel ev :: (sync_state \<times> world, 'e, bool) io) sw = (r, sw')"
    and os: "fresh_fds os" "fresh_listeners os" and att: "attentive ids ep S sw" and ev: "entry_ok ids S ev"
  shows "attentive ids ep (S - {data_fd (ev_data ev)}) sw'"
proof -
  let ?fd = "data_fd (ev_data ev)"
  let ?T = "S - {?fd}"
  have att': "attentive ids ep ?T sw" using attentive_weaken [OF att] by blast
  have handover: "keeps (attentive ids ep U) (pass_result_to_requesting_thread os (add_listener os ids ep fuel)
      :: (sync_state \<times> world, 'e, unit) io)" for U
    unfolding pass_result_to_requesting_thread_def add_listener_def Let_def
    by (intro keeps_match keeps_bind keeps_run_loop add_listener_turn_attentive [OF os(2)] attentive_reports attentive_respond)
  consider (add) "ev_data ev = epoll_data (add_listener_event ids)"
    | (drop) "ev_data ev = epoll_data (drop_event ids)" "ev_data ev \<noteq> epoll_data (add_listener_event ids)"
    | (bye) "EPOLLRDHUP \<in> ev_flags ev" "ev_data ev \<noteq> epoll_data (add_listener_event ids)" "ev_data ev \<noteq> epoll_data (drop_event ids)"
    | (request) "EPOLLRDHUP \<notin> ev_flags ev" "ev_data ev \<noteq> epoll_data (add_listener_event ids)" "ev_data ev \<noteq> epoll_data (drop_event ids)"
    by blast
  then show ?thesis
  proof cases
    case add
    have "keeps (attentive ids ep ?T) (handle_event os gs ids ep fuel ev :: (sync_state \<times> world, 'e, bool) io)"
      unfolding handle_event_def using add by (simp add: keeps_bind keeps_pure handover)
    from keepsD [OF this att' run] show ?thesis .
  next
    case drop
    have "keeps (attentive ids ep ?T) (handle_event os gs ids ep fuel ev :: (sync_state \<times> world, 'e, bool) io)"
      unfolding handle_event_def using drop by (simp add: keeps_match keeps_bind keeps_pure attentive_reports)
    from keepsD [OF this att' run] show ?thesis .
  next
    case bye
    let ?rest = "bind_io get_self (\<lambda>self. if socket_set_is_empty (sockets self)
        then or_send_errors os (lift_io (announce_env_close os ids)) True (\<lambda>_. ret True) else ret False)
      :: (sync_state \<times> world, 'e, bool) io"
    have "bind_io (on_sockets (socket_set_remove ?fd)) (\<lambda>_. ?rest) sw = (r, sw')"
      using run bye by (simp add: handle_event_def)
    then show ?thesis
    proof (rule bind_keeps)
      show "attentive ids ep ?T v" if "on_sockets (socket_set_remove ?fd) sw = (x :: ('e, bool) exec, v)" for x v
        by (rule socket_remove_attentive [OF att that])
      show "keeps (attentive ids ep ?T) ?rest"
        by (intro keeps_bind keeps_self(1) keeps_if keeps_pure or_send_errors_attentive attentive_reports)
    qed
  next
    case request
    have fd: "?fd \<in> S" using ev request by (auto simp: entry_ok_def)
    have parse: "keeps (attentive ids ep S) (lift_io (receive_and_parse_request os gs ?fd))"
      unfolding receive_and_parse_request_def parse_request_def reject_malformed_def
      by (intro keeps_lift keeps_bind keeps_map_err keeps_case_sum keeps_match keeps_pure keeps_pure_io attentive_talk fd)
    have opens: "keeps (attentive ids ep S) (on_shm (handle_open_mutex os gs n ?fd))" for n
    proof (rule keeps_on_shm)
      fix st :: sync_state
      let ?K = "sockets st" and ?W = "sockets st \<union> {add_listener_event ids, drop_event ids}"
      show "keeps (\<lambda>aw. attentive ids ep S (st\<lparr>shm := fst aw\<rparr>, snd aw)) (handle_open_mutex os gs n ?fd)"
      proof (rule keepsI)
        fix aw x aw' assume a: "attentive ids ep S (st\<lparr>shm := fst aw\<rparr>, snd aw)"
          and run: "handle_open_mutex os gs n ?fd aw = (x, aw')"
        have K: "?fd \<in> insert ep ?K" "?fd \<in> ?K" using a fd by (auto simp: attentive_def)
        have "mutex_good ep (insert ep ?K) ?K ?W aw"
          using a by (simp add: attentive_def thread_owns_def mutex_good_def)
        from keepsD [OF open_mutex_good [OF os(1) K] this run] a
        show "attentive ids ep S (st\<lparr>shm := fst aw'\<rparr>, snd aw')"
          by (simp add: attentive_def thread_owns_def mutex_good_def)
      qed
    qed
    have "keeps (attentive ids ep S) (handle_event os gs ids ep fuel ev :: (sync_state \<times> world, 'e, bool) io)"
      unfolding handle_event_def Let_def using request
      by (simp, intro or_send_errors_attentive keeps_case_request keeps_pure parse opens)
    from keepsD [OF this att run] show ?thesis by (rule attentive_weaken) blast
  qed
qed

text \<open>A batch, in which no entry occurs twice.\<close>

lemma handle_events_attentive:
  assumes "(handle_events os gs ids ep fuel evs :: (sync_state \<times> world, 'e, bool) io) sw = (r, sw')"
    and os: "fresh_fds os" "fresh_listeners os" and "attentive ids ep S sw"
    and "distinct (map ev_data evs)" and "\<And>ev. ev \<in> set evs \<Longrightarrow> entry_ok ids S ev"
  shows "attentive ids ep {} sw'"
  using assms(1,4-)
proof (induction evs arbitrary: S sw)
  case Nil
  then show ?case by (auto simp: ret_def intro: attentive_weaken)
next
  case (Cons ev evs)
  let ?T = "S - {data_fd (ev_data ev)}"
  obtain x v where x: "(handle_event os gs ids ep fuel ev :: (sync_state \<times> world, 'e, bool) io) sw = (x, v)"
    by (cases "(handle_event os gs ids ep fuel ev :: (sync_state \<times> world, 'e, bool) io) sw")
  have v: "attentive ids ep ?T v"
    by (rule handle_event_attentive [OF x os Cons.prems(2)]) (simp add: Cons.prems)
  have rest: "entry_ok ids ?T e" if "e \<in> set evs" for e
  proof -
    have "ev_data e \<in> ev_data ` set evs" using that by (rule imageI)
    then have "ev_data e \<noteq> ev_data ev" using Cons.prems(3) by auto
    moreover have "entry_ok ids S e" "entry_ok ids S ev" using Cons.prems(4) that by simp_all
    ultimately show ?thesis by (auto simp: entry_ok_def)
  qed
  consider "handle_events os gs ids ep fuel evs v = (r, sw')" | "sw' = v"
    using Cons.prems(1) x by (cases x) (auto simp: bind_io_def ret_def split: if_splits)
  then show ?case
  proof cases
    case 1
    from Cons.IH [OF this v _ rest] Cons.prems(3) show ?thesis by simp
  next
    case 2
    with v show ?thesis by (auto intro: attentive_weaken)
  qed
qed

lemma sync_turn_attentive:
  assumes os: "fresh_fds os" "fresh_listeners os" "honest_epoll os"
  shows "keeps (attentive ids ep {}) (sync_turn os gs ids ep fuel u :: (sync_state \<times> world, 'e, (unit, unit) turn) io)"
proof (rule keepsI)
  fix sw r sw' assume att: "attentive ids ep {} sw"
    and run: "(sync_turn os gs ids ep fuel u :: (sync_state \<times> world, 'e, (unit, unit) turn) io) sw = (r, sw')"
  obtain st w where sw: "sw = (st, w)" by (cases sw)
  define n where "n = socket_set_len (sockets st) + 2"
  define x where "x = ask_epoll os (trace w) ep n"
  let ?w = "log_event (EpollWait ep n x) w"
  have wait: "sys_epoll os ep n w = (answer x, ?w)" by (simp add: sys_epoll_def x_def Let_def)
  have w: "attentive ids ep {} (st, ?w)"
    using keepsD [OF attentive_reports(6) [of ids ep "{}" os ep n] att [unfolded sw]] wait by (simp add: lift_io_def)
  show "attentive ids ep {} sw'"
  proof (cases x)
    case (Inl e)
    have go: "(bind_io (lift_io (report_boxed_error_and_close os ids e)) (\<lambda>_. ret (Stop ()))
        :: (sync_state \<times> world, 'e, (unit, unit) turn) io) (st, ?w) = (r, sw')"
      using run wait Inl by (simp add: sw sync_turn_def Let_def bind_io_def [of get_self] get_self_def match_io_def
          lift_io_def [of "sys_epoll os ep n"] n_def [symmetric])
    have "keeps (attentive ids ep {}) (bind_io (lift_io (report_boxed_error_and_close os ids e)) (\<lambda>_. ret (Stop ()))
        :: (sync_state \<times> world, 'e, (unit, unit) turn) io)"
      by (intro keeps_bind keeps_pure attentive_reports)
    from keepsD [OF this w go] show ?thesis .
  next
    case (Inr evs)
    have honest: "honest_events ep (trace w) evs"
      using os(3) Inr by (simp add: honest_epoll_def x_def)
    have ok: "entry_ok ids (sockets st) ev" if "ev \<in> set evs" for ev
      using honest that att by (fastforce simp: honest_events_def list_all_iff entry_ok_def attentive_def sw good_trace_def)
    have w': "attentive ids ep (sockets st) (st, ?w)" using w by (simp add: attentive_def)
    have "(if unat n < length evs then panic
        else bind_io (handle_events os gs ids ep fuel evs) (\<lambda>b. ret (if b then Stop () else Next ()))) (st, ?w)
        = (r :: ('e, (unit, unit) turn) exec, sw')"
      using run wait Inr by (simp add: sw sync_turn_def Let_def bind_io_def [of get_self] get_self_def match_io_def
          lift_io_def [of "sys_epoll os ep n"] n_def [symmetric])
    moreover obtain y v where y: "(handle_events os gs ids ep fuel evs :: (sync_state \<times> world, 'e, bool) io) (st, ?w) = (y, v)"
      by (cases "(handle_events os gs ids ep fuel evs :: (sync_state \<times> world, 'e, bool) io) (st, ?w)")
    ultimately have "sw' = v \<or> sw' = (st, ?w)"
      by (cases y) (auto simp: bind_io_def ret_def panic_def split: if_splits)
    moreover have "attentive ids ep {} v"
      by (rule handle_events_attentive [OF y os(1,2) w' _ ok]) (use honest in \<open>simp add: honest_events_def\<close>)
    ultimately show ?thesis using w by auto
  qed
qed

section \<open>From start to end\<close>

interpretation mute: trace_invariant speaks_to_clients "\<lambda>e. talks_to e = None"
  by unfold_locales (simp add: speaks_snoc)

lemma mute_parts:
  "keeps (\<lambda>w. speaks_to_clients (trace w)) (drop_locals os gs order fds st :: ('e, unit) routine)"
  "keeps (\<lambda>w. speaks_to_clients (trace w)) (report_boxed_error_and_close os ids e :: ('e, unit) routine)"
  by (rule mute.drop_calls mute.close_report_calls(2); simp)+

lemma register_events_good:
  "set evs \<subseteq> W \<Longrightarrow> keeps (\<lambda>w. good_trace ep K W (trace w)) (register_events os ep evs)"
proof (induction evs)
  case (Cons ev evs)
  have "good_trace ep K W (tr @ [UnitAns (EpollAdd ep ev {EPOLLIN} (epoll_data ev)) x])" if "good_trace ep K W tr" for tr x
    using registration(1) [OF that] registration(3) [OF that, of ev] Cons.prems by (cases x) auto
  then have "keeps (\<lambda>w. good_trace ep K W (trace w)) (sys_unit os (EpollAdd ep ev {EPOLLIN} (epoll_data ev)))"
    by (simp add: keeps_def sys_unit_def Let_def)
  with Cons show ?case by (simp add: keeps_bind)
qed (simp add: keeps_pure)

lemma sync_loop_speaks:
  assumes run: "(sync_loop os gs order fds ids ep fuel st w :: ('e, unit) exec \<times> world) = (r, w')"
    and os: "fresh_fds os" "fresh_listeners os" "honest_epoll os" and att: "attentive ids ep {} (st, w)"
  shows "speaks_to_clients (trace w')"
proof -
  obtain x st' v where loop: "(run_loop fuel (sync_turn os gs ids ep fuel) () (st, w)
      :: ('e, unit) exec \<times> sync_state \<times> world) = (x, st', v)"
    by (cases "run_loop fuel (sync_turn os gs ids ep fuel) () (st, w) :: ('e, unit) exec \<times> sync_state \<times> world")
  have v: "speaks_to_clients (trace v)"
    using keepsD [OF keeps_run_loop [OF sync_turn_attentive [OF os]] att loop] by (simp add: attentive_def good_trace_def)
  have "keeps (\<lambda>w. speaks_to_clients (trace w)) (with_drop (drop_locals os gs order fds st') (finally_drop (close_fd ep) (Pair x))
      :: ('e, unit) routine)"
    by (intro keeps_with_drop keeps_finally mute_parts) (simp_all add: keeps_def mute.snoc)
  from keepsD [OF this v] run loop show ?thesis by (simp add: sync_loop_def)
qed

lemma shm_new_trace: "shm_new os w = (x, v) \<Longrightarrow> \<exists>s. trace v = trace w @ [SysconfPageSize s]"
  by (auto simp: shm_new_def exec_defs sys_call_defs answer_def split: sum.splits option.splits if_splits)

lemma environment_thread_speaks:
  assumes run: "environment_synchronization_thread_main os gs order fds ids fuel w = (r :: ('e, unit) exec, w')"
    and start: "trace w = []" and os: "fresh_fds os" "fresh_listeners os" "honest_epoll os"
  shows "speaks_to_clients (trace w')"
proof -
  note main = environment_synchronization_thread_main_def match_io_def Let_def
  obtain x v where new: "shm_new os w = (x, v)" by (cases "shm_new os w")
  from shm_new_trace [OF new] start obtain s where v: "trace v = [SysconfPageSize s]" by auto
  have quiet: "speaks_to_clients (trace v)" by (simp add: v speaks_to_clients_def)
  show ?thesis
  proof (cases x)
    case (Ok a)
    let ?st = "\<lparr>sockets = socket_set_new, shm = a\<rparr>"
    have a: "pages a = []" using shm_new_Ok [OF new [unfolded Ok]] by simp
    define y where "y = ask_fd os (trace v) EpollCreate"
    define u where "u = log_event (FdAns EpollCreate y) v"
    have ep: "sys_fd os EpollCreate v = (answer y, u)" by (simp add: sys_fd_def y_def u_def Let_def)
    have u: "speaks_to_clients (trace u)" using mute.snoc [OF quiet] by (simp add: u_def)
    show ?thesis
    proof (cases y)
      case (Inr epoll)
      let ?evs = "[add_listener_event ids, drop_event ids]"
      obtain z t where reg: "register_events os epoll ?evs u = (z, t)"
        by (cases "register_events os epoll ?evs u")
      have u': "owns {epoll} (trace u)" "good_trace epoll {} (set ?evs) (trace u)"
        by (simp_all add: u_def v Inr owns_def owned_def owned_from_def closes_only_owned_def
            good_trace_def watched_def handed_def speaks_to_clients_def)
      have keep: "keeps (\<lambda>w. owns {epoll} (trace w)) (register_events os epoll evs)" for evs
        by (induction evs) (simp_all add: keeps_pure keeps_bind fds.answers)
      have t: "owns {epoll} (trace t)" "good_trace epoll {} (set ?evs) (trace t)"
        using keepsD [OF keep u'(1) reg] keepsD [OF register_events_good [OF subset_refl] u'(2) reg] by blast+
      then have speaks: "speaks_to_clients (trace t)" by (simp add: good_trace_def)
      show ?thesis
      proof (cases z)
        case (Ok z')
        have "attentive ids epoll {} (?st, t)"
          using t a by (simp add: attentive_def thread_owns_def owns_pages_def pages_fds_def socket_set_new_def)
        moreover have "sync_loop os gs order fds ids epoll fuel ?st t = (r, w')"
          using run new \<open>x = Ok a\<close> ep Inr reg Ok by (simp add: main)
        ultimately show ?thesis using sync_loop_speaks os by blast
      next
        case (Err e)
        have go: "with_drop (drop_locals os gs order fds ?st)
            (finally_drop (close_fd epoll) (report_boxed_error_and_close os ids e)) t = (r, w')"
          using run new \<open>x = Ok a\<close> ep Inr reg Err by (simp add: main)
        have "keeps (\<lambda>w. speaks_to_clients (trace w)) (with_drop (drop_locals os gs order fds ?st)
            (finally_drop (close_fd epoll) (report_boxed_error_and_close os ids e)) :: ('e, unit) routine)"
          by (intro keeps_with_drop keeps_finally mute_parts) (simp_all add: mute.snoc)
        from keepsD [OF this speaks go] show ?thesis .
      qed (use run new \<open>x = Ok a\<close> ep Inr reg speaks in \<open>auto simp: main\<close>)
    next
      case (Inl e)
      have go: "with_drop (drop_locals os gs order fds ?st) (report_boxed_error_and_close os ids e) u = (r, w')"
        using run new Ok ep Inl by (simp add: main)
      have "keeps (\<lambda>w. speaks_to_clients (trace w)) (with_drop (drop_locals os gs order fds ?st)
          (report_boxed_error_and_close os ids e) :: ('e, unit) routine)"
        by (intro keeps_with_drop mute_parts) simp
      from keepsD [OF this u go] show ?thesis .
    qed
  next
    case (Err e)
    with run new have "report_boxed_error_and_close os ids e v = (r, w')" by (simp add: main)
    from keepsD [OF mute_parts(2) quiet this] show ?thesis .
  qed (use run new quiet in \<open>auto simp: main\<close>)
qed

text \<open>
  C5: an environment's thread talks to its clients only. Whatever the allocator, the clients and
  the welcome thread do: each time the thread receives from a socket or sends to one, that socket
  was handed to it before, as a client, and it has not closed it since. The kernel may name any
  descriptor in the data of an event that the thread registered and did not close, and a hang-up
  for one that it did close.
\<close>

theorem environment_speaks_to_clients:
  assumes run: "environment_synchronization_thread_main os gs order fds ids fuel w = (r :: ('e, unit) exec, w')"
    and start: "trace w = []" and os: "fresh_fds os" "fresh_listeners os" "honest_epoll os"
  shows "speaks_to_clients (trace w')"
  by (rule environment_thread_speaks [OF assms])

text \<open>The two clients of the earlier run, on a kernel whose epoll reports only what it may.\<close>

definition demo_honest_os :: os where
  "demo_honest_os = demo_sync_os\<lparr>ask_epoll := (\<lambda>tr ep n.
     case ask_epoll demo_sync_os tr ep n of
       Inl e \<Rightarrow> Inl e
     | Inr evs \<Rightarrow> Inr (if honest_events ep tr evs then evs else []))\<rparr>"

definition demo_honest_run :: "(unit, unit) exec \<times> world" where
  "demo_honest_run = environment_synchronization_thread_main demo_honest_os demo_gs demo_order demo_fds demo_ids 5 start_world"

lemma demo_honest: "honest_epoll demo_honest_os"
  by (auto simp: honest_epoll_def demo_honest_os_def honest_events_def split: sum.splits if_splits)

theorem environment_speaks_to_clients_witness:
  "speaks_to_clients (trace (snd demo_honest_run)) \<and> fst demo_honest_run = Ok ()
    \<and> length (filter (\<lambda>e. talks_to e \<noteq> None) (trace (snd demo_honest_run))) = 4"
proof -
  have run: "environment_synchronization_thread_main demo_honest_os demo_gs demo_order demo_fds demo_ids 5 start_world
      = (fst demo_honest_run, snd demo_honest_run)"
    by (simp add: demo_honest_run_def)
  have "trace start_world = []" by (simp add: start_world_def)
  moreover have "fresh_fds demo_honest_os" "fresh_listeners demo_honest_os"
    using demo_fresh demo_listeners by (simp_all add: demo_honest_os_def fresh_fds_def fresh_listeners_def)
  ultimately have "speaks_to_clients (trace (snd demo_honest_run))"
    using demo_honest by (rule environment_speaks_to_clients [OF run])
  moreover have "fst demo_honest_run = Ok ()
      \<and> length (filter (\<lambda>e. talks_to e \<noteq> None) (trace (snd demo_honest_run))) = 4"
    by code_simp
  ultimately show ?thesis by blast
qed

end
