(* ===== verification/Composition.thy ===== *)
theory Composition imports "HOL-Library.Sublist" Introductions Env_Clients begin

text \<open>
  The welcome thread and the thread of an environment together. Each runs on its own, with a trace
  of its own; what connects them is the channel the sockets go through and the start of one
  by the other, stated as laws on the two traces. They are what the standard library documents:
  a channel delivers what was sent, in this order, and a thread runs what it was started with.
\<close>

section \<open>The laws\<close>

fun gave :: "thread_id \<Rightarrow> event \<Rightarrow> raw_fd list" where
  "gave t (BoolAns (SendListener t' p) True) = (if t' = t then [p] else [])"
| "gave t _ = []"

fun took :: "event \<Rightarrow> raw_fd list" where
  "took (RecvListener (Received p)) = [p]"
| "took _ = []"

definition handed_over :: "thread_id \<Rightarrow> event list \<Rightarrow> raw_fd list" where
  "handed_over t tr = concat (map (gave t) tr)"

definition taken_over :: "event list \<Rightarrow> raw_fd list" where
  "taken_over tr = concat (map took tr)"

text \<open>The thread \<open>t\<close> with trace \<open>E\<close> has taken, in order, sockets that were sent to it in the trace \<open>W\<close>.\<close>

definition listener_channel :: "thread_id \<Rightarrow> event list \<Rightarrow> event list \<Rightarrow> bool" where
  "listener_channel t W E \<longleftrightarrow> prefix (taken_over E) (handed_over t W)"

text \<open>Whoever was started under the identifier \<open>t\<close> was started for the name \<open>n\<close>.\<close>

fun started_for :: "thread_id \<Rightarrow> string \<Rightarrow> event \<Rightarrow> bool" where
  "started_for t n (Spawn (EnvironmentThread m) (Inr t')) \<longleftrightarrow> t' = t \<longrightarrow> m = n"
| "started_for t n _ \<longleftrightarrow> True"

section \<open>Introductions\<close>

text \<open>
  The hand-overs to \<open>t\<close> in a trace: the socket, the user the kernel named as its peer's, and the
  name the client asked for.
\<close>

fun introductions :: "garnshared \<Rightarrow> acquaintance \<Rightarrow> thread_id \<Rightarrow> event list \<Rightarrow> (raw_fd \<times> uid \<times> string) list" where
  "introductions gs c t [] = []"
| "introductions gs c t (e # es) =
     (case (e, c) of
        (BoolAns (SendListener t' p) True, Copied p' u n) \<Rightarrow> if t' = t then [(p, u, n)] else []
      | _ \<Rightarrow> []) @ introductions gs (meet gs e c) t es"

lemma hand_took: "hand e H = set (took e) \<union> H"
  by (induction e H rule: hand.induct) auto

lemma talks_were_taken:
  "speaks_from H S es \<Longrightarrow> e \<in> set es \<Longrightarrow> talks_to e = Some p \<Longrightarrow> p \<in> H \<union> set (taken_over es)"
proof (induction es arbitrary: H S)
  case (Cons x es)
  show ?case
  proof (cases "x = e")
    case True
    with Cons.prems show ?thesis by auto
  next
    case False
    then have "p \<in> hand x H \<union> set (taken_over es)"
      using Cons.IH [of "hand x H" "own x S"] Cons.prems by simp
    then show ?thesis by (auto simp: hand_took taken_over_def)
  qed
qed simp

text \<open>The acquaintance and the registry speak of the same request.\<close>

definition asked_name :: "acquaintance \<Rightarrow> string option" where
  "asked_name c = (case c of Asked _ _ n \<Rightarrow> Some n | Copied _ _ n \<Rightarrow> Some n | _ \<Rightarrow> None)"

definition agrees :: "acquaintance \<Rightarrow> registry \<Rightarrow> bool" where
  "agrees c st \<longleftrightarrow> (\<forall>n. asked_name c = Some n \<longrightarrow> snd st = Some n)"

lemma request_step:
  "snd (registry_step gs e st) = (case e of Recv fd k (Inr bs) \<Rightarrow> welcome_request_in gs bs | _ \<Rightarrow> snd st)"
  by (cases "(gs, e, st)" rule: registry_step.cases) auto

lemma agrees_step: "agrees c st \<Longrightarrow> agrees (meet gs e c) (registry_step gs e st)"
  unfolding agrees_def request_step
  by (cases "(gs, e, c)" rule: meet.cases) (auto simp: asked_name_def split: acquaintance.splits option.splits)

lemma live_step:
  assumes "started_for t n e" and "\<And>m. fst st m = Some t \<Longrightarrow> m = n" and "fst (registry_step gs e st) m = Some t"
  shows "m = n"
  using assms by (cases "(gs, e, st)" rule: registry_step.cases) (auto simp: without_def split: if_splits)

lemma handed_over_introduced:
  assumes "proper gs c es" and "all_allowed gs st es" and "list_all (started_for t n) es"
    and "agrees c st" and "\<And>m. fst st m = Some t \<Longrightarrow> m = n" and "p \<in> set (handed_over t es)"
  shows "\<exists>u. (p, u, n) \<in> set (introductions gs c t es) \<and> u \<noteq> 0"
  using assms
proof (induction es arbitrary: c st)
  case (Cons e es)
  have later: "?case" if "p \<in> set (handed_over t es)"
  proof -
    have "\<exists>u. (p, u, n) \<in> set (introductions gs (meet gs e c) t es) \<and> u \<noteq> 0"
    proof (rule Cons.IH)
      show "m = n" if "fst (registry_step gs e st) m = Some t" for m
        using live_step [OF _ Cons.prems(5) that] Cons.prems(3) by simp
    qed (use Cons.prems that agrees_step in simp_all)
    then show ?thesis by auto
  qed
  show ?case
  proof (cases "\<exists>b. e = BoolAns (SendListener t p) b \<and> b")
    case True
    then have e: "e = BoolAns (SendListener t p) True" by auto
    from Cons.prems(1) obtain u m where c: "c = Copied p u m" "u \<noteq> 0"
      by (auto simp: e split: acquaintance.splits)
    have "snd st = Some m" using Cons.prems(4) by (simp add: agrees_def asked_name_def c)
    moreover have "serves st t" using Cons.prems(2) by (simp add: e)
    ultimately have "m = n" using Cons.prems(5) by (simp add: serves_def)
    with c show ?thesis by (auto simp: e)
  next
    case False
    then have "p \<in> set (handed_over t es)"
      using Cons.prems(6) by (cases "(t, e)" rule: gave.cases) (auto simp: handed_over_def split: if_splits)
    then show ?thesis by (rule later)
  qed
qed (simp add: handed_over_def)

section \<open>From the client to the environment\<close>

text \<open>
  C1: an environment serves only clients that were introduced to it. Let the welcome thread run,
  and the thread of an environment, each for as long as it may and whatever the kernel answers it,
  and let the second have taken its clients from the channel the first put them into. Then
  each socket the environment's thread receives from or sends to is one the welcome thread handed over for
  a client whose user the kernel had named, who is not root, and who had asked for exactly this
  environment.
\<close>

theorem environment_serves_introduced_clients:
  assumes front: "welcome_thread_main os gs order fds fuel w = (r :: ('e, unit) exec, w')"
    and environment: "environment_synchronization_thread_main os' gs drain order' ids fuel' v = (q :: ('f, unit) exec, v')"
    and start: "introduces gs (trace w)" "kept gs (Map.empty, cur) (trace w)" "trace v = []"
    and kernel: "fresh_threads os" "fresh_fds os'" "fresh_listeners os'" "honest_epoll os'"
    and channel: "listener_channel t (trace w') (trace v')"
    and thread: "list_all (started_for t (env_name ids)) (trace w')"
    and talk: "e \<in> set (trace v')" "talks_to e = Some p"
  shows "\<exists>u. (p, u, env_name ids) \<in> set (introductions gs Nobody t (trace w')) \<and> u \<noteq> 0"
proof -
  have "speaks_to_clients (trace v')"
    by (rule environment_thread_speaks [OF environment start(3) kernel(2-4)])
  with talk have "p \<in> set (taken_over (trace v'))"
    using talks_were_taken by (fastforce simp: speaks_to_clients_def)
  then have "p \<in> set (handed_over t (trace w'))"
    using channel set_mono_prefix by (auto simp: listener_channel_def)
  moreover have "proper gs Nobody (trace w')"
    using keepsD [OF welcome_thread_introduces start(1) front] by (simp add: introduces_def)
  moreover have "all_allowed gs (Map.empty, None) (trace w')"
    using welcome_thread_dispatched [OF front kernel(1) start(2)] by (simp add: dispatched_def)
  ultimately show ?thesis
    using thread by (intro handed_over_introduced) (auto simp: agrees_def asked_name_def)
qed

text \<open>
  The welcome thread's earlier run hands over the sockets 107 and 120 to thread 10, for the name \<open>a\<close>; the thread
  takes them and serves both.
\<close>

definition demo_served_os :: os where
  "demo_served_os = calm_os\<lparr>
     ask_epoll := (\<lambda>tr ep n.
       let evs = (case waits tr of
           0 \<Rightarrow> [EpollEvent {EPOLLIN} (epoll_data 10)]
         | Suc 0 \<Rightarrow> [EpollEvent {EPOLLIN} (epoll_data 107), EpollEvent {EPOLLIN} (epoll_data 120)]
         | _ \<Rightarrow> [EpollEvent {EPOLLRDHUP} (epoll_data 120), EpollEvent {EPOLLRDHUP} (epoll_data 107)])
       in Inr (if honest_events ep tr evs then evs else [])),
     ask_listener := (\<lambda>tr. let fd = (if taken tr = 0 then 107 else 120)
       in if taken tr < 2 \<and> fd \<notin> owned tr then Received fd else Empty),
     ask_bytes := (\<lambda>tr fd n. Inr (as_bytes ''Ma''))\<rparr>"

definition demo_served_ids :: sync_ids where
  "demo_served_ids = \<lparr>env_name = ''a'', close_env_event = 12, add_listener_event = 10, drop_event = 11\<rparr>"

definition demo_served :: "(unit, unit) exec \<times> world" where
  "demo_served = environment_synchronization_thread_main demo_served_os demo_gs demo_order demo_fds demo_served_ids 5 start_world"

theorem environment_serves_introduced_clients_witness:
  "list_ex (\<lambda>e. talks_to e = Some 120) (trace (snd demo_served))
    \<and> (\<exists>u. (120, u, ''a'') \<in> set (introductions demo_gs Nobody 10 (trace (snd demo_welcome))) \<and> u \<noteq> 0)"
proof -
  let ?start = "log_event (FdAns SocketNew (Inr 3)) start_world"
  have front: "welcome_thread_main demo_welcome_os demo_gs demo_env_order demo_fds_of 5 ?start
      = (fst demo_welcome, snd demo_welcome)"
    by (simp add: demo_welcome_def)
  have served: "environment_synchronization_thread_main demo_served_os demo_gs demo_order demo_fds demo_served_ids 5 start_world
      = (fst demo_served, snd demo_served)"
    by (simp add: demo_served_def)
  have start: "introduces demo_gs (trace ?start)" "kept demo_gs (Map.empty, None) (trace ?start)" "trace start_world = []"
    by (simp_all add: introduces_def kept_def dispatched_def registry_of_def start_world_def)
  have kernel: "fresh_threads demo_welcome_os" "fresh_fds demo_served_os" "fresh_listeners demo_served_os" "honest_epoll demo_served_os"
    using calm_os_threads calm_os_fresh
    by (auto simp: fresh_threads_def fresh_fds_def fresh_listeners_def honest_epoll_def demo_welcome_os_def
        demo_served_os_def honest_events_def Let_def split: if_splits)
  have channel: "listener_channel 10 (trace (snd demo_welcome)) (trace (snd demo_served))" by code_simp
  have thread: "list_all (started_for 10 (env_name demo_served_ids)) (trace (snd demo_welcome))" by code_simp
  have talks: "list_ex (\<lambda>e. talks_to e = Some 120) (trace (snd demo_served))" by code_simp
  then obtain e where e: "e \<in> set (trace (snd demo_served))" "talks_to e = Some 120"
    by (auto simp: list_ex_iff)
  have "env_name demo_served_ids = ''a''" by (simp add: demo_served_ids_def)
  with environment_serves_introduced_clients [OF front served start kernel channel thread e] talks show ?thesis by simp
qed

end
