(* ===== verification/Privileges.thy ===== *)
theory Privileges imports Reporting begin

text \<open>
  \<open>Runtime::check_privileges\<close> of \<open>src/linux/runtime.rs\<close>: the daemon refuses to start unless it runs
  as its own user and group, without capabilities, without a way to regain privileges and with the
  secure bits set. What the kernel and the user database answer is the record \<open>credentials\<close>; each
  answer is asked for once. The masks of \<open>linux/securebits.h\<close> are the record \<open>securebits\<close>. The
  lemmas show that the checks pass exactly for an unprivileged process and that the eight tests of
  single bits are one comparison of the low byte.
\<close>

unbundle bit_operations_syntax

section \<open>What the process is\<close>

datatype cap_set = Permitted | Bounding

record res_ids =
  real_id :: uid
  effective_id :: uid
  saved_id :: uid

text \<open>
  The group database and the group identifiers are like those of users. \<open>prctl\<close> returns the bits,
  or -1 and an error number.
\<close>

record credentials =
  user_from_name :: "string \<Rightarrow> detailed_error + uid option"
  getresuid :: "detailed_error + res_ids"
  setfsuid :: "uid \<Rightarrow> uid"
  group_from_name :: "string \<Rightarrow> detailed_error + uid option"
  getresgid :: "detailed_error + res_ids"
  setfsgid :: "uid \<Rightarrow> uid"
  getgroups :: "detailed_error + uid list"
  caps_all :: "nat list"
  has_cap :: "cap_set \<Rightarrow> nat \<Rightarrow> detailed_error + bool"
  get_no_new_privs :: "detailed_error + bool"
  prctl_get_securebits :: "32 word"
  prctl_errno :: nat

record securebits =
  SECBIT_NOROOT :: "32 word"
  SECBIT_NOROOT_LOCKED :: "32 word"
  SECBIT_KEEP_CAPS :: "32 word"
  SECBIT_KEEP_CAPS_LOCKED :: "32 word"
  SECBIT_NO_SETUID_FIXUP :: "32 word"
  SECBIT_NO_SETUID_FIXUP_LOCKED :: "32 word"
  SECBIT_NO_CAP_AMBIENT_RAISE :: "32 word"
  SECBIT_NO_CAP_AMBIENT_RAISE_LOCKED :: "32 word"

section \<open>The checks, in their order\<close>

definition refuse_unless :: "bool \<Rightarrow> runtime_error \<Rightarrow> (detailed_error, unit) routine" where
  "refuse_unless b e = (if b then ret () else throw (RuntimeError e))"

text \<open>\<open>ok_or\<close>: the entry, or the error for a missing one.\<close>

definition entry_or :: "detailed_error + uid option \<Rightarrow> runtime_error \<Rightarrow> (detailed_error, uid) routine" where
  "entry_or answer_of missing =
     bind_io (pure_io answer_of)
       (\<lambda>entry. case entry of None \<Rightarrow> throw (RuntimeError missing) | Some i \<Rightarrow> ret i)"

definition all_ids :: "res_ids \<Rightarrow> uid \<Rightarrow> bool" where
  "all_ids r i \<longleftrightarrow> \<not> (real_id r \<noteq> i \<or> effective_id r \<noteq> i \<or> saved_id r \<noteq> i)"

text \<open>\<open>setfsuid(u32::MAX)\<close> changes nothing and returns the current identifier.\<close>

definition check_user :: "credentials \<Rightarrow> (detailed_error, unit) routine" where
  "check_user c =
     bind_io (entry_or (user_from_name c USER_NAME) UserNonexistent) (\<lambda>garn_user.
     bind_io (pure_io (getresuid c)) (\<lambda>res_uid.
     bind_io (refuse_unless (all_ids res_uid garn_user) RunAsWrongUser) (\<lambda>_.
     refuse_unless (setfsuid c (- 1) = garn_user) RunAsWrongUser)))"

definition check_group :: "credentials \<Rightarrow> (detailed_error, unit) routine" where
  "check_group c =
     bind_io (entry_or (group_from_name c GROUP_NAME) GroupNonexistent) (\<lambda>garn_group.
     bind_io (pure_io (getresgid c)) (\<lambda>res_gid.
     bind_io (refuse_unless (all_ids res_gid garn_group) RunAsWrongGroup) (\<lambda>_.
     bind_io (refuse_unless (setfsgid c (- 1) = garn_group) RunAsWrongGroup) (\<lambda>_.
     bind_io (pure_io (getgroups c)) (\<lambda>groups.
     refuse_unless (0 \<notin> set groups) RunWithRootGroup)))))"

fun check_cap_sets :: "credentials \<Rightarrow> nat \<Rightarrow> cap_set list \<Rightarrow> (detailed_error, unit) routine" where
  "check_cap_sets c cap [] = ret ()"
| "check_cap_sets c cap (s # ss) =
     bind_io (pure_io (has_cap c s cap)) (\<lambda>has.
     bind_io (refuse_unless (\<not> has) RunWithCapabilities) (\<lambda>_. check_cap_sets c cap ss))"

fun check_caps :: "credentials \<Rightarrow> nat list \<Rightarrow> (detailed_error, unit) routine" where
  "check_caps c [] = ret ()"
| "check_caps c (cap # caps) =
     bind_io (check_cap_sets c cap [Permitted, Bounding]) (\<lambda>_. check_caps c caps)"

text \<open>The comparison \<open>> 0\<close> is one of signed integers.\<close>

definition secure_bits_missing :: "securebits \<Rightarrow> 32 word \<Rightarrow> bool" where
  "secure_bits_missing sb secure_bits \<longleftrightarrow>
     secure_bits AND SECBIT_NOROOT sb = 0
     \<or> secure_bits AND SECBIT_NOROOT_LOCKED sb = 0
     \<or> 0 < sint (secure_bits AND SECBIT_KEEP_CAPS sb)
     \<or> secure_bits AND SECBIT_KEEP_CAPS_LOCKED sb = 0
     \<or> secure_bits AND SECBIT_NO_SETUID_FIXUP sb = 0
     \<or> secure_bits AND SECBIT_NO_SETUID_FIXUP_LOCKED sb = 0
     \<or> secure_bits AND SECBIT_NO_CAP_AMBIENT_RAISE sb = 0
     \<or> secure_bits AND SECBIT_NO_CAP_AMBIENT_RAISE_LOCKED sb = 0"

definition get_securebits :: "credentials \<Rightarrow> (detailed_error, 32 word) routine" where
  "get_securebits c w =
     (let w0 = w\<lparr>errno_cell := 0\<rparr>
      in if prctl_get_securebits c = - 1
         then let w1 = w0\<lparr>errno_cell := prctl_errno c\<rparr> in (Err (IoError (errno_cell w1)), w1)
         else (Ok (prctl_get_securebits c), w0))"

definition check_secure_bits :: "credentials \<Rightarrow> securebits \<Rightarrow> (detailed_error, unit) routine" where
  "check_secure_bits c sb =
     bind_io (get_securebits c) (\<lambda>secure_bits.
     refuse_unless (\<not> secure_bits_missing sb secure_bits) SecureBitsNotSet)"

definition check_privileges ::
  "bool \<Rightarrow> os \<Rightarrow> credentials \<Rightarrow> securebits \<Rightarrow> (detailed_error, unit) routine" where
  "check_privileges debug_assertions os c sb =
     (if debug_assertions then send_error os (RuntimeError PrivilegeChecksDisabled)
      else bind_io (check_user c) (\<lambda>_.
           bind_io (check_group c) (\<lambda>_.
           bind_io (check_caps c (caps_all c)) (\<lambda>_.
           bind_io (pure_io (get_no_new_privs c)) (\<lambda>no_new_privs.
           bind_io (refuse_unless no_new_privs MayObtainNewPrivileges) (\<lambda>_.
           check_secure_bits c sb))))))"

section \<open>What they promise\<close>

definition runs_as :: "detailed_error + uid option \<Rightarrow> detailed_error + res_ids \<Rightarrow> uid \<Rightarrow> bool" where
  "runs_as entry ids fs \<longleftrightarrow> entry = Inr (Some fs) \<and> ids = Inr \<lparr>real_id = fs, effective_id = fs, saved_id = fs\<rparr>"

definition no_capability :: "credentials \<Rightarrow> nat \<Rightarrow> bool" where
  "no_capability c cap \<longleftrightarrow> has_cap c Permitted cap = Inr False \<and> has_cap c Bounding cap = Inr False"

definition unprivileged :: "credentials \<Rightarrow> securebits \<Rightarrow> bool" where
  "unprivileged c sb \<longleftrightarrow>
     runs_as (user_from_name c USER_NAME) (getresuid c) (setfsuid c (- 1))
     \<and> runs_as (group_from_name c GROUP_NAME) (getresgid c) (setfsgid c (- 1))
     \<and> (\<exists>gs. getgroups c = Inr gs \<and> 0 \<notin> set gs)
     \<and> list_all (no_capability c) (caps_all c)
     \<and> get_no_new_privs c = Inr True
     \<and> prctl_get_securebits c \<noteq> - 1 \<and> \<not> secure_bits_missing sb (prctl_get_securebits c)"

text \<open>Each check succeeds or refuses; it makes no call that the trace would show.\<close>

named_theorems check_results \<open>when a check succeeds\<close>

definition pure_check :: "(detailed_error, unit) routine \<Rightarrow> bool \<Rightarrow> bool" where
  "pure_check m b \<longleftrightarrow> (\<forall>w. trace (snd (m w)) = trace w \<and> panicking (snd (m w)) = panicking w
     \<and> (if b then fst (m w) = Ok () else (\<exists>e. fst (m w) = Err e)))"

lemma pure_check_bind:
  assumes m: "pure_check m a" and k: "pure_check k b"
  shows "pure_check (bind_io m (\<lambda>_. k)) (a \<and> b)"
  unfolding pure_check_def
proof
  fix w
  obtain x v where x: "m w = (x, v)" by (cases "m w")
  show "trace (snd (bind_io m (\<lambda>_. k) w)) = trace w \<and> panicking (snd (bind_io m (\<lambda>_. k) w)) = panicking w
     \<and> (if a \<and> b then fst (bind_io m (\<lambda>_. k) w) = Ok () else (\<exists>e. fst (bind_io m (\<lambda>_. k) w) = Err e))"
    using m [unfolded pure_check_def, THEN spec, of w] k [unfolded pure_check_def, THEN spec, of v] x
    by (cases a) (auto simp: bind_io_def)
qed

lemma pure_check_ret [check_results]: "pure_check (ret ()) True"
  by (simp add: pure_check_def ret_def)

text \<open>A check that starts with a call: it refuses if the call fails, else the rest decides.\<close>

lemma pure_check_call:
  assumes "\<And>a. x = Inr a \<Longrightarrow> pure_check (f a) (b a)"
  shows "pure_check (bind_io (pure_io x) f) (\<exists>a. x = Inr a \<and> b a)"
proof (cases x)
  case (Inl e)
  then show ?thesis by (simp add: pure_check_def exec_defs)
next
  case (Inr a)
  with assms [OF Inr] show ?thesis by (simp add: pure_check_def bind_io_def pure_io_def)
qed

lemma pure_check_refuse: "pure_check (refuse_unless b e) b"
  by (simp add: pure_check_def refuse_unless_def exec_defs)

lemma pure_check_entry:
  assumes "\<And>i. pure_check (f i) (b i)"
  shows "pure_check (bind_io (entry_or x e) f) (\<exists>i. x = Inr (Some i) \<and> b i)"
proof -
  have "pure_check (bind_io (case entry of None \<Rightarrow> throw (RuntimeError e) | Some i \<Rightarrow> ret i) f) (\<exists>i. entry = Some i \<and> b i)"
    for entry
    using assms by (cases entry) (simp_all add: pure_check_def bind_io_def throw_def ret_def)
  from pure_check_call [of x "\<lambda>entry. bind_io (case entry of None \<Rightarrow> throw (RuntimeError e) | Some i \<Rightarrow> ret i) f"
      "\<lambda>entry. \<exists>i. entry = Some i \<and> b i", OF this]
  moreover have "(\<exists>entry. x = Inr entry \<and> (\<exists>i. entry = Some i \<and> b i)) \<longleftrightarrow> (\<exists>i. x = Inr (Some i) \<and> b i)" by blast
  ultimately show ?thesis by (simp only: entry_or_def bind_io_assoc)
qed

lemma check_user_result [check_results]:
  "pure_check (check_user c) (runs_as (user_from_name c USER_NAME) (getresuid c) (setfsuid c (- 1)))"
proof -
  have "runs_as (user_from_name c USER_NAME) (getresuid c) (setfsuid c (- 1)) \<longleftrightarrow>
      (\<exists>i. user_from_name c USER_NAME = Inr (Some i) \<and> (\<exists>r. getresuid c = Inr r \<and> all_ids r i \<and> setfsuid c (- 1) = i))"
    by (auto simp: runs_as_def all_ids_def intro: res_ids.equality)
  then show ?thesis
    unfolding check_user_def by (simp only:) (intro pure_check_entry pure_check_call pure_check_bind pure_check_refuse)
qed

lemma check_group_result [check_results]:
  "pure_check (check_group c) (runs_as (group_from_name c GROUP_NAME) (getresgid c) (setfsgid c (- 1))
     \<and> (\<exists>gs. getgroups c = Inr gs \<and> 0 \<notin> set gs))"
proof -
  have "runs_as (group_from_name c GROUP_NAME) (getresgid c) (setfsgid c (- 1)) \<and> (\<exists>gs. getgroups c = Inr gs \<and> 0 \<notin> set gs) \<longleftrightarrow>
      (\<exists>i. group_from_name c GROUP_NAME = Inr (Some i) \<and> (\<exists>r. getresgid c = Inr r \<and> all_ids r i \<and> setfsgid c (- 1) = i
         \<and> (\<exists>gs. getgroups c = Inr gs \<and> 0 \<notin> set gs)))"
    by (auto simp: runs_as_def all_ids_def intro: res_ids.equality)
  then show ?thesis
    unfolding check_group_def by (simp only:) (intro pure_check_entry pure_check_call pure_check_bind pure_check_refuse)
qed

lemma check_cap_sets_result: "pure_check (check_cap_sets c cap ss) (\<forall>s\<in>set ss. has_cap c s cap = Inr False)"
proof (induction ss)
  case (Cons s ss)
  have "pure_check (bind_io (pure_io (has_cap c s cap)) (\<lambda>has. bind_io (refuse_unless (\<not> has) RunWithCapabilities)
      (\<lambda>_. check_cap_sets c cap ss))) (\<exists>has. has_cap c s cap = Inr has \<and> \<not> has \<and> (\<forall>s\<in>set ss. has_cap c s cap = Inr False))"
    by (intro pure_check_call pure_check_bind pure_check_refuse Cons.IH)
  moreover have "(\<exists>has. has_cap c s cap = Inr has \<and> \<not> has \<and> (\<forall>s\<in>set ss. has_cap c s cap = Inr False))
      \<longleftrightarrow> (\<forall>s\<in>set (s # ss). has_cap c s cap = Inr False)" by auto
  ultimately show ?case by simp
qed (simp add: pure_check_ret)

lemma check_caps_result [check_results]: "pure_check (check_caps c caps) (list_all (no_capability c) caps)"
proof (induction caps)
  case (Cons cap caps)
  from pure_check_bind [OF check_cap_sets_result [of c cap "[Permitted, Bounding]"] Cons.IH]
  show ?case by (simp add: no_capability_def conj_assoc)
qed (simp add: pure_check_ret)

lemma check_secure_bits_result [check_results]:
  "pure_check (check_secure_bits c sb)
     (prctl_get_securebits c \<noteq> - 1 \<and> \<not> secure_bits_missing sb (prctl_get_securebits c))"
  by (simp add: pure_check_def check_secure_bits_def get_securebits_def refuse_unless_def exec_defs Let_def)

lemma check_privileges_pure: "pure_check (check_privileges False os c sb) (unprivileged c sb)"
proof -
  have "unprivileged c sb \<longleftrightarrow>
     runs_as (user_from_name c USER_NAME) (getresuid c) (setfsuid c (- 1))
     \<and> (runs_as (group_from_name c GROUP_NAME) (getresgid c) (setfsgid c (- 1)) \<and> (\<exists>gs. getgroups c = Inr gs \<and> 0 \<notin> set gs))
     \<and> list_all (no_capability c) (caps_all c)
     \<and> (\<exists>b. get_no_new_privs c = Inr b \<and> b
       \<and> (prctl_get_securebits c \<noteq> - 1 \<and> \<not> secure_bits_missing sb (prctl_get_securebits c)))"
    by (auto simp: unprivileged_def)
  then show ?thesis
    unfolding check_privileges_def
    by (simp only: if_False) (intro pure_check_bind pure_check_call pure_check_refuse check_results)
qed

text \<open>
  C12: the daemon starts only unprivileged. In a release build the checks succeed if and only if the
  user and the group ''garnd'' exist, all four user and all four group identifiers are theirs, the
  root group is not among the supplementary ones, no capability is permitted or in the bounding
  set, no new privileges can be gained and the secure bits are as demanded; otherwise they return
  an error. They never panic, and report nothing but their result.
\<close>

theorem privileges_checked:
  "trace (snd (check_privileges False os c sb w)) = trace w
    \<and> (if unprivileged c sb then fst (check_privileges False os c sb w) = Ok ()
       else (\<exists>e. fst (check_privileges False os c sb w) = Err e))"
  using check_privileges_pure [of os c sb] by (simp add: pure_check_def)

definition demo_credentials :: credentials where
  "demo_credentials =
     \<lparr>user_from_name = (\<lambda>n. Inr (if n = ''garnd'' then Some 990 else None)),
      getresuid = Inr \<lparr>real_id = 990, effective_id = 990, saved_id = 990\<rparr>, setfsuid = (\<lambda>_. 990),
      group_from_name = (\<lambda>n. Inr (if n = ''garnd'' then Some 991 else None)),
      getresgid = Inr \<lparr>real_id = 991, effective_id = 991, saved_id = 991\<rparr>, setfsgid = (\<lambda>_. 991),
      getgroups = Inr [991], caps_all = [0, 1, 2], has_cap = (\<lambda>_ _. Inr False), get_no_new_privs = Inr True,
      prctl_get_securebits = 0xEF, prctl_errno = 0\<rparr>"

section \<open>The secure bits\<close>

text \<open>The values \<open>capabilities(7)\<close> documents.\<close>

definition linux_securebits :: securebits where
  "linux_securebits =
     \<lparr>SECBIT_NOROOT = 1, SECBIT_NOROOT_LOCKED = 2,
      SECBIT_KEEP_CAPS = 16, SECBIT_KEEP_CAPS_LOCKED = 32,
      SECBIT_NO_SETUID_FIXUP = 4, SECBIT_NO_SETUID_FIXUP_LOCKED = 8,
      SECBIT_NO_CAP_AMBIENT_RAISE = 64, SECBIT_NO_CAP_AMBIENT_RAISE_LOCKED = 128\<rparr>"

lemma and_power: "(w :: 32 word) AND 2 ^ n = 0 \<longleftrightarrow> \<not> bit w n"
  by (cases "n < 32") (auto simp: and_exp_eq_0_iff_not_bit)

lemma and_bits:
  fixes w :: "32 word"
  shows "w AND 1 = 0 \<longleftrightarrow> \<not> bit w 0" "w AND 2 = 0 \<longleftrightarrow> \<not> bit w 1" "w AND 4 = 0 \<longleftrightarrow> \<not> bit w 2"
    "w AND 8 = 0 \<longleftrightarrow> \<not> bit w 3" "w AND 32 = 0 \<longleftrightarrow> \<not> bit w 5" "w AND 64 = 0 \<longleftrightarrow> \<not> bit w 6"
    "w AND 128 = 0 \<longleftrightarrow> \<not> bit w 7" "w AND 16 = 0 \<longleftrightarrow> \<not> bit w 4"
  using and_power [of w 0] and_power [of w 1] and_power [of w 2] and_power [of w 3] and_power [of w 4]
    and_power [of w 5] and_power [of w 6] and_power [of w 7] by simp_all

lemma and_power_value: "(w :: 32 word) AND 2 ^ n = (if bit w n then 2 ^ n else 0)"
  by (rule bit_word_eqI) (auto simp: bit_and_iff bit_exp_iff)

lemma and_16: "w AND 16 = (if bit w 4 then 16 else (0 :: 32 word))"
  using and_power_value [of w 4] by simp

lemma low_byte:
  "(w :: 32 word) AND 0xFF = 0xEF \<longleftrightarrow>
     bit w 0 \<and> bit w 1 \<and> bit w 2 \<and> bit w 3 \<and> \<not> bit w 4 \<and> bit w 5 \<and> bit w 6 \<and> bit w 7"
proof
  assume "w AND 0xFF = 0xEF"
  then have "bit (w AND 0xFF) n \<longleftrightarrow> bit (0xEF :: 32 word) n" for n by simp
  from this [of 0] this [of 1] this [of 2] this [of 3] this [of 4] this [of 5] this [of 6] this [of 7]
  show "bit w 0 \<and> bit w 1 \<and> bit w 2 \<and> bit w 3 \<and> \<not> bit w 4 \<and> bit w 5 \<and> bit w 6 \<and> bit w 7"
    by (simp add: bit_and_iff)
next
  assume b: "bit w 0 \<and> bit w 1 \<and> bit w 2 \<and> bit w 3 \<and> \<not> bit w 4 \<and> bit w 5 \<and> bit w 6 \<and> bit w 7"
  have "bit (w AND 0xFF) n \<longleftrightarrow> bit (0xEF :: 32 word) n" if "n < 32" for n
  proof (cases "n < 8")
    case True
    then have "n \<in> {0, 1, 2, 3, 4, 5, 6, 7}" by auto
    with b show ?thesis by (auto simp: bit_and_iff)
  next
    case False
    have "take_bit 8 (0xFF :: 32 word) = 0xFF" "take_bit 8 (0xEF :: 32 word) = 0xEF" by simp_all
    with False have "\<not> bit (0xFF :: 32 word) n" "\<not> bit (0xEF :: 32 word) n"
      by (metis bit_take_bit_iff)+
    then show ?thesis using that by (simp add: bit_and_iff)
  qed
  then show "w AND 0xFF = 0xEF" by (intro bit_word_eqI) simp
qed

lemma secure_bits_exact_bits:
  "\<not> secure_bits_missing linux_securebits w \<longleftrightarrow>
     bit w 0 \<and> bit w 1 \<and> bit w 2 \<and> bit w 3 \<and> \<not> bit w 4 \<and> bit w 5 \<and> bit w 6 \<and> bit w 7"
  by (auto simp: secure_bits_missing_def linux_securebits_def and_bits and_16 split: if_splits)

text \<open>
  C36: the secure bits are one comparison. With the values Linux documents, the eight tests of
  single masks accept exactly the words whose low byte is 0xEF: every bit and every lock is set
  but \<open>KEEP_CAPS\<close>, and that one is locked to be clear.
\<close>

theorem secure_bits_exact:
  "\<not> secure_bits_missing linux_securebits w \<longleftrightarrow> w AND 0xFF = 0xEF"
  by (simp only: low_byte secure_bits_exact_bits)

lemma demo_unprivileged: "unprivileged demo_credentials linux_securebits"
proof -
  have "\<not> secure_bits_missing linux_securebits 0xEF" by (simp add: secure_bits_exact_bits low_byte [symmetric])
  then show ?thesis
    by (simp add: unprivileged_def demo_credentials_def runs_as_def no_capability_def USER_NAME_def GROUP_NAME_def)
qed

text \<open>In a debug build nothing is checked, and that is reported.\<close>

lemma privileges_skipped:
  "main_listens os \<Longrightarrow> check_privileges True os c sb w
     = (Ok (), log_event (sent (RuntimeError PrivilegeChecksDisabled)) w)"
  by (simp add: check_privileges_def send_error_listens)

end
