(* ===== verification/Runtime.thy ===== *)
theory Runtime imports Circuit_Breaker Privileges Environment begin

text \<open>
  \<open>src/linux/runtime.rs\<close>: how the daemon is brought up. The type-state \<open>Runtime<S>\<close> is one record
  per state: \<open>Runtime<Uninit>\<close> is \<open>runtime\<close>, \<open>Runtime<Ready>\<close> extends it by the welcome socket and
  the two events, \<open>Runtime<Listening>\<close> by the welcome thread. The statics the signal handlers read
  are the record \<open>statics\<close>, beside the world; the atomics of the circuit breaker are there too,
  because they survive a reload with them. What the host answers is the record \<open>host\<close>.
\<close>

section \<open>Statics and states\<close>

record statics =
  shutdown_event_for_signal :: raw_fd
  reload_event_for_signal :: raw_fd
  circuit :: breaker

definition statics_init :: statics where
  "statics_init = \<lparr>shutdown_event_for_signal = - 1, reload_event_for_signal = - 1, circuit = breaker_init\<rparr>"

record host =
  debug_assertions :: bool
  credentials_at :: "event list \<Rightarrow> credentials"
  securebits_values :: securebits
  env_var :: "string \<Rightarrow> var_error + string"
  getpid :: nat

record runtime =
  working_dir_path :: string

record ready_runtime = runtime +
  welcome_socket :: raw_fd
  shutdown_event :: raw_fd
  reload_event :: raw_fd

record listening_runtime = runtime +
  welcome_thread :: thread_id

definition runtime_new :: "garnshared \<Rightarrow> string option \<Rightarrow> runtime" where
  "runtime_new gs working_dir_name =
     \<lparr>working_dir_path = (case working_dir_name of None \<Rightarrow> default_working_dir gs | Some d \<Rightarrow> d)\<rparr>"

section \<open>Notifications to systemd\<close>

definition notify_system_starting :: "os \<Rightarrow> host \<Rightarrow> (detailed_error, unit) routine" where
  "notify_system_starting os h =
     sys_unit os (Notify [(''STATUS'', ''Starting service...''), (''MAINPID'', show_nat (getpid h))])"

definition notify_system_listening :: "os \<Rightarrow> (detailed_error, unit) routine" where
  "notify_system_listening os = sys_unit os (Notify [(''READY'', ''1''), (''STATUS'', ''Listening...'')])"

definition notify_system_reloading :: "os \<Rightarrow> (detailed_error, unit) routine" where
  "notify_system_reloading os = sys_unit os (Notify [(''RELOADING'', ''1''), (''STATUS'', ''Reloading service...'')])"

definition notify_system_stopping :: "os \<Rightarrow> (detailed_error, unit) routine" where
  "notify_system_stopping os = sys_unit os (Notify [(''STOPPING'', ''1''), (''STATUS'', ''Stopping service...'')])"

section \<open>The welcome socket\<close>

definition setup_socket :: "os \<Rightarrow> garnshared \<Rightarrow> (detailed_error, raw_fd) routine" where
  "setup_socket os gs =
     bind_io (sys_fd os SocketNew) (\<lambda>socket.
     on_exit_drop (close_fd socket)
       (bind_io (sys_unit os (SetPassCred socket)) (\<lambda>_.
        let welcome_sock_name = abstract_sock_name_prefix gs @ welcome_sock_abstract_name gs
        in bind_io (sys_unit os (NewAbstract welcome_sock_name)) (\<lambda>_.
           match_io (sys_unit os (Bind socket welcome_sock_name))
             (\<lambda>e. if e = NixError EADDRINUSE then throw (RuntimeError ServiceAlreadyRunning) else throw e)
             (\<lambda>_. ret socket)))))"

section \<open>The events of the signal handlers\<close>

text \<open>
  \<open>AtomicI32::compare_exchange\<close>: the result and the new value. \<open>recycle\<close> keeps the event that is
  in the static already; the new one is dropped.
\<close>

definition compare_exchange :: "raw_fd \<Rightarrow> raw_fd \<Rightarrow> raw_fd \<Rightarrow> (raw_fd + raw_fd) \<times> raw_fd" where
  "compare_exchange current expected new =
     (if current = expected then (Inr current, new) else (Inl current, current))"

definition recycle ::
  "(statics \<Rightarrow> raw_fd) \<Rightarrow> ((raw_fd \<Rightarrow> raw_fd) \<Rightarrow> statics \<Rightarrow> statics) \<Rightarrow> raw_fd
    \<Rightarrow> (statics \<times> world, 'e, raw_fd) io" where
  "recycle load store event sw =
     (case compare_exchange (load (fst sw)) (- 1) event of
        (Inr _, value) \<Rightarrow> (Ok event, store (\<lambda>_. value) (fst sw), snd sw)
      | (Inl raw_fd, value) \<Rightarrow> (Ok raw_fd, store (\<lambda>_. value) (fst sw), close_fd event (snd sw)))"

definition install_handlers :: "os \<Rightarrow> (detailed_error, unit) routine" where
  "install_handlers os =
     bind_io (sys_unit os (Sigaction SIGTERM TerminationSignalHandler [SIGTERM, SIGINT])) (\<lambda>_.
     bind_io (sys_unit os (Sigaction SIGINT TerminationSignalHandler [SIGTERM, SIGINT])) (\<lambda>_.
     sys_unit os (Sigaction SIGHUP ReloadSignalHandler [SIGHUP])))"

text \<open>After the exchange the events are leaked: a failure to install a handler does not close them.\<close>

definition setup_events :: "os \<Rightarrow> (statics \<times> world, detailed_error, raw_fd \<times> raw_fd) io" where
  "setup_events os =
     bind_io (lift_io (sys_fd os EventFdNew)) (\<lambda>shutdown.
     bind_io (on_exit_drop (apsnd (close_fd shutdown)) (lift_io (sys_fd os EventFdNew))) (\<lambda>reload.
     bind_io (recycle shutdown_event_for_signal shutdown_event_for_signal_update shutdown) (\<lambda>shutdown.
     bind_io (recycle reload_event_for_signal reload_event_for_signal_update reload) (\<lambda>reload.
     bind_io (lift_io (install_handlers os)) (\<lambda>_. ret (shutdown, reload))))))"

section \<open>Signal handlers\<close>

text \<open>\<open>_exit(-1)\<close>: the parent sees the low eight bits. \<open>write\<close> may leave any value in \<open>errno\<close>.\<close>

definition write_event :: "os \<Rightarrow> raw_fd \<Rightarrow> world \<Rightarrow> world" where
  "write_event os fd w =
     (let c = EventFdWrite fd 1
      in (log_event (UnitAns c (ask_unit os (trace w) c)) w)\<lparr>errno_cell := ask_errno os (trace w)\<rparr>)"

definition termination_or_reload_handler :: "os \<Rightarrow> bool \<Rightarrow> (statics \<times> world, 'e, unit) io" where
  "termination_or_reload_handler os is_reload sw =
     (let fd = (if is_reload then reload_event_for_signal (fst sw) else shutdown_event_for_signal (fst sw))
      in if fd = - 1
         then (if is_reload
               then (Ok (), fst sw, error_in_brittle_scenario os
                       ''Reload requested in an early or severely invalid state of the program, continuing.'' (snd sw))
               else (Exit (ExitCode (- 1)), fst sw, error_in_brittle_scenario os
                       ''Termination requested in an early or severely invalid state of the program, exiting.'' (snd sw)))
         else let last_errno = errno_cell (snd sw);
                  w1 = write_event os fd (snd sw)
              in (Ok (), fst sw, w1\<lparr>errno_cell := last_errno\<rparr>))"

definition termination_signal_handler :: "os \<Rightarrow> (statics \<times> world, 'e, unit) io" where
  "termination_signal_handler os = termination_or_reload_handler os False"

definition reload_signal_handler :: "os \<Rightarrow> (statics \<times> world, 'e, unit) io" where
  "reload_signal_handler os = termination_or_reload_handler os True"

section \<open>From one state to the next\<close>

definition init :: "os \<Rightarrow> garnshared \<Rightarrow> host \<Rightarrow> runtime \<Rightarrow> (statics \<times> world, detailed_error, ready_runtime) io" where
  "init os gs h self =
     bind_io (lift_io (\<lambda>w. check_privileges (debug_assertions h) os (credentials_at h (trace w)) (securebits_values h) w))
       (\<lambda>_.
     bind_io (lift_io (setup_socket os gs)) (\<lambda>socket.
     on_exit_drop (apsnd (close_fd socket))
       (bind_io (setup_events os) (\<lambda>(shutdown, reload).
        ret \<lparr>working_dir_path = working_dir_path self,
             welcome_socket = socket, shutdown_event = shutdown, reload_event = reload\<rparr>))))"

text \<open>The closure that owns the socket is dropped if no thread could be started.\<close>

definition listen_runtime :: "os \<Rightarrow> ready_runtime \<Rightarrow> (detailed_error, listening_runtime) routine" where
  "listen_runtime os self =
     bind_io
       (on_exit_drop (close_fd (welcome_socket self))
          (sys_spawn os (WelcomeThread (welcome_socket self) (shutdown_event self) (reload_event self))))
       (\<lambda>thread. ret \<lparr>working_dir_path = working_dir_path self, welcome_thread = thread\<rparr>)"

text \<open>Dropping \<open>Runtime<Listening>\<close> joins the welcome thread.\<close>

definition listening_drop :: "os \<Rightarrow> garnshared \<Rightarrow> listening_runtime \<Rightarrow> ('e, unit) routine" where
  "listening_drop os gs self = join_guard_drop os gs (welcome_thread self)"

section \<open>What the set-up of the events leaves\<close>

lemma recycle_simps [simp]:
  "recycle shutdown_event_for_signal shutdown_event_for_signal_update ev (s, w) =
     (if shutdown_event_for_signal s = - 1 then (Ok ev, s\<lparr>shutdown_event_for_signal := ev\<rparr>, w)
      else (Ok (shutdown_event_for_signal s), s, close_fd ev w))"
  "recycle reload_event_for_signal reload_event_for_signal_update ev (s, w) =
     (if reload_event_for_signal s = - 1 then (Ok ev, s\<lparr>reload_event_for_signal := ev\<rparr>, w)
      else (Ok (reload_event_for_signal s), s, close_fd ev w))"
  by (simp_all add: recycle_def compare_exchange_def)

text \<open>The events the statics hold after one was offered, and the closing of one that was not taken.\<close>

definition taken :: "raw_fd \<Rightarrow> raw_fd \<Rightarrow> raw_fd" where
  "taken held offered = (if held = - 1 then offered else held)"

definition refused :: "raw_fd \<Rightarrow> raw_fd \<Rightarrow> event list" where
  "refused held offered = (if held = - 1 then [] else [Did (Close offered)])"

definition offer :: "statics \<Rightarrow> raw_fd \<Rightarrow> raw_fd \<Rightarrow> statics" where
  "offer s a b = s\<lparr>shutdown_event_for_signal := taken (shutdown_event_for_signal s) a,
     reload_event_for_signal := taken (reload_event_for_signal s) b\<rparr>"

fun is_sigaction :: "event \<Rightarrow> bool" where
  "is_sigaction (UnitAns (Sigaction _ _ _) _) = True"
| "is_sigaction _ = False"

lemma install_handlers_result:
  assumes "install_handlers os w = (r, w')"
  shows "\<exists>es. trace w' = trace w @ es \<and> list_all is_sigaction es \<and> (r = Ok () \<or> (\<exists>e. r = Err e))"
  using assms by (auto simp: install_handlers_def exec_defs sys_call_defs answer_def split: sum.splits)

lemma setup_events_cases:
  assumes run: "setup_events os (s, w) = (r, s', w')"
  obtains
    (no_shutdown) e where "r = Err e" "s' = s" "trace w' = trace w @ [FdAns EventFdNew (Inl e)]"
  | (no_reload) a e where "r = Err e" "s' = s" "ask_fd os (trace w) EventFdNew = Inr a"
      "trace w' = trace w @ [FdAns EventFdNew (Inr a), FdAns EventFdNew (Inl e), Did (Close a)]"
  | (made) a b es where "ask_fd os (trace w) EventFdNew = Inr a"
      "ask_fd os (trace w @ [FdAns EventFdNew (Inr a)]) EventFdNew = Inr b"
      "s' = offer s a b" "list_all is_sigaction es"
      "trace w' = trace w @ [FdAns EventFdNew (Inr a), FdAns EventFdNew (Inr b)]
         @ refused (shutdown_event_for_signal s) a @ refused (reload_event_for_signal s) b @ es"
      "r = Ok (shutdown_event_for_signal s', reload_event_for_signal s') \<or> (\<exists>e. r = Err e)"
proof -
  define x where "x = ask_fd os (trace w) EventFdNew"
  show thesis
  proof (cases x)
    case (Inl e)
    with run show thesis
      by (intro no_shutdown [of e]) (auto simp: setup_events_def exec_defs sys_call_defs x_def [symmetric])
  next
    case a: (Inr a)
    define y where "y = ask_fd os (trace w @ [FdAns EventFdNew (Inr a)]) EventFdNew"
    show thesis
    proof (cases y)
      case (Inl e)
      with run a show thesis
        by (intro no_reload [of e a])
          (auto simp: setup_events_def exec_defs sys_call_defs x_def [symmetric] y_def [symmetric])
    next
      case b: (Inr b)
      let ?w2 = "log_event (FdAns EventFdNew (Inr b)) (log_event (FdAns EventFdNew (Inr a)) w)"
      let ?v = "if reload_event_for_signal s = - 1 then if shutdown_event_for_signal s = - 1 then ?w2 else close_fd a ?w2
        else close_fd b (if shutdown_event_for_signal s = - 1 then ?w2 else close_fd a ?w2)"
      obtain z u where h: "install_handlers os ?v = (z, u)" by (cases "install_handlers os ?v")
      from install_handlers_result [OF h] obtain es where
        es: "trace u = trace ?v @ es" "list_all is_sigaction es" "z = Ok () \<or> (\<exists>e. z = Err e)" by blast
      have "setup_events os (s, w) = bind_io (lift_io (install_handlers os))
          (\<lambda>_. ret (shutdown_event_for_signal (offer s a b), reload_event_for_signal (offer s a b))) (offer s a b, ?v)"
        using a b by (simp add: setup_events_def bind_io_def lift_io_def [of "sys_fd os EventFdNew"] sys_call_defs on_exit_drop_def x_def [symmetric] y_def [symmetric]
            offer_def taken_def)
      with run h have "w' = u" "s' = offer s a b"
        "r = (case z of Ok _ \<Rightarrow> Ok (shutdown_event_for_signal s', reload_event_for_signal s') | Err e \<Rightarrow> Err e
          | Panic \<Rightarrow> Panic | Exit c \<Rightarrow> Exit c | NoReturn \<Rightarrow> NoReturn)"
        using es(3) by (auto simp: bind_io_def lift_io_def ret_def)
      with es a b show thesis
        by (intro made [of a b es]) (auto simp: x_def y_def refused_def)
    qed
  qed
qed

text \<open>What the kernel documents: descriptors are not negative.\<close>

definition nonnegative_fds :: "os \<Rightarrow> bool" where
  "nonnegative_fds os \<longleftrightarrow> (\<forall>tr c fd. ask_fd os tr c = Inr fd \<longrightarrow> 0 \<le> sint fd)"

lemma nonnegative_fdsD: "nonnegative_fds os \<Longrightarrow> ask_fd os tr c = Inr fd \<Longrightarrow> fd \<noteq> - 1"
  unfolding nonnegative_fds_def by fastforce

text \<open>
  C14: signals reach the thread, across reloads too. When the events are set up, the descriptors
  that are handed to the welcome thread are the ones the signal handlers write to; they are
  descriptors, and if a handler could write to one before, it is the same one as before, so a
  request that is pending in it is not lost.
\<close>

theorem handlers_reach_the_thread:
  assumes run: "setup_events os (s, w) = (Ok (sh, re), s', w')" and os: "nonnegative_fds os"
  shows "shutdown_event_for_signal s' = sh \<and> reload_event_for_signal s' = re \<and> sh \<noteq> - 1 \<and> re \<noteq> - 1
    \<and> (shutdown_event_for_signal s \<in> {- 1, sh}) \<and> (reload_event_for_signal s \<in> {- 1, re})
    \<and> circuit s' = circuit s"
  using run
proof (cases rule: setup_events_cases)
  case (made a b es)
  with nonnegative_fdsD [OF os] show ?thesis by (auto simp: offer_def taken_def)
qed simp_all

section \<open>Their descriptors\<close>

definition event_fds :: "statics \<Rightarrow> raw_fd set" where
  "event_fds s = {shutdown_event_for_signal s, reload_event_for_signal s} - {- 1}"

lemma sigactions_quiet: "list_all is_sigaction es \<Longrightarrow> list_all (\<lambda>e. \<not> moves_fd e) es"
proof (induction es)
  case (Cons e es)
  then show ?case by (cases e rule: is_sigaction.cases) auto
qed simp

lemma setup_events_owns:
  assumes run: "setup_events os (s, w) = (r, s', w')" and os: "fresh_fds os" "nonnegative_fds os"
    and own: "owns S (trace w)" and held: "event_fds s \<subseteq> S"
  shows "owns (S \<union> event_fds s') (trace w') \<and> event_fds s \<subseteq> event_fds s'"
  using run
proof (cases rule: setup_events_cases)
  case (no_shutdown e)
  with owns_log [OF own, of "FdAns EventFdNew (Inl e)"] held show ?thesis by (simp add: Un_absorb2)
next
  case (no_reload a e)
  have new: "a \<notin> S" using fresh_fdsD [OF os(1) no_reload(3)] own by (simp add: owns_def)
  have "owns (insert a S) (trace w @ [FdAns EventFdNew (Inr a), FdAns EventFdNew (Inl e)])"
    using owns_log [OF owns_new(1) [OF own], of "FdAns EventFdNew (Inl e)"] by simp
  from owns_close [OF this, of a] new no_reload held show ?thesis by (simp add: Un_absorb2)
next
  case (made a b es)
  let ?tr = "trace w @ [FdAns EventFdNew (Inr a), FdAns EventFdNew (Inr b)]"
  have a: "a \<notin> S" "a \<noteq> - 1"
    using fresh_fdsD [OF os(1) made(1)] own nonnegative_fdsD [OF os(2) made(1)] by (simp_all add: owns_def)
  have o1: "owns (insert a S) (trace w @ [FdAns EventFdNew (Inr a)])" by (rule owns_new(1) [OF own])
  have b: "b \<notin> insert a S" "b \<noteq> - 1"
    using fresh_fdsD [OF os(1) made(2)] o1 nonnegative_fdsD [OF os(2) made(2)] by (simp_all add: owns_def)
  have o2: "owns (insert b (insert a S)) ?tr"
    using owns_new(1) [OF o1] by simp
  let ?A = "if shutdown_event_for_signal s = - 1 then insert b (insert a S) else insert b S"
  have o3: "owns ?A (?tr @ refused (shutdown_event_for_signal s) a)"
    using o2 owns_close [OF o2, of a] a b by (auto simp: refused_def insert_Diff_if)
  let ?B = "if reload_event_for_signal s = - 1 then ?A else ?A - {b}"
  have o4: "owns ?B (?tr @ refused (shutdown_event_for_signal s) a @ refused (reload_event_for_signal s) b)"
    using o3 owns_close [OF o3, of b] by (auto simp: refused_def)
  have "?B = S \<union> event_fds s'"
    using a b held made(3) by (auto simp: event_fds_def offer_def taken_def)
  with owns_quiet [OF o4 sigactions_quiet [OF made(4)]] have "owns (S \<union> event_fds s') (trace w')"
    by (simp add: made(5))
  then show ?thesis using made(3) by (auto simp: event_fds_def offer_def taken_def)
qed

lemma setup_socket_owns:
  assumes run: "setup_socket os gs w = (r, w')" and os: "fresh_fds os" and own: "owns S (trace w)"
  shows "(\<exists>fd. r = Ok fd \<and> owns (insert fd S) (trace w') \<and> fd \<notin> S) \<or> (\<exists>e. r = Err e) \<and> owns S (trace w')"
proof -
  define x where "x = ask_fd os (trace w) SocketNew"
  let ?w1 = "log_event (FdAns SocketNew x) w"
  show ?thesis
  proof (cases x)
    case (Inl e)
    with run owns_log [OF own, of "FdAns SocketNew x"] show ?thesis
      by (auto simp: setup_socket_def exec_defs sys_call_defs x_def [symmetric])
  next
    case (Inr fd)
    have new: "fd \<notin> S" using fresh_fdsD [OF os, of "trace w" SocketNew fd] Inr own by (simp add: owns_def x_def)
    have w1: "owns (insert fd S) (trace ?w1)" using owns_new(1) [OF own] Inr by simp
    let ?name = "abstract_sock_name_prefix gs @ welcome_sock_abstract_name gs"
    let ?body = "bind_io (sys_unit os (SetPassCred fd)) (\<lambda>_. bind_io (sys_unit os (NewAbstract ?name)) (\<lambda>_.
        match_io (sys_unit os (Bind fd ?name))
          (\<lambda>e. if e = NixError EADDRINUSE then throw (RuntimeError ServiceAlreadyRunning) else throw e)
          (\<lambda>_. ret fd)))"
    obtain y v where b: "?body ?w1 = (y, v)" by (cases "?body ?w1")
    have "keeps (\<lambda>w. owns (insert fd S) (trace w)) ?body"
      by (intro keeps_bind keeps_match keeps_if keeps_pure fds.answers) simp_all
    from keepsD [OF this w1 b] have v: "owns (insert fd S) (trace v)" .
    have y: "y = Ok fd \<or> (\<exists>e. y = Err e)"
      using b by (auto simp: exec_defs sys_call_defs answer_def split: sum.splits if_splits)
    have "on_exit_drop (close_fd fd) ?body ?w1 = (r, w')"
      using run Inr by (simp add: setup_socket_def bind_io_def sys_fd_def x_def [symmetric] Let_def)
    with b y have "y = Ok fd \<and> r = Ok fd \<and> w' = v \<or> (\<exists>e. r = Err e) \<and> w' = close_fd fd v"
      by (auto simp: on_exit_drop_def)
    moreover have "owns (insert fd S - {fd}) (trace (close_fd fd v))"
      using owns_close [OF v, of fd] by simp
    ultimately show ?thesis using v new by auto
  qed
qed

lemma check_privileges_outcome:
  assumes run: "check_privileges d os c sb w = (r, w')"
  shows "(d = False \<longrightarrow> trace w' = trace w \<and> (r = Ok () \<and> unprivileged c sb \<or> (\<exists>e. r = Err e) \<and> \<not> unprivileged c sb))
    \<and> (d = True \<longrightarrow> (\<exists>b. trace w' = trace w @ [BoolAns (SendToMain (RuntimeError PrivilegeChecksDisabled)) b])
         \<and> (r = Ok () \<or> r = Panic))"
proof (cases d)
  case True
  with run show ?thesis by (auto simp: check_privileges_def dest!: send_error_result split: if_splits)
next
  case False
  with run check_privileges_pure [of os c sb, unfolded pure_check_def, THEN spec, of w] show ?thesis
    by (auto split: if_splits)
qed

text \<open>
  Bringing the daemon up: the socket is open exactly if that succeeded; what the statics hold stays
  open either way.
\<close>

lemma init_owns:
  assumes run: "init os gs h self (s, w) = (r, s', w')" and os: "fresh_fds os" "nonnegative_fds os"
    and own: "owns (event_fds s) (trace w)"
  shows "(\<exists>rt. r = Ok rt \<and> owns (insert (welcome_socket rt) (event_fds s')) (trace w')
       \<and> welcome_socket rt \<notin> event_fds s'
       \<and> shutdown_event rt = shutdown_event_for_signal s' \<and> reload_event rt = reload_event_for_signal s'
       \<and> event_fds s \<subseteq> event_fds s' \<and> (debug_assertions h \<or> unprivileged (credentials_at h (trace w)) (securebits_values h)))
    \<or> ((\<exists>e. r = Err e) \<or> r = Panic) \<and> owns (event_fds s') (trace w') \<and> event_fds s \<subseteq> event_fds s'"
proof -
  obtain x v where p: "check_privileges (debug_assertions h) os (credentials_at h (trace w)) (securebits_values h) w = (x, v)"
    by (cases "check_privileges (debug_assertions h) os (credentials_at h (trace w)) (securebits_values h) w")
  have v: "owns (event_fds s) (trace v)"
    using check_privileges_outcome [OF p] own owns_log [OF own] by (cases "debug_assertions h") auto
  show ?thesis
  proof (cases x)
    case (Ok u)
    then have unpriv: "debug_assertions h \<or> unprivileged (credentials_at h (trace w)) (securebits_values h)"
      using check_privileges_outcome [OF p] by auto
    obtain y u where sock: "setup_socket os gs v = (y, u)" by (cases "setup_socket os gs v")
    from setup_socket_owns [OF sock os(1) v] show ?thesis
    proof (elim disjE exE conjE)
      fix e assume "y = Err e" "owns (event_fds s) (trace u)"
      with run p Ok sock show ?thesis by (auto simp: init_def bind_io_def lift_io_def)
    next
      fix fd assume fd: "y = Ok fd" "owns (insert fd (event_fds s)) (trace u)" "fd \<notin> event_fds s"
      obtain z s2 t where ev: "setup_events os (s, u) = (z, s2, t)" by (cases "setup_events os (s, u)")
      have "insert fd (event_fds s) \<union> event_fds s2 = insert fd (event_fds s2)" if "event_fds s \<subseteq> event_fds s2"
        using that by auto
      with setup_events_owns [OF ev os fd(2) subset_insertI]
      have t: "owns (insert fd (event_fds s2)) (trace t)" "event_fds s \<subseteq> event_fds s2" by metis+
      have fd': "fd \<notin> event_fds s2"
        using ev
      proof (cases rule: setup_events_cases)
        case (made a b es)
        have "a \<noteq> fd" "b \<noteq> fd"
          using fresh_fdsD [OF os(1) made(1)] fresh_fdsD [OF os(1) made(2)] fd(2) by (auto simp: owns_def trace_simps)
        with made(3) fd(3) show ?thesis by (auto simp: event_fds_def offer_def taken_def)
      qed (use fd in simp_all)
      have z: "z = Ok (shutdown_event_for_signal s2, reload_event_for_signal s2) \<or> (\<exists>e. z = Err e)"
        using ev by (cases rule: setup_events_cases) auto
      have "owns (event_fds s2) (trace (close_fd fd t))"
        using owns_close [OF t(1), of fd] fd' by simp
      with run p Ok sock fd ev z t fd' unpriv show ?thesis
        by (auto simp: init_def bind_io_def lift_io_def on_exit_drop_def ret_def)
    qed
  next
    case (Err e)
    with run p v show ?thesis by (auto simp: init_def bind_io_def lift_io_def)
  next
    case Panic
    with run p v show ?thesis by (auto simp: init_def bind_io_def lift_io_def)
  qed (use check_privileges_outcome [OF p] in auto)
qed

lemma init_refused:
  assumes run: "init os gs h self (s, w) = (r, s', w')" and "\<not> debug_assertions h"
    and "\<not> unprivileged (credentials_at h (trace w)) (securebits_values h)"
  shows "(\<exists>e. r = Err e) \<and> s' = s \<and> trace w' = trace w"
proof -
  obtain x v where p: "check_privileges False os (credentials_at h (trace w)) (securebits_values h) w = (x, v)"
    by (cases "check_privileges False os (credentials_at h (trace w)) (securebits_values h) w")
  with check_privileges_outcome [OF p] run assms(2,3) show ?thesis
    by (auto simp: init_def bind_io_def lift_io_def)
qed

text \<open>
  C13: a service that cannot start leaves nothing open. If the daemon is brought up, it is
  unprivileged (in a release build) and the descriptors that are open are the welcome socket and
  the two events the signal handlers write to; if it is not, only the events that the handlers
  hold are open. No descriptor is closed twice. A process that is not unprivileged is refused
  before it has made a socket or an event or has installed a handler.
\<close>

theorem init_leaks_nothing:
  assumes run: "init os gs h self (s, w) = (r, s', w')" and os: "fresh_fds os" "nonnegative_fds os"
    and own: "owned (trace w) = event_fds s" "closes_only_owned (trace w)"
  shows "closes_only_owned (trace w') \<and> event_fds s \<subseteq> event_fds s'
    \<and> (case r of
         Ok rt \<Rightarrow> owned (trace w') = {welcome_socket rt} \<union> event_fds s' \<and> welcome_socket rt \<notin> event_fds s'
           \<and> event_fds s' = {shutdown_event rt, reload_event rt} - {- 1}
           \<and> (debug_assertions h \<or> unprivileged (credentials_at h (trace w)) (securebits_values h))
       | _ \<Rightarrow> owned (trace w') = event_fds s')
    \<and> (debug_assertions h \<or> unprivileged (credentials_at h (trace w)) (securebits_values h)
       \<or> (\<exists>e. r = Err e) \<and> s' = s \<and> trace w' = trace w)"
proof -
  from own have "owns (event_fds s) (trace w)" by (simp add: owns_def)
  from init_owns [OF run os this] init_refused [OF run] show ?thesis
    by (auto simp: owns_def) (auto simp: event_fds_def)
qed

lemma calm_os_nonnegative: "nonnegative_fds calm_os"
proof -
  have "0 \<le> sint (of_nat n + 100 :: raw_fd)" if "n \<le> 1000" for n
  proof -
    have "sint (of_nat m :: raw_fd) = int m" if "m < 2 ^ 31" for m
      using that by (simp add: signed_of_nat signed_take_bit_int_eq_self)
    from this [of "n + 100"] that have "0 \<le> sint (of_nat (n + 100) :: raw_fd)" by simp
    then show ?thesis by simp
  qed
  then show ?thesis
    by (auto simp: nonnegative_fds_def calm_os_def next_fd_def Let_def split: if_splits)
qed

theorem handlers_reach_the_thread_witness:
  "\<exists>s w s' w'. setup_events calm_os (statics_init, start_world) = (Ok (100, 101), s, w)
    \<and> setup_events calm_os (s, w) = (Ok (100, 101), s', w') \<and> shutdown_event_for_signal s' = 100"
proof -
  obtain r s w where one: "setup_events calm_os (statics_init, start_world) = (r, s, w)"
    by (cases "setup_events calm_os (statics_init, start_world)")
  obtain r' s' w' where two: "setup_events calm_os (s, w) = (r', s', w')" by (cases "setup_events calm_os (s, w)")
  have "fst (setup_events calm_os (statics_init, start_world)) = Ok (100, 101)" by code_simp
  with one have r: "r = Ok (100, 101)" by simp
  have "fst (setup_events calm_os (snd (setup_events calm_os (statics_init, start_world)))) = Ok (100, 101)" by code_simp
  with one two have r': "r' = Ok (100, 101)" by simp
  from handlers_reach_the_thread [OF two [unfolded r'] calm_os_nonnegative]
  show ?thesis using one two r r' by blast
qed

definition demo_host :: host where
  "demo_host = \<lparr>debug_assertions = False, credentials_at = (\<lambda>_. demo_credentials),
     securebits_values = linux_securebits, env_var = (\<lambda>_. Inl NotPresent), getpid = 42\<rparr>"

theorem init_leaks_nothing_witness:
  "\<exists>rt s w. init calm_os demo_gs demo_host (runtime_new demo_gs None) (statics_init, start_world) = (Ok rt, s, w)
    \<and> owned (trace w) = {welcome_socket rt} \<union> event_fds s"
proof -
  let ?m = "init calm_os demo_gs demo_host (runtime_new demo_gs None) (statics_init, start_world)"
  obtain r s w where run: "?m = (r, s, w)" by (cases ?m)
  have "\<exists>rt. fst ?m = Ok rt"
    by (rule exI [of _ "\<lparr>working_dir_path = ''/'', welcome_socket = 100, shutdown_event = 104, reload_event = 105\<rparr>"]) code_simp
  with run obtain rt where r: "r = Ok rt" by auto
  have "owned (trace start_world) = event_fds statics_init" "closes_only_owned (trace start_world)"
    by (simp_all add: start_world_def owned_def owned_from_def event_fds_def statics_init_def closes_only_owned_def)
  from init_leaks_nothing [OF run calm_os_fresh calm_os_nonnegative this] r run show ?thesis by auto
qed

lemma listen_owns:
  assumes run: "listen_runtime os rt w = (r, w')"
    and own: "owns (insert (welcome_socket rt) S) (trace w)" and "welcome_socket rt \<notin> S"
  shows "owns S (trace w') \<and> ((\<exists>l. r = Ok l
      \<and> trace w' = trace w @ [Spawn (WelcomeThread (welcome_socket rt) (shutdown_event rt) (reload_event rt)) (Inr (welcome_thread l))])
    \<or> (\<exists>e. r = Err e
      \<and> trace w' = trace w @ [Spawn (WelcomeThread (welcome_socket rt) (shutdown_event rt) (reload_event rt)) (Inl e),
          Did (Close (welcome_socket rt))]))"
proof -
  let ?role = "WelcomeThread (welcome_socket rt) (shutdown_event rt) (reload_event rt)"
  define x where "x = ask_spawn os (trace w) ?role"
  have S: "insert (welcome_socket rt) S - {welcome_socket rt} = S" using assms(3) by auto
  show ?thesis
  proof (cases x)
    case (Inl e)
    have "owns (insert (welcome_socket rt) S) (trace w @ [Spawn ?role (Inl e)])"
      by (rule owns_log [OF own]) simp
    from owns_close [OF this, of "welcome_socket rt"] S have "owns S (trace w @ [Spawn ?role (Inl e), Did (Close (welcome_socket rt))])"
      by simp
    moreover have "r = Err e" "trace w' = trace w @ [Spawn ?role (Inl e), Did (Close (welcome_socket rt))]"
      using run Inl by (auto simp: listen_runtime_def exec_defs sys_call_defs x_def [symmetric])
    ultimately show ?thesis by simp
  next
    case (Inr t)
    have "owns S (trace w @ [Spawn ?role (Inr t)])"
      using own S by (simp add: owns_def trace_simps)
    moreover have "r = Ok \<lparr>working_dir_path = working_dir_path rt, welcome_thread = t\<rparr>"
      "trace w' = trace w @ [Spawn ?role (Inr t)]"
      using run Inr by (auto simp: listen_runtime_def exec_defs sys_call_defs x_def [symmetric])
    ultimately show ?thesis by simp
  qed
qed

section \<open>What a signal handler does\<close>

text \<open>
  C15: the signal handlers do one thing. A handler changes no static and leaves \<open>errno\<close> as it was.
  If the events are set up, its only call is one write of 1 to the event that the welcome thread
  polls for this signal, whatever the write answers. If they are not, it only writes a message to
  standard error; then the reload is ignored and the termination ends the process with status 255.
\<close>

theorem signal_handler_effects:
  assumes "termination_or_reload_handler os is_reload (s, w) = (r :: ('e, unit) exec, s', w')"
  shows "s' = s \<and> errno_cell w' = errno_cell w \<and> panicking w' = panicking w
    \<and> (let fd = if is_reload then reload_event_for_signal s else shutdown_event_for_signal s
       in if fd \<noteq> - 1 then r = Ok () \<and> (\<exists>x. trace w' = trace w @ [UnitAns (EventFdWrite fd 1) x])
          else (\<exists>es. trace w' = trace w @ es \<and> list_all is_stderr es)
            \<and> r = (if is_reload then Ok () else Exit (ExitCode 255)))"
proof -
  define fd where "fd = (if is_reload then reload_event_for_signal s else shutdown_event_for_signal s)"
  note def = termination_or_reload_handler_def [of os is_reload "(s, w)", unfolded Let_def fst_conv snd_conv, folded fd_def]
  show ?thesis
    unfolding fd_def [symmetric] Let_def
  proof (cases "fd = - 1")
    case True
    then have "s' = s" "trace w' = trace w @ drop (length (trace w)) (trace w')"
      "list_all is_stderr (drop (length (trace w)) (trace w'))"
      "errno_cell w' = errno_cell w" "panicking w' = panicking w"
      "r = (if is_reload then Ok () else Exit (ExitCode 255))"
      using assms unfolding def by (auto simp: is_stderr_def split: if_splits)
    with True show "s' = s \<and> errno_cell w' = errno_cell w \<and> panicking w' = panicking w
      \<and> (if fd \<noteq> - 1 then r = Ok () \<and> (\<exists>x. trace w' = trace w @ [UnitAns (EventFdWrite fd 1) x])
          else (\<exists>es. trace w' = trace w @ es \<and> list_all is_stderr es)
            \<and> r = (if is_reload then Ok () else Exit (ExitCode 255)))"
      by metis
  next
    case False
    then have "s' = s" "trace w' = trace w @ [UnitAns (EventFdWrite fd 1) (ask_unit os (trace w) (EventFdWrite fd 1))]"
      "errno_cell w' = errno_cell w" "panicking w' = panicking w" "r = Ok ()"
      using assms unfolding def by (auto simp: write_event_def Let_def)
    with False show "s' = s \<and> errno_cell w' = errno_cell w \<and> panicking w' = panicking w
      \<and> (if fd \<noteq> - 1 then r = Ok () \<and> (\<exists>x. trace w' = trace w @ [UnitAns (EventFdWrite fd 1) x])
          else (\<exists>es. trace w' = trace w @ es \<and> list_all is_stderr es)
            \<and> r = (if is_reload then Ok () else Exit (ExitCode 255)))"
      by simp
  qed
qed

theorem signal_handler_effects_witness:
  "\<exists>s w. termination_or_reload_handler calm_os True (statics_init\<lparr>reload_event_for_signal := 7\<rparr>, start_world)
      = (Ok () :: (unit, unit) exec, s, w) \<and> errno_cell w = 0
    \<and> (\<exists>x. trace w = [UnitAns (EventFdWrite 7 1) x])"
proof -
  let ?m = "termination_or_reload_handler calm_os True (statics_init\<lparr>reload_event_for_signal := 7\<rparr>, start_world)
    :: (unit, unit) exec \<times> statics \<times> world"
  obtain r s w where run: "?m = (r, s, w)" by (cases ?m)
  from signal_handler_effects [OF run] have "r = Ok ()" "errno_cell w = 0" "\<exists>x. trace w = [UnitAns (EventFdWrite 7 1) x]"
    by (simp_all add: start_world_def)
  with run show ?thesis by blast
qed

end
