(* ===== verification/Main_Loop.thy ===== *)
theory Main_Loop imports Runtime begin

text \<open>
  \<open>src/main.rs\<close>: start, serve until the welcome thread reports the end, stop, and start again if
  a reload was asked for.
\<close>

section \<open>The loop that receives the errors\<close>

definition log_error :: "detailed_error \<Rightarrow> ('s \<times> world, 'e, unit) io" where
  "log_error e = lift_io (logger_log e)"

definition or_log :: "(detailed_error, unit) routine \<Rightarrow> ('s \<times> world, 'e, unit) io" where
  "or_log m = match_io (lift_io m) log_error ret"

definition consult_circuit_breaker :: "os \<Rightarrow> (statics \<times> world, 'e, unit) io" where
  "consult_circuit_breaker os =
     bind_io get_self (\<lambda>s.
     bind_io (lift_io (circuit_breaker os (circuit s))) (\<lambda>b.
     set_self (\<lambda>s. s\<lparr>circuit := b\<rparr>)))"

text \<open>One turn of \<open>while let Ok(err) = error_rx.recv()\<close>; the result is \<open>reload_requested\<close>.\<close>

definition receive_turn :: "os \<Rightarrow> unit \<Rightarrow> (statics \<times> world, 'e, (unit, bool) turn) io" where
  "receive_turn os _ =
     bind_io (lift_io (sys_report os)) (\<lambda>received.
     case received of
       None \<Rightarrow> ret (Stop False)
     | Some err \<Rightarrow>
         (let shutdown = is_shutdown_signal err;
              reload_requested = \<not> shutdown \<and> is_reload_request err
          in bind_io
               (if shutdown then or_log (notify_system_stopping os)
                else if is_reload_request err
                then bind_io (consult_circuit_breaker os) (\<lambda>_. or_log (notify_system_reloading os))
                else ret ())
               (\<lambda>_.
             bind_io (log_error err) (\<lambda>_.
             if shutdown \<or> reload_requested then ret (Stop reload_requested) else ret (Next ())))))"

text \<open>One turn of \<open>for err in error_rx.try_iter()\<close>.\<close>

definition drain_turn :: "os \<Rightarrow> unit \<Rightarrow> (statics \<times> world, 'e, (unit, unit) turn) io" where
  "drain_turn os _ =
     bind_io (lift_io (sys_try_report os)) (\<lambda>received.
     case received of
       None \<Rightarrow> ret (Stop ())
     | Some err \<Rightarrow> bind_io (log_error err) (\<lambda>_. ret (Next ())))"

section \<open>One life of the daemon\<close>

definition or_exit ::
  "('s \<times> world, detailed_error, 'a) io \<Rightarrow> ('a \<Rightarrow> ('s \<times> world, 'e, (unit, u8) turn) io)
    \<Rightarrow> ('s \<times> world, 'e, (unit, u8) turn) io" where
  "or_exit m = match_io m (\<lambda>e. bind_io (log_error e) (\<lambda>_. ret (Stop EXIT_CODE_FAILURE)))"

definition serve :: "os \<Rightarrow> garnshared \<Rightarrow> nat \<Rightarrow> listening_runtime \<Rightarrow> (statics \<times> world, 'e, (unit, u8) turn) io" where
  "serve os gs fuel rt =
     match_io (lift_io (notify_system_listening os))
       (\<lambda>e. bind_io (log_error e) (\<lambda>_.
            bind_io (lift_io (listening_drop os gs rt)) (\<lambda>_. ret (Stop EXIT_CODE_FAILURE))))
       (\<lambda>_. bind_io (run_loop fuel (receive_turn os) ()) (\<lambda>reload_requested.
            bind_io (lift_io (listening_drop os gs rt)) (\<lambda>_.
            bind_io (run_loop fuel (drain_turn os) ()) (\<lambda>_.
            if reload_requested then ret (Next ()) else ret (Stop EXIT_CODE_SUCCESS)))))"

definition main_turn :: "os \<Rightarrow> garnshared \<Rightarrow> host \<Rightarrow> nat \<Rightarrow> unit \<Rightarrow> (statics \<times> world, 'e, (unit, u8) turn) io" where
  "main_turn os gs h fuel _ =
     bind_io (lift_io (get_optional_env_var (env_var h) WORKING_DIR_ENV_OPTION)) (\<lambda>working_dir.
     or_exit (lift_io (notify_system_starting os h)) (\<lambda>_.
     or_exit (init os gs h (runtime_new gs working_dir)) (\<lambda>ready.
     or_exit (lift_io (listen_runtime os ready)) (serve os gs fuel))))"

definition main :: "os \<Rightarrow> garnshared \<Rightarrow> host \<Rightarrow> nat \<Rightarrow> (statics \<times> world, 'e, u8) io" where
  "main os gs h fuel = run_loop fuel (main_turn os gs h fuel) ()"

section \<open>A run to apply the theorems to\<close>

text \<open>
  A service that is reloaded once and then shut down. Errors arrive in the second life before the
  shutdown signal and after it.
\<close>

fun reports_taken :: "event list \<Rightarrow> nat" where
  "reports_taken [] = 0"
| "reports_taken (RecvReport _ # es) = Suc (reports_taken es)"
| "reports_taken (TryRecvReport _ # es) = Suc (reports_taken es)"
| "reports_taken (_ # es) = reports_taken es"

definition demo_main_os :: os where
  "demo_main_os = calm_os\<lparr>
     ask_report := (\<lambda>tr. Some (if reports_taken tr = 0 then ReloadRequest
        else if reports_taken tr = 2 then IgnoredRootRequestError else ShutdownSignal)),
     ask_try_report := (\<lambda>tr. if reports_taken tr = 4 then Some SendError else None)\<rparr>"

definition demo_main :: "(unit, u8) exec \<times> statics \<times> world" where
  "demo_main = main demo_main_os demo_gs demo_host 5 (statics_init, start_world)"

end
