(* ===== verification/Lifecycle.thy ===== *)
theory Lifecycle imports Main_Loop begin

text \<open>
  The life of the main thread as an automaton over its calls, and the contract \<open>life\<close>: what each
  stage of \<open>main\<close> must keep for a predicate to hold at the end of every run. \<open>Daemon\<close> and
  \<open>Daemon_Descriptors\<close> interpret it for the order of the calls, the log of errors, the circuit
  breaker and the descriptors.
\<close>

section \<open>The life of the daemon as an automaton\<close>

text \<open>
  \<open>Stopped b\<close>: no welcome thread runs, and \<open>b\<close> says whether one may be started. \<open>Serving t\<close>: the
  thread \<open>t\<close> runs. \<open>Reloading t\<close>: it has asked for a reload and the circuit breaker has not been
  asked yet. \<open>Ending t b\<close>: it has said it ends, and \<open>b\<close> says whether the daemon starts again.
  \<open>Failed\<close>: it was joined without having said so.
\<close>

datatype phase = Stopped bool | Serving thread_id | Reloading thread_id | Ending thread_id bool | Failed

fun protocol :: "event \<Rightarrow> phase \<Rightarrow> phase option" where
  "protocol (Spawn (WelcomeThread _ _ _) (Inr t)) p = (if p = Stopped True then Some (Serving t) else None)"
| "protocol (RecvReport r) p =
     (case p of
        Serving t \<Rightarrow> Some (case r of
            None \<Rightarrow> Ending t False
          | Some e \<Rightarrow> if e = ShutdownSignal then Ending t False
                      else if e = ReloadRequest then Reloading t else Serving t)
      | _ \<Rightarrow> None)"
| "protocol (ClockGettime (Inr _)) p = (case p of Reloading t \<Rightarrow> Some (Ending t True) | _ \<Rightarrow> None)"
| "protocol (BoolAns (Join t) _) p =
     (case p of
        Ending t' b \<Rightarrow> if t = t' then Some (Stopped b) else None
      | Serving t' \<Rightarrow> if t = t' then Some Failed else None
      | _ \<Rightarrow> None)"
| "protocol (TryRecvReport _) p = (case p of Stopped _ \<Rightarrow> Some p | _ \<Rightarrow> None)"
| "protocol _ p = Some p"

definition phase_after :: "event list \<Rightarrow> phase option" where
  "phase_after tr = fold (\<lambda>e p. Option.bind p (protocol e)) tr (Some (Stopped True))"

lemma phase_after_snoc: "phase_after (tr @ [e]) = Option.bind (phase_after tr) (protocol e)"
  by (simp add: phase_after_def)

fun moves_phase :: "event \<Rightarrow> bool" where
  "moves_phase (Spawn (WelcomeThread _ _ _) (Inr _)) = True"
| "moves_phase (RecvReport _) = True"
| "moves_phase (ClockGettime (Inr _)) = True"
| "moves_phase (BoolAns (Join _) _) = True"
| "moves_phase (TryRecvReport _) = True"
| "moves_phase _ = False"

lemma protocol_stays: "\<not> moves_phase e \<Longrightarrow> protocol e p = Some p"
  by (cases e rule: moves_phase.cases) auto

interpretation still: trace_invariant "\<lambda>tr. phase_after tr = Some p" "\<lambda>e. \<not> moves_phase e" for p
  by unfold_locales (simp add: phase_after_snoc protocol_stays)

text \<open>The calls that set the daemon up.\<close>

fun setup_call :: "event \<Rightarrow> bool" where
  "setup_call (FdAns SocketNew _) = True"
| "setup_call (FdAns EventFdNew _) = True"
| "setup_call (UnitAns (SetPassCred _) _) = True"
| "setup_call (UnitAns (NewAbstract _) _) = True"
| "setup_call (UnitAns (Bind _ _) _) = True"
| "setup_call (UnitAns (Sigaction _ _ _) _) = True"
| "setup_call (BoolAns (SendToMain _) _) = True"
| "setup_call (Did (Close _)) = True"
| "setup_call _ = False"

context trace_invariant
begin

lemma init_calls:
  assumes q: "\<And>e. setup_call e \<Longrightarrow> q e"
  shows "keeps (\<lambda>sw. I (snd sw)) (init os gs h rt)"
proof -
  have chk: "keeps I (\<lambda>w. check_privileges (debug_assertions h) os (credentials_at h (trace w)) (securebits_values h) w)"
  proof (rule keepsI)
    fix w r w' assume J: "J (trace w)"
      and run: "check_privileges (debug_assertions h) os (credentials_at h (trace w)) (securebits_values h) w = (r, w')"
    from check_privileges_outcome [OF run] J snoc [OF J] q show "J (trace w')"
      by (cases "debug_assertions h") auto
  qed
  have sock: "keeps I (setup_socket os gs)"
    unfolding setup_socket_def Let_def
    by (intro keeps_bind keeps_on_exit keeps_match keeps_if keeps_pure answers q) (simp_all add: snoc q)
  have ev: "keeps I (sys_fd os EventFdNew)"
    by (rule answers) (simp add: q)
  have inst: "keeps I (install_handlers os)"
    unfolding install_handlers_def by (intro keeps_bind answers q) simp_all
  have rec: "keeps (\<lambda>sw. I (snd sw)) (recycle shutdown_event_for_signal shutdown_event_for_signal_update ev :: (statics \<times> world, detailed_error, raw_fd) io)"
    "keeps (\<lambda>sw. I (snd sw)) (recycle reload_event_for_signal reload_event_for_signal_update ev :: (statics \<times> world, detailed_error, raw_fd) io)" for ev
    by (auto simp: keeps_def snoc q)
  have events: "keeps (\<lambda>sw. I (snd sw)) (setup_events os)"
    unfolding setup_events_def
    by (intro keeps_bind keeps_on_exit keeps_lift keeps_pure rec) (simp_all add: ev inst snoc q)
  show ?thesis
    unfolding init_def
    by (intro keeps_bind keeps_on_exit keeps_lift keeps_case_prod keeps_pure events)
      (simp_all add: chk sock snoc q)
qed

end

lemma init_phase: "keeps (\<lambda>sw. phase_after (trace (snd sw)) = Some p) (init os gs h rt)"
proof (rule still.init_calls)
  show "\<not> moves_phase e" if "setup_call e" for e
    using that by (cases e rule: setup_call.cases) auto
qed

section \<open>The calls of one turn\<close>

definition if_failed :: "detailed_error + unit \<Rightarrow> event list" where
  "if_failed x = (case x of Inl e \<Rightarrow> [Did (LogError e)] | Inr _ \<Rightarrow> [])"

lemma or_log_notify:
  "or_log (sys_unit os c) (s, w) = (Ok (), s, w\<lparr>trace := trace w @ UnitAns c (ask_unit os (trace w) c)
     # if_failed (ask_unit os (trace w) c)\<rparr>)"
  by (cases "ask_unit os (trace w) c")
    (simp_all add: or_log_def log_error_def logger_log_def exec_defs sys_call_defs if_failed_def log_event_def)

lemma log_error_result: "log_error e (s, w) = (Ok (), s, log_event (Did (LogError e)) w)"
  by (simp add: log_error_def logger_log_def lift_io_def sys_do_def)

lemma instant_exit_result:
  "\<exists>r x. instant_exit os w = (r, log_event (UnitAns KillSelf x) w) \<and> (r = Exit Killed \<or> r = NoReturn)"
  by (cases "ask_unit os (trace w) KillSelf") (auto simp: instant_exit_def sys_unit_def Let_def)

lemma consult_cases:
  assumes run: "consult_circuit_breaker os (s, w) = (r :: ('e, unit) exec, s', w')"
  obtains
    (passed) t b where "breaker_step t (circuit s) = Some b" "r = Ok ()" "s' = s\<lparr>circuit := b\<rparr>"
      "w' = log_event (ClockGettime (Inr t)) w"
  | (killed) y x where "r = Exit Killed \<or> r = NoReturn" "s' = s"
      "trace w' = trace w @ [ClockGettime y, UnitAns KillSelf x]"
proof -
  define y where "y = ask_time os (trace w)"
  let ?w1 = "log_event (ClockGettime y) w"
  obtain q x where ex: "instant_exit os ?w1 = (q :: ('e, breaker) exec, log_event (UnitAns KillSelf x) ?w1)"
      "q = Exit Killed \<or> q = NoReturn"
    using instant_exit_result [of os ?w1] by blast
  have call: "(circuit_breaker os (circuit s) :: ('e, breaker) routine) w = (case y of Inl _ \<Rightarrow> instant_exit os ?w1
      | Inr t \<Rightarrow> (case breaker_step t (circuit s) of None \<Rightarrow> instant_exit os ?w1 | Some b \<Rightarrow> (Ok b, ?w1)))"
    by (cases y) (auto simp: circuit_breaker_def match_io_def sys_time_def Let_def y_def [symmetric] ret_def split: option.splits)
  show thesis
  proof (cases "\<exists>t b. y = Inr t \<and> breaker_step t (circuit s) = Some b")
    case True
    then obtain t b where t: "y = Inr t" "breaker_step t (circuit s) = Some b" by blast
    from run call t show thesis
      by (intro passed [of t b]) (auto simp: consult_circuit_breaker_def bind_io_def get_self_def set_self_def lift_io_def)
  next
    case False
    then have "(circuit_breaker os (circuit s) :: ('e, breaker) routine) w = (q, log_event (UnitAns KillSelf x) ?w1)"
      using call ex(1) by (auto split: sum.splits option.splits)
    with run ex(2) show thesis
      by (intro killed [of y x]) (auto simp: consult_circuit_breaker_def bind_io_def get_self_def lift_io_def)
  qed
qed

lemma receive_turn_cases:
  assumes run: "receive_turn os u (s, w) = (r :: ('e, (unit, bool) turn) exec, s', w')"
  obtains
    (closed) "r = Ok (Stop False)" "s' = s" "trace w' = trace w @ [RecvReport None]"
  | (shutdown) c x where "r = Ok (Stop False)" "s' = s"
      "trace w' = trace w @ RecvReport (Some ShutdownSignal) # UnitAns (Notify c) x # if_failed x @ [Did (LogError ShutdownSignal)]"
  | (reload) t b c x where "r = Ok (Stop True)" "s' = s\<lparr>circuit := b\<rparr>" "breaker_step t (circuit s) = Some b"
      "trace w' = trace w @ RecvReport (Some ReloadRequest) # ClockGettime (Inr t)
         # UnitAns (Notify c) x # if_failed x @ [Did (LogError ReloadRequest)]"
  | (killed) y x where "r = Exit Killed \<or> r = NoReturn" "s' = s"
      "trace w' = trace w @ [RecvReport (Some ReloadRequest), ClockGettime y, UnitAns KillSelf x]"
  | (other) e where "e \<notin> {ShutdownSignal, ReloadRequest}" "r = Ok (Next ())" "s' = s"
      "trace w' = trace w @ [RecvReport (Some e), Did (LogError e)]"
proof -
  define y where "y = ask_report os (trace w)"
  let ?w1 = "log_event (RecvReport y) w"
  have recv: "(lift_io (sys_report os) :: (statics \<times> world, 'e, detailed_error option) io) (s, w) = (Ok y, s, ?w1)"
    by (simp add: lift_io_def sys_report_def y_def Let_def)
  note turn = run [unfolded receive_turn_def bind_io_def [of "lift_io (sys_report os)"] recv]
  show thesis
  proof (cases y)
    case None
    with turn show thesis by (intro closed) (auto simp: ret_def)
  next
    case (Some e)
    show thesis
    proof (cases "e \<in> {ShutdownSignal, ReloadRequest}")
      case False
      with turn Some show thesis
        by (intro other [of e])
          (auto simp: bind_io_def log_error_result ret_def is_shutdown_signal_def is_reload_request_def)
    next
      case True
      show thesis
      proof (cases "e = ShutdownSignal")
        case True
        with turn Some show thesis
          by (intro shutdown [of "[(''STOPPING'', ''1''), (''STATUS'', ''Stopping service...'')]"
                "ask_unit os (trace ?w1) (Notify [(''STOPPING'', ''1''), (''STATUS'', ''Stopping service...'')])"])
            (auto simp: bind_io_def log_error_result ret_def is_shutdown_signal_def notify_system_stopping_def or_log_notify)
      next
        case False
        with True have e: "e = ReloadRequest" by simp
        obtain z s1 v where c: "consult_circuit_breaker os (s, ?w1) = (z :: ('e, unit) exec, s1, v)"
          by (cases "consult_circuit_breaker os (s, ?w1) :: ('e, unit) exec \<times> statics \<times> world")
        from c show thesis
        proof (cases rule: consult_cases)
          case (passed t b)
          let ?c = "[(''RELOADING'', ''1''), (''STATUS'', ''Reloading service...'')]"
          from passed turn Some e c show thesis
            by (intro reload [of b t ?c "ask_unit os (trace v) (Notify ?c)"])
              (auto simp: bind_io_def log_error_result ret_def is_shutdown_signal_def is_reload_request_def
                notify_system_reloading_def or_log_notify)
        next
          case (killed y x)
          with turn Some e c show thesis
            by (intro that(4) [of y x]) (auto simp: bind_io_def is_shutdown_signal_def is_reload_request_def)
        qed
      qed
    qed
  qed
qed

lemma drain_turn_cases:
  assumes run: "drain_turn os u (s, w) = (r :: ('e, (unit, unit) turn) exec, s', w')"
  obtains
    (empty) "r = Ok (Stop ())" "s' = s" "trace w' = trace w @ [TryRecvReport None]"
  | (more) e where "r = Ok (Next ())" "s' = s" "trace w' = trace w @ [TryRecvReport (Some e), Did (LogError e)]"
proof (cases "ask_try_report os (trace w)")
  case None
  with run show thesis
    by (intro empty) (auto simp: drain_turn_def bind_io_def lift_io_def sys_try_report_def Let_def ret_def)
next
  case (Some e)
  with run show thesis
    by (intro more [of e])
      (auto simp: drain_turn_def bind_io_def lift_io_def sys_try_report_def Let_def ret_def log_error_def
        logger_log_def sys_do_def)
qed

lemma listening_drop_result:
  assumes "listening_drop os gs rt w = (r :: ('e, unit) exec, w')"
  shows "\<exists>b ns. trace w' = trace w @ BoolAns (Join (welcome_thread rt)) b # ns \<and> list_all is_stderr ns
    \<and> (r = Ok () \<or> r = Panic)"
proof -
  define b where "b = ask_bool os (trace w) (Join (welcome_thread rt))"
  show ?thesis
    by (rule exI [of _ b])
      (use assms in \<open>auto simp: listening_drop_def join_guard_drop_def exec_defs sys_call_defs is_stderr_def
         b_def [symmetric] split: if_splits\<close>)
qed

section \<open>The contract between the life and its parts\<close>

text \<open>
  What holds between two lives (\<open>idle\<close>), when the daemon is set up (\<open>ready\<close>), while the welcome
  thread runs (\<open>up\<close>), when systemd could not be told so (\<open>failing\<close>), when the thread has said it
  ends (\<open>ended\<close>) and when it has been joined (\<open>joined\<close>). If every part leads from one to the next,
  \<open>exits\<close> holds of the exit code and \<open>anytime\<close> of every other way the process ends or goes on.
\<close>

locale life =
  fixes os :: os and gs :: garnshared and h :: host
    and idle :: "statics \<Rightarrow> world \<Rightarrow> bool"
    and ready :: "ready_runtime \<Rightarrow> statics \<Rightarrow> world \<Rightarrow> bool"
    and up failing :: "listening_runtime \<Rightarrow> statics \<Rightarrow> world \<Rightarrow> bool"
    and ended :: "bool \<Rightarrow> listening_runtime \<Rightarrow> statics \<Rightarrow> world \<Rightarrow> bool"
    and joined :: "bool \<Rightarrow> statics \<Rightarrow> world \<Rightarrow> bool"
    and exits :: "u8 \<Rightarrow> statics \<Rightarrow> world \<Rightarrow> bool"
    and anytime :: "statics \<Rightarrow> world \<Rightarrow> bool"
  assumes early: "idle s w \<Longrightarrow> anytime s (log_event (Did (Stderr m)) w)"
    and starting: "idle s w \<Longrightarrow> idle s (log_event (UnitAns (Notify c) (Inr ())) w)"
    and not_starting: "idle s w \<Longrightarrow>
      exits EXIT_CODE_FAILURE s (log_event (Did (LogError e)) (log_event (UnitAns (Notify c) (Inl e)) w))"
    and set_up: "idle s w \<Longrightarrow> init os gs h rt (s, w) = (r, s', w') \<Longrightarrow>
      (case r of Ok rdy \<Rightarrow> ready rdy s' w' | Err e \<Rightarrow> exits EXIT_CODE_FAILURE s' (log_event (Did (LogError e)) w')
        | _ \<Rightarrow> anytime s' w')"
    and listening: "ready rdy s w \<Longrightarrow> listen_runtime os rdy w = (x, w') \<Longrightarrow>
      (case x of Ok l \<Rightarrow> up l s w' | Err e \<Rightarrow> exits EXIT_CODE_FAILURE s (log_event (Did (LogError e)) w')
        | _ \<Rightarrow> anytime s w')"
    and told: "up l s w \<Longrightarrow> up l s (log_event (UnitAns (Notify c) (Inr ())) w)"
    and not_told: "up l s w \<Longrightarrow> failing l s (log_event (Did (LogError e)) (log_event (UnitAns (Notify c) (Inl e)) w))"
    and give_up: "failing l s w \<Longrightarrow> listening_drop os gs l w = (q :: (unit, unit) exec, w') \<Longrightarrow>
      (case q of Ok _ \<Rightarrow> exits EXIT_CODE_FAILURE s w' | _ \<Rightarrow> anytime s w')"
    and receiving: "up l s w \<Longrightarrow> receive_turn os () (s, w) = (y :: (unit, (unit, bool) turn) exec, s', w') \<Longrightarrow>
      (case y of Ok (Next _) \<Rightarrow> up l s' w' | Ok (Stop b) \<Rightarrow> ended b l s' w' | _ \<Rightarrow> anytime s' w')"
    and joining: "ended b l s w \<Longrightarrow> listening_drop os gs l w = (q :: (unit, unit) exec, w') \<Longrightarrow>
      (case q of Ok _ \<Rightarrow> joined b s w' | _ \<Rightarrow> anytime s w')"
    and draining: "joined b s w \<Longrightarrow> drain_turn os () (s, w) = (p :: (unit, (unit, unit) turn) exec, s', w') \<Longrightarrow>
      joined b s' w'"
    and again: "joined True s w \<Longrightarrow> idle s w"
    and done_with: "joined False s w \<Longrightarrow> exits EXIT_CODE_SUCCESS s w"
    and meanwhile: "idle s w \<Longrightarrow> anytime s w" "up l s w \<Longrightarrow> anytime s w" "joined b s w \<Longrightarrow> anytime s w"
begin

definition outcome :: "(unit, u8) exec \<Rightarrow> statics \<times> world \<Rightarrow> bool" where
  "outcome r sw \<longleftrightarrow> (case r of Ok c \<Rightarrow> exits c (fst sw) (snd sw) | _ \<Rightarrow> anytime (fst sw) (snd sw))"

definition turned :: "(unit, (unit, u8) turn) exec \<Rightarrow> statics \<times> world \<Rightarrow> bool" where
  "turned r sw \<longleftrightarrow> (case r of Ok (Next _) \<Rightarrow> idle (fst sw) (snd sw) | Ok (Stop c) \<Rightarrow> exits c (fst sw) (snd sw)
     | _ \<Rightarrow> anytime (fst sw) (snd sw))"

lemma receives:
  assumes run: "run_loop n (receive_turn os) () (s, w) = (r :: (unit, bool) exec, s', w')" and "up l s w"
  shows "case r of Ok b \<Rightarrow> ended b l s' w' | _ \<Rightarrow> anytime s' w'"
proof -
  have "(\<lambda>r sw. case r of Ok b \<Rightarrow> ended b l (fst sw) (snd sw) | _ \<Rightarrow> anytime (fst sw) (snd sw)) r (s', w')"
    using run
  proof (rule run_loop_reaches [where J = "\<lambda>_ sw. up l (fst sw) (snd sw)"])
    show "up l (fst (s, w)) (snd (s, w))" using assms(2) by simp
  next
    fix u :: unit and sw x v
    assume sw: "up l (fst sw) (snd sw)" and run: "receive_turn os u sw = (x :: (unit, (unit, bool) turn) exec, v)"
    obtain s w where w: "sw = (s, w)" by (cases sw)
    obtain s' w' where v: "v = (s', w')" by (cases v)
    from receiving [of l s w x s' w'] sw run
    show "case x of Ok (Next s') \<Rightarrow> up l (fst v) (snd v)
        | Ok (Stop a) \<Rightarrow> (case Ok a of Ok b \<Rightarrow> ended b l (fst v) (snd v) | _ \<Rightarrow> anytime (fst v) (snd v))
        | Err e \<Rightarrow> (case Err e of Ok b \<Rightarrow> ended b l (fst v) (snd v) | _ \<Rightarrow> anytime (fst v) (snd v))
        | Panic \<Rightarrow> (case Panic of Ok b \<Rightarrow> ended b l (fst v) (snd v) | _ \<Rightarrow> anytime (fst v) (snd v))
        | Exit c \<Rightarrow> (case Exit c of Ok b \<Rightarrow> ended b l (fst v) (snd v) | _ \<Rightarrow> anytime (fst v) (snd v))
        | NoReturn \<Rightarrow> (case NoReturn of Ok b \<Rightarrow> ended b l (fst v) (snd v) | _ \<Rightarrow> anytime (fst v) (snd v))"
      by (auto simp: w v split: exec.splits turn.splits)
  qed (simp add: meanwhile)
  then show ?thesis unfolding fst_conv snd_conv .
qed

lemma drains:
  assumes run: "run_loop n (drain_turn os) () (s, w) = (r :: (unit, unit) exec, s', w')" and "joined b s w"
  shows "joined b s' w'"
proof -
  have "(\<lambda>_ sw. joined b (fst sw) (snd sw)) r (s', w')"
    using run
  proof (rule run_loop_reaches [where J = "\<lambda>_ sw. joined b (fst sw) (snd sw)"])
    fix u :: unit and sw x v
    assume sw: "joined b (fst sw) (snd sw)" and run: "drain_turn os u sw = (x :: (unit, (unit, unit) turn) exec, v)"
    have "joined b (fst v) (snd v)"
      by (rule draining [of b "fst sw" "snd sw" x]) (use sw run in simp_all)
    then show "case x of Ok (Next s') \<Rightarrow> joined b (fst v) (snd v) | Ok (Stop a) \<Rightarrow> joined b (fst v) (snd v)
        | Err e \<Rightarrow> joined b (fst v) (snd v) | Panic \<Rightarrow> joined b (fst v) (snd v)
        | Exit c \<Rightarrow> joined b (fst v) (snd v) | NoReturn \<Rightarrow> joined b (fst v) (snd v)"
      by (auto split: exec.splits turn.splits)
  qed (use assms(2) in simp_all)
  then show ?thesis by simp
qed

lemma serves:
  assumes run: "serve os gs fuel l (s, w) = (r, sw')" and up: "up l s w"
  shows "turned r sw'"
proof -
  let ?c = "Notify [(''READY'', ''1''), (''STATUS'', ''Listening...'')]"
  define x where "x = ask_unit os (trace w) ?c"
  let ?w1 = "log_event (UnitAns ?c x) w"
  have call: "(lift_io (notify_system_listening os)) (s, w) = (answer x, s, ?w1)"
    by (simp add: lift_io_def notify_system_listening_def sys_unit_def x_def Let_def)
  note body = run [unfolded serve_def match_io_def call]
  show ?thesis
  proof (cases x)
    case (Inl e)
    let ?w2 = "log_event (Did (LogError e)) ?w1"
    obtain q v where d: "listening_drop os gs l ?w2 = (q :: (unit, unit) exec, v)"
      by (cases "listening_drop os gs l ?w2 :: (unit, unit) exec \<times> world")
    have "answer x = Err e" using Inl by simp
    with body d have "(r, sw') = (case q of Ok _ \<Rightarrow> (Ok (Stop EXIT_CODE_FAILURE), s, v) | Err e \<Rightarrow> (Err e, s, v)
        | Panic \<Rightarrow> (Panic, s, v) | Exit c \<Rightarrow> (Exit c, s, v) | NoReturn \<Rightarrow> (NoReturn, s, v))"
      by (cases q) (auto simp: bind_io_def lift_io_def log_error_result ret_def)
    moreover have "failing l s ?w2" using not_told [OF up] Inl by simp
    ultimately show ?thesis using give_up [OF _ d] by (cases q) (auto simp: turned_def)
  next
    case (Inr u)
    obtain y s1 w1 where rl: "run_loop fuel (receive_turn os) () (s, ?w1) = (y :: (unit, bool) exec, s1, w1)"
      by (cases "run_loop fuel (receive_turn os) () (s, ?w1) :: (unit, bool) exec \<times> statics \<times> world")
    have "up l s ?w1" using told [OF up] Inr by simp
    note got = receives [OF rl this]
    have ok: "answer x = Ok u" using Inr by simp
    show ?thesis
    proof (cases y)
      case (Ok b)
      obtain q v where d: "listening_drop os gs l w1 = (q :: (unit, unit) exec, v)"
        by (cases "listening_drop os gs l w1 :: (unit, unit) exec \<times> world")
      have e: "ended b l s1 w1" using got Ok by simp
      show ?thesis
      proof (cases q)
        case q: (Ok a)
        obtain z s2 w2 where dr: "run_loop fuel (drain_turn os) () (s1, v) = (z :: (unit, unit) exec, s2, w2)"
          by (cases "run_loop fuel (drain_turn os) () (s1, v) :: (unit, unit) exec \<times> statics \<times> world")
        have "joined b s1 v" using joining [OF e d] q by simp
        from drains [OF dr this] have j: "joined b s2 w2" .
        have "(r, sw') = (case z of Ok _ \<Rightarrow> (Ok (if b then Next () else Stop EXIT_CODE_SUCCESS), s2, w2) | Err e \<Rightarrow> (Err e, s2, w2)
            | Panic \<Rightarrow> (Panic, s2, w2) | Exit c \<Rightarrow> (Exit c, s2, w2) | NoReturn \<Rightarrow> (NoReturn, s2, w2))"
          using body ok rl Ok d q dr by (cases z; cases b) (simp_all add: bind_io_def lift_io_def ret_def)
        with j again done_with meanwhile(3) [OF j] show ?thesis by (cases z; cases b) (auto simp: turned_def)
      qed (use body ok rl Ok d joining [OF e d] in \<open>auto simp: bind_io_def lift_io_def turned_def\<close>)
    qed (use body ok rl got in \<open>auto simp: bind_io_def turned_def\<close>)
  qed
qed

lemma lives:
  assumes run: "main_turn os gs h fuel u (s, w) = (r, sw')" and idle: "idle s w"
  shows "turned r sw'"
proof -
  obtain x v where env: "get_optional_env_var (env_var h) WORKING_DIR_ENV_OPTION w = (x :: (unit, string option) exec, v)"
    by (cases "get_optional_env_var (env_var h) WORKING_DIR_ENV_OPTION w :: (unit, string option) exec \<times> world")
  have cases_env: "(\<exists>d. x = Ok d) \<and> v = w \<or> (\<exists>c m. x = Exit c \<and> v = log_event (Did (Stderr m)) w)"
    using env by (auto simp: get_optional_env_var_def early_failure_def ret_def split: sum.splits var_error.splits)
  note turn = run [unfolded main_turn_def]
  show ?thesis
  proof (cases x)
    case (Ok d)
    let ?c = "Notify [(''STATUS'', ''Starting service...''), (''MAINPID'', show_nat (getpid h))]"
    define y where "y = ask_unit os (trace w) ?c"
    let ?w1 = "log_event (UnitAns ?c y) w"
    have v: "v = w" using cases_env Ok by auto
    have call: "lift_io (notify_system_starting os h) (s, w) = (answer y, s, ?w1)"
      by (simp add: lift_io_def notify_system_starting_def sys_unit_def y_def Let_def)
    show ?thesis
    proof (cases y)
      case (Inl e)
      have "answer y = Err e" using Inl by simp
      then have "(r, sw') = (Ok (Stop EXIT_CODE_FAILURE), s, log_event (Did (LogError e)) ?w1)"
        using turn env Ok v call by (simp add: bind_io_def lift_io_def [of "get_optional_env_var (env_var h) WORKING_DIR_ENV_OPTION"] or_exit_def match_io_def log_error_result ret_def)
      with not_starting [OF idle] Inl show ?thesis by (simp add: turned_def)
    next
      case (Inr u)
      have ok: "answer y = Ok u" using Inr by simp
      have w1: "idle s ?w1" using starting [OF idle] Inr by simp
      obtain z s2 w2 where ini: "init os gs h (runtime_new gs d) (s, ?w1) = (z, s2, w2)"
        by (cases "init os gs h (runtime_new gs d) (s, ?w1)")
      note up = set_up [OF w1 ini]
      have turn': "or_exit (init os gs h (runtime_new gs d))
          (\<lambda>rdy. or_exit (lift_io (listen_runtime os rdy)) (serve os gs fuel)) (s, ?w1) = (r, sw')"
        using turn env Ok v call ok
        by (simp add: bind_io_def lift_io_def [of "get_optional_env_var (env_var h) WORKING_DIR_ENV_OPTION"]
            or_exit_def [of "lift_io (notify_system_starting os h)"] match_io_def)
      show ?thesis
      proof (cases z)
        case rdy: (Ok rdy)
        then have rd: "ready rdy s2 w2" using up by simp
        obtain q w3 where l: "listen_runtime os rdy w2 = (q, w3)" by (cases "listen_runtime os rdy w2")
        note lis = listening [OF rd l]
        have turn'': "or_exit (lift_io (listen_runtime os rdy)) (serve os gs fuel) (s2, w2) = (r, sw')"
          using turn' ini rdy by (simp add: or_exit_def match_io_def)
        show ?thesis
        proof (cases q)
          case (Ok rt)
          then have "serve os gs fuel rt (s2, w3) = (r, sw')"
            using turn'' l by (simp add: or_exit_def match_io_def lift_io_def)
          from serves [OF this] lis Ok show ?thesis by simp
        qed (use turn'' l lis in \<open>auto simp: or_exit_def match_io_def lift_io_def bind_io_def log_error_result ret_def turned_def\<close>)
      qed (use turn' ini up in \<open>auto simp: or_exit_def match_io_def bind_io_def log_error_result ret_def turned_def\<close>)
    qed
  next
    case (Exit c)
    with cases_env obtain m where "v = log_event (Did (Stderr m)) w" by auto
    with turn env Exit early [OF idle] show ?thesis by (auto simp: bind_io_def lift_io_def turned_def)
  qed (use cases_env in auto)
qed

lemma whole_life:
  assumes run: "main os gs h fuel (s, w) = (r :: (unit, u8) exec, s', w')" and idle: "idle s w"
  shows "case r of Ok c \<Rightarrow> exits c s' w' | _ \<Rightarrow> anytime s' w'"
proof -
  have "outcome r (s', w')"
    using run unfolding main_def
  proof (rule run_loop_reaches [where J = "\<lambda>_ sw. idle (fst sw) (snd sw)" and post = outcome])
    fix u :: unit and sw x v
    assume sw: "idle (fst sw) (snd sw)" and run: "main_turn os gs h fuel u sw = (x :: (unit, (unit, u8) turn) exec, v)"
    have "turned x v"
      by (rule lives [of _ u "fst sw" "snd sw"]) (use run sw in simp_all)
    then show "case x of Ok (Next s') \<Rightarrow> idle (fst v) (snd v) | Ok (Stop a) \<Rightarrow> outcome (Ok a) v
        | Err e \<Rightarrow> outcome (Err e) v | Panic \<Rightarrow> outcome Panic v
        | Exit c \<Rightarrow> outcome (Exit c) v | NoReturn \<Rightarrow> outcome NoReturn v"
      by (auto simp: turned_def outcome_def split: exec.splits turn.splits)
  qed (simp_all add: idle outcome_def meanwhile)
  then show ?thesis unfolding outcome_def fst_conv snd_conv .
qed

end

end
