(* ===== verification/Daemon.thy ===== *)
theory Daemon imports Lifecycle "HOL-Library.Sublist" begin

text \<open>
  The properties of the main thread, each an interpretation of the contract \<open>life\<close>: the order of
  its calls, the errors it logs, the circuit breaker and the descriptors.
\<close>

section \<open>The order of the calls\<close>

lemma quiet_phase: "phase_after tr = Some p \<Longrightarrow> list_all (\<lambda>e. \<not> moves_phase e) es \<Longrightarrow> phase_after (tr @ es) = Some p"
  by (rule still.extends_keeps [of tr]) (auto simp: extends_def)

lemma stderr_still: "list_all is_stderr es \<Longrightarrow> list_all (\<lambda>e. \<not> moves_phase e) es"
  by (induction es) (auto simp: is_stderr_def)

lemma if_failed_still: "list_all (\<lambda>e. \<not> moves_phase e) (if_failed x)"
  by (cases x) (simp_all add: if_failed_def)

lemma joined_phase:
  assumes drop: "listening_drop os gs l w = (q :: (unit, unit) exec, w')" and p: "phase_after (trace w) = Some p"
    and p': "\<And>b. protocol (BoolAns (Join (welcome_thread l)) b) p = Some p'"
  shows "phase_after (trace w') = Some p'"
proof -
  from listening_drop_result [OF drop] obtain b' ns where
    tr: "trace w' = (trace w @ [BoolAns (Join (welcome_thread l)) b']) @ ns" "list_all is_stderr ns" by auto
  have "phase_after (trace w @ [BoolAns (Join (welcome_thread l)) b']) = Some p'"
    using p p' by (simp add: phase_after_snoc)
  from quiet_phase [OF this stderr_still [OF tr(2)]] show ?thesis by (simp add: tr(1))
qed

lemma receive_turn_phase:
  assumes p: "phase_after (trace w) = Some (Serving t)"
    and run: "receive_turn os u (s, w) = (r :: (unit, (unit, bool) turn) exec, s', w')"
  shows "case r of Ok (Next _) \<Rightarrow> phase_after (trace w') = Some (Serving t)
    | Ok (Stop b) \<Rightarrow> phase_after (trace w') = Some (Ending t b) | _ \<Rightarrow> phase_after (trace w') \<noteq> None"
  using run
proof (cases rule: receive_turn_cases)
  case closed
  with p show ?thesis by (simp add: phase_after_snoc)
next
  case (shutdown c x)
  have "phase_after (trace w @ [RecvReport (Some ShutdownSignal)]) = Some (Ending t False)"
    using p by (simp add: phase_after_snoc)
  from quiet_phase [OF this, of "UnitAns (Notify c) x # if_failed x @ [Did (LogError ShutdownSignal)]"]
  show ?thesis using shutdown if_failed_still by simp
next
  case (reload ts b c x)
  have "phase_after (trace w @ [RecvReport (Some ReloadRequest), ClockGettime (Inr ts)]) = Some (Ending t True)"
    using p phase_after_snoc [of "trace w @ [RecvReport (Some ReloadRequest)]" "ClockGettime (Inr ts)"]
    by (simp add: phase_after_snoc)
  from quiet_phase [OF this, of "UnitAns (Notify c) x # if_failed x @ [Did (LogError ReloadRequest)]"]
  show ?thesis using reload if_failed_still by simp
next
  case (killed y x)
  let ?tr = "trace w @ [RecvReport (Some ReloadRequest)]"
  have "phase_after (?tr @ [ClockGettime y]) \<noteq> None"
    using p by (cases y) (simp_all add: phase_after_snoc del: append_assoc)
  then have "phase_after ((?tr @ [ClockGettime y]) @ [UnitAns KillSelf x]) \<noteq> None"
    by (subst phase_after_snoc) auto
  with killed show ?thesis by auto
next
  case (other e)
  let ?tr = "trace w @ [RecvReport (Some e)]"
  have "phase_after ?tr = Some (Serving t)" using p other by (simp add: phase_after_snoc)
  from quiet_phase [OF this, of "[Did (LogError e)]"] show ?thesis using other by simp
qed

interpretation phases: life os gs h
  "\<lambda>s w. phase_after (trace w) = Some (Stopped True)" "\<lambda>rdy s w. phase_after (trace w) = Some (Stopped True)"
  "\<lambda>l s w. phase_after (trace w) = Some (Serving (welcome_thread l))"
  "\<lambda>l s w. phase_after (trace w) = Some (Serving (welcome_thread l))"
  "\<lambda>b l s w. phase_after (trace w) = Some (Ending (welcome_thread l) b)"
  "\<lambda>b s w. phase_after (trace w) = Some (Stopped b)"
  "\<lambda>c s w. c = EXIT_CODE_SUCCESS \<and> phase_after (trace w) = Some (Stopped False)
     \<or> c = EXIT_CODE_FAILURE \<and> (phase_after (trace w) = Some (Stopped True) \<or> phase_after (trace w) = Some Failed)"
  "\<lambda>s w. phase_after (trace w) \<noteq> None"
  for os gs h
proof (unfold_locales, goal_cases)
  case (4 s w rt r s' w')
  have w': "phase_after (trace w') = Some (Stopped True)"
    using keepsD [OF init_phase _ 4(2)] 4(1) by simp
  with still.snoc [OF w', of "Did (LogError e)" for e] show ?case by (auto split: exec.splits)
next
  case (5 rdy s w x w')
  then show ?case
    by (auto simp: listen_runtime_def exec_defs sys_call_defs answer_def phase_after_snoc
        split: sum.splits) (simp_all add: phase_after_def)
next
  case (8 l s w q w')
  from joined_phase [OF 8(2,1)] show ?case by (auto split: exec.splits)
next
  case (9 l s w y s' w')
  from receive_turn_phase [OF this] show ?case .
next
  case (10 b l s w q w')
  from joined_phase [OF 10(2,1)] show ?case by (auto split: exec.splits)
next
  case (11 b s w p s' w')
  from 11(2) show ?case
  proof (cases rule: drain_turn_cases)
    case empty
    with 11(1) show ?thesis by (simp add: phase_after_snoc)
  next
    case (more e)
    let ?tr = "trace w @ [TryRecvReport (Some e)]"
    have "phase_after ?tr = Some (Stopped b)" using 11(1) by (simp add: phase_after_snoc)
    from quiet_phase [OF this, of "[Did (LogError e)]"] show ?thesis using more by simp
  qed
qed (simp_all add: phase_after_snoc, (simp add: phase_after_def)+)

lemma demo_run: "main demo_main_os demo_gs demo_host 5 (statics_init, start_world) = (fst demo_main, fst (snd demo_main), snd (snd demo_main))"
  by (simp add: demo_main_def)

lemma demo_returns: "fst demo_main = Ok 0"
  by code_simp

lemma demo_start: "trace start_world = []"
  by (simp add: start_world_def)

text \<open>
  C8: the main thread follows its protocol, however long it runs and whatever fails. It starts a
  welcome thread only when none runs; it receives reports only while one does; it starts another
  only after a reload request was received, the circuit breaker's clock was read and the thread was
  joined; it drains the channel only after the join. It returns success exactly after the thread
  ended by a shutdown (or the channel was closed), and failure only if no thread was left to be
  started or the thread was joined unasked.
\<close>

theorem main_follows_protocol:
  assumes run: "main os gs h fuel (s, w) = (r :: (unit, u8) exec, s', w')"
    and start: "phase_after (trace w) = Some (Stopped True)"
  shows "phase_after (trace w') \<noteq> None
    \<and> (\<forall>c. r = Ok c \<longrightarrow> c = EXIT_CODE_SUCCESS \<and> phase_after (trace w') = Some (Stopped False)
         \<or> c = EXIT_CODE_FAILURE \<and> phase_after (trace w') \<in> {Some (Stopped True), Some Failed})"
  using phases.whole_life [OF run start] by (auto split: exec.splits)

theorem main_follows_protocol_witness:
  "phase_after (trace (snd (snd demo_main))) = Some (Stopped False)"
proof -
  have "phase_after (trace start_world) = Some (Stopped True)" by (simp add: demo_start phase_after_def)
  from main_follows_protocol [OF demo_run this] demo_returns show ?thesis
    by (simp add: EXIT_CODE_SUCCESS_def EXIT_CODE_FAILURE_def)
qed

section \<open>No error is lost\<close>

fun reports_received :: "event list \<Rightarrow> detailed_error list" where
  "reports_received [] = []"
| "reports_received (RecvReport (Some e) # es) = e # reports_received es"
| "reports_received (TryRecvReport (Some e) # es) = e # reports_received es"
| "reports_received (_ # es) = reports_received es"

fun errors_logged :: "event list \<Rightarrow> detailed_error list" where
  "errors_logged [] = []"
| "errors_logged (Did (LogError e) # es) = e # errors_logged es"
| "errors_logged (_ # es) = errors_logged es"

lemma reports_received_append [simp]: "reports_received (xs @ ys) = reports_received xs @ reports_received ys"
  by (induction xs rule: reports_received.induct) auto

lemma errors_logged_append [simp]: "errors_logged (xs @ ys) = errors_logged xs @ errors_logged ys"
  by (induction xs rule: errors_logged.induct) auto

fun is_received :: "event \<Rightarrow> bool" where
  "is_received (RecvReport (Some e)) = True"
| "is_received (TryRecvReport (Some e)) = True"
| "is_received _ = False"

lemma not_received: "\<not> is_received e \<Longrightarrow> reports_received [e] = []"
  by (cases e rule: is_received.cases) auto

text \<open>Every error received so far has been logged, in the order they came.\<close>

definition all_logged :: "event list \<Rightarrow> bool" where
  "all_logged tr \<longleftrightarrow> subseq (reports_received tr) (errors_logged tr)"

interpretation logged: trace_invariant all_logged "\<lambda>e. \<not> is_received e"
proof unfold_locales
  fix tr e assume "all_logged tr" "\<not> is_received e"
  then show "all_logged (tr @ [e])"
    using list_emb_append_mono [of "(=)" "reports_received tr" "errors_logged tr" "[]" "errors_logged [e]"]
    by (simp add: all_logged_def not_received)
qed

lemma all_logged_append: "all_logged tr \<Longrightarrow> all_logged es \<Longrightarrow> all_logged (tr @ es)"
  by (simp add: all_logged_def list_emb_append_mono)

lemma stderr_logged: "list_all is_stderr es \<Longrightarrow> all_logged es"
proof (induction es)
  case (Cons e es)
  then show ?case using all_logged_append [of "[e]" es] by (auto simp: is_stderr_def all_logged_def)
qed (simp add: all_logged_def)

lemma logged_if_failed: "reports_received (if_failed x) = []"
  by (cases x) (simp_all add: if_failed_def)

lemma all_logged_ends: "reports_received es = [e] \<Longrightarrow> errors_logged es = xs @ [e] \<Longrightarrow> all_logged es"
  by (simp add: all_logged_def subseq_singleton_left)

lemma receive_turn_logged:
  assumes l: "all_logged (trace w)"
    and run: "receive_turn os u (s, w) = (r :: (unit, (unit, bool) turn) exec, s', w')"
  shows "(\<exists>x. r = Ok x) \<and> all_logged (trace w')
    \<or> (\<forall>x. r \<noteq> Ok x) \<and> subseq (butlast (reports_received (trace w'))) (errors_logged (trace w'))"
  using run
proof (cases rule: receive_turn_cases)
  case closed
  with logged.snoc [OF l, of "RecvReport None"] show ?thesis by simp
next
  case (shutdown c x)
  let ?es = "RecvReport (Some ShutdownSignal) # UnitAns (Notify c) x # if_failed x @ [Did (LogError ShutdownSignal)]"
  have "all_logged ?es"
    by (rule all_logged_ends [of _ ShutdownSignal "errors_logged (if_failed x)"]) (simp_all add: logged_if_failed)
  with all_logged_append [OF l this] shutdown show ?thesis by simp
next
  case (reload ts b c x)
  let ?es = "RecvReport (Some ReloadRequest) # ClockGettime (Inr ts) # UnitAns (Notify c) x # if_failed x @ [Did (LogError ReloadRequest)]"
  have "all_logged ?es"
    by (rule all_logged_ends [of _ ReloadRequest "errors_logged (if_failed x)"]) (simp_all add: logged_if_failed)
  with all_logged_append [OF l this] reload show ?thesis by simp
next
  case (killed y x)
  with l show ?thesis by (auto simp: all_logged_def butlast_append)
next
  case (other e)
  have "all_logged [RecvReport (Some e), Did (LogError e)]" by (simp add: all_logged_def)
  with all_logged_append [OF l this] other show ?thesis by simp
qed

text \<open>The set-up of the daemon receives nothing.\<close>

lemma init_logged: "keeps (\<lambda>sw. all_logged (trace (snd sw))) (init os gs h rt)"
proof (rule logged.init_calls)
  show "\<not> is_received e" if "setup_call e" for e
    using that by (cases e rule: setup_call.cases) auto
qed

definition almost_logged :: "event list \<Rightarrow> bool" where
  "almost_logged tr \<longleftrightarrow> subseq (butlast (reports_received tr)) (errors_logged tr)"

lemma subseq_butlast: "subseq (butlast xs) xs"
  by (metis append_butlast_last_id prefixeq_butlast prefix_imp_subseq)

lemma all_almost_logged: "all_logged tr \<Longrightarrow> almost_logged tr"
  unfolding all_logged_def almost_logged_def using subseq_butlast subseq_order.trans by blast

lemma listening_drop_logged:
  assumes "all_logged (trace w)" and drop: "listening_drop os gs l w = (q :: (unit, unit) exec, w')"
  shows "all_logged (trace w')"
proof -
  from listening_drop_result [OF drop] obtain b ns where
    tr: "trace w' = (trace w @ [BoolAns (Join (welcome_thread l)) b]) @ ns" "list_all is_stderr ns" by auto
  have "all_logged (trace w @ [BoolAns (Join (welcome_thread l)) b])"
    by (rule logged.snoc [OF assms(1)]) simp
  from all_logged_append [OF this stderr_logged [OF tr(2)]] show ?thesis by (simp add: tr(1))
qed

interpretation logs: life os gs h
  "\<lambda>s w. all_logged (trace w)" "\<lambda>rdy s w. all_logged (trace w)" "\<lambda>l s w. all_logged (trace w)"
  "\<lambda>l s w. all_logged (trace w)" "\<lambda>b l s w. all_logged (trace w)" "\<lambda>b s w. all_logged (trace w)"
  "\<lambda>c s w. all_logged (trace w)" "\<lambda>s w. almost_logged (trace w)"
  for os gs h
proof (unfold_locales, goal_cases)
  case (1 s w m)
  from logged.snoc [OF 1] all_almost_logged show ?case by simp
next
  case (2 s w c)
  from logged.snoc [OF 2] show ?case by simp
next
  case (3 s w e c)
  from logged.snoc [OF logged.snoc [OF 3]] show ?case by simp
next
  case (4 s w rt r s' w')
  have w': "all_logged (trace w')" using keepsD [OF init_logged _ 4(2)] 4(1) by simp
  with logged.snoc [OF w', of "Did (LogError e)" for e] all_almost_logged [OF w'] show ?case
    by (auto split: exec.splits)
next
  case (5 rdy s w x w')
  define y where "y = ask_spawn os (trace w) (WelcomeThread (welcome_socket rdy) (shutdown_event rdy) (reload_event rdy))"
  show ?case
    using 5(2) logged.snoc [OF 5(1)] logged.snoc [OF logged.snoc [OF logged.snoc [OF 5(1)]]]
    by (cases y) (auto simp: listen_runtime_def exec_defs sys_call_defs y_def [symmetric])
next
  case (6 l s w c)
  from logged.snoc [OF 6] show ?case by simp
next
  case (7 l s w e c)
  from logged.snoc [OF logged.snoc [OF 7]] show ?case by simp
next
  case (8 l s w q w')
  from listening_drop_logged [OF this] all_almost_logged show ?case by (auto split: exec.splits)
next
  case (9 l s w y s' w')
  from receive_turn_logged [OF this] show ?case
    by (auto simp: almost_logged_def split: exec.splits turn.splits)
next
  case (10 b l s w q w')
  from listening_drop_logged [OF this] all_almost_logged show ?case by (auto split: exec.splits)
next
  case (11 b s w p s' w')
  from 11(2) show ?case
  proof (cases rule: drain_turn_cases)
    case empty
    with logged.snoc [OF 11(1), of "TryRecvReport None"] show ?thesis by simp
  next
    case (more e)
    have "all_logged [TryRecvReport (Some e), Did (LogError e)]" by (simp add: all_logged_def)
    with all_logged_append [OF 11(1) this] more show ?thesis by simp
  qed
qed (simp_all add: all_almost_logged)

text \<open>
  C10: no error is lost. When the main thread returns, every error it received from the other
  threads has been logged, in the order in which they arrived, those of the drained channel after
  the rest; at any other moment, and when the process is killed, at most the last one received has
  not been.
\<close>

theorem received_errors_are_logged:
  assumes run: "main os gs h fuel (s, w) = (r :: (unit, u8) exec, s', w')" and start: "all_logged (trace w)"
  shows "(if \<exists>c. r = Ok c then subseq (reports_received (trace w')) (errors_logged (trace w'))
      else subseq (butlast (reports_received (trace w'))) (errors_logged (trace w')))"
  using logs.whole_life [OF run start] by (auto simp: all_logged_def almost_logged_def split: exec.splits)

theorem received_errors_are_logged_witness:
  "reports_received (trace (snd (snd demo_main))) = [ReloadRequest, IgnoredRootRequestError, ShutdownSignal, SendError]
    \<and> subseq [ReloadRequest, IgnoredRootRequestError, ShutdownSignal, SendError] (errors_logged (trace (snd (snd demo_main))))"
proof -
  have "reports_received (trace (snd (snd demo_main))) = [ReloadRequest, IgnoredRootRequestError, ShutdownSignal, SendError]"
    by code_simp
  moreover have "all_logged (trace start_world)" by (simp add: demo_start all_logged_def)
  ultimately show ?thesis
    using received_errors_are_logged [OF demo_run] demo_returns by simp
qed

section \<open>The circuit breaker\<close>

text \<open>The time stamps of the clock readings, in order, and how often a welcome thread was started.\<close>

fun clock_readings :: "event list \<Rightarrow> timespec list" where
  "clock_readings [] = []"
| "clock_readings (ClockGettime (Inr t) # es) = t # clock_readings es"
| "clock_readings (_ # es) = clock_readings es"

fun starts :: "event list \<Rightarrow> nat" where
  "starts [] = 0"
| "starts (Spawn (WelcomeThread _ _ _) (Inr _) # es) = Suc (starts es)"
| "starts (_ # es) = starts es"

lemma clock_readings_append [simp]: "clock_readings (xs @ ys) = clock_readings xs @ clock_readings ys"
  by (induction xs rule: clock_readings.induct) auto

lemma starts_append [simp]: "starts (xs @ ys) = starts xs + starts ys"
  by (induction xs rule: starts.induct) auto

text \<open>A trace that follows the protocol has one start for each reload the breaker let through.\<close>

definition pending_start :: "phase \<Rightarrow> nat" where
  "pending_start p = (if p \<in> {Stopped True} \<or> (\<exists>t. p = Ending t True) then 0 else 1)"

lemma quiet_counts:
  assumes "\<not> moves_phase e"
  shows "clock_readings [e] = []" "starts [e] = 0"
  using assms by (cases e rule: moves_phase.cases; simp)+

lemma starts_counted: "phase_after tr = Some p \<Longrightarrow> starts tr = length (clock_readings tr) + pending_start p"
proof (induction tr arbitrary: p rule: rev_induct)
  case Nil
  then show ?case by (auto simp: phase_after_def pending_start_def)
next
  case (snoc e tr)
  then obtain p0 where p0: "phase_after tr = Some p0" "protocol e p0 = Some p"
    by (cases "phase_after tr") (auto simp: phase_after_snoc)
  note IH = snoc.IH [OF p0(1)]
  show ?case
  proof (cases "moves_phase e")
    case False
    with IH p0(2) quiet_counts [OF False] show ?thesis by (simp add: protocol_stays)
  next
    case True
    with p0(2) IH show ?thesis
      by (cases e rule: moves_phase.cases)
        (auto simp: pending_start_def split: phase.splits if_splits option.splits)
  qed
qed

definition killed :: "event list \<Rightarrow> bool" where
  "killed tr \<longleftrightarrow> (\<exists>x. UnitAns KillSelf x \<in> set tr)"

definition breaker_follows :: "statics \<Rightarrow> event list \<Rightarrow> bool" where
  "breaker_follows s tr \<longleftrightarrow> breaker_run (clock_readings tr) breaker_init = Some (circuit s)"

definition breaker_watches :: "statics \<Rightarrow> event list \<Rightarrow> bool" where
  "breaker_watches s tr \<longleftrightarrow> killed tr \<or> breaker_follows s tr"

lemma breaker_run_snoc:
  "breaker_run (ts @ [t]) b = Option.bind (breaker_run ts b) (breaker_step t)"
  by (induction ts arbitrary: b) (auto split: option.splits)

lemma breaker_run_append:
  "breaker_run (ts @ us) b = Option.bind (breaker_run ts b) (breaker_run us)"
  by (induction ts arbitrary: b) (auto split: option.splits)

fun is_clock :: "event \<Rightarrow> bool" where
  "is_clock (ClockGettime _) = True"
| "is_clock _ = False"

lemma not_clock: "\<not> is_clock e \<Longrightarrow> clock_readings [e] = []"
  by (cases e rule: is_clock.cases) auto

interpretation clock: trace_invariant "breaker_follows s" "\<lambda>e. \<not> is_clock e" for s
  by unfold_locales (simp add: breaker_follows_def not_clock)

lemma follows_quiet: "breaker_follows s tr \<Longrightarrow> list_all (\<lambda>e. \<not> is_clock e) es \<Longrightarrow> breaker_follows s (tr @ es)"
  by (rule clock.extends_keeps [of tr]) (auto simp: extends_def)

lemma stderr_clock: "list_all is_stderr es \<Longrightarrow> list_all (\<lambda>e. \<not> is_clock e) es"
  by (induction es) (auto simp: is_stderr_def)

lemma if_failed_clock: "list_all (\<lambda>e. \<not> is_clock e) (if_failed x)"
  by (cases x) (simp_all add: if_failed_def)

lemma keeps_frame: "keeps (\<lambda>_. P) m"
  by (simp add: keeps_def)

lemma init_circuit:
  assumes run: "init os gs h rt (s, w) = (r, s', w')"
  shows "circuit s' = circuit s"
proof -
  have ev: "keeps (\<lambda>sw. circuit (fst sw) = circuit s) (setup_events os)"
  proof (rule keepsI)
    fix sw r sw' assume c: "circuit (fst sw) = circuit s" and run: "setup_events os sw = (r, sw')"
    obtain s1 w1 s2 w2 where sw: "sw = (s1, w1)" "sw' = (s2, w2)" by (cases sw, cases sw')
    from run [unfolded sw] show "circuit (fst sw') = circuit s"
      by (cases rule: setup_events_cases) (use c in \<open>auto simp: sw offer_def\<close>)
  qed
  have "keeps (\<lambda>sw. circuit (fst sw) = circuit s) (init os gs h rt)"
    unfolding init_def
    by (intro keeps_bind keeps_on_exit keeps_lift keeps_case_prod keeps_pure ev) (simp_all only: fst_conv keeps_frame fst_apsnd)
  from keepsD [OF this _ run] show ?thesis by simp
qed

lemma init_follows:
  assumes run: "init os gs h rt (s, w) = (r, s', w')" and f: "breaker_follows s (trace w)"
  shows "breaker_follows s' (trace w')"
proof -
  have "keeps (\<lambda>sw. breaker_follows s (trace (snd sw))) (init os gs h rt)"
  proof (rule clock.init_calls)
    show "\<not> is_clock e" if "setup_call e" for e using that by (cases e rule: setup_call.cases) auto
  qed
  from keepsD [OF this _ run] f init_circuit [OF run] show ?thesis by (simp add: breaker_follows_def)
qed

lemma listening_drop_follows:
  assumes f: "breaker_follows s (trace w)" and drop: "listening_drop os gs l w = (q :: (unit, unit) exec, w')"
  shows "breaker_follows s (trace w')"
proof -
  from listening_drop_result [OF drop] obtain b ns where
    tr: "trace w' = trace w @ BoolAns (Join (welcome_thread l)) b # ns" "list_all is_stderr ns" by auto
  from follows_quiet [OF f, of "BoolAns (Join (welcome_thread l)) b # ns"] stderr_clock [OF tr(2)] show ?thesis
    by (simp add: tr(1))
qed

lemma receive_turn_follows:
  assumes f: "breaker_follows s (trace w)"
    and run: "receive_turn os u (s, w) = (r :: (unit, (unit, bool) turn) exec, s', w')"
  shows "(\<exists>x. r = Ok x) \<and> breaker_follows s' (trace w') \<or> (\<forall>x. r \<noteq> Ok x) \<and> killed (trace w')"
  using run
proof (cases rule: receive_turn_cases)
  case closed
  with follows_quiet [OF f, of "[RecvReport None]"] show ?thesis by simp
next
  case (shutdown c x)
  from follows_quiet [OF f, of "RecvReport (Some ShutdownSignal) # UnitAns (Notify c) x # if_failed x @ [Did (LogError ShutdownSignal)]"]
  show ?thesis using shutdown if_failed_clock by simp
next
  case (reload ts b c x)
  have "breaker_follows s' (trace w @ [RecvReport (Some ReloadRequest), ClockGettime (Inr ts)])"
    using f reload by (simp add: breaker_follows_def breaker_run_snoc)
  from follows_quiet [OF this, of "UnitAns (Notify c) x # if_failed x @ [Did (LogError ReloadRequest)]"]
  show ?thesis using reload if_failed_clock by simp
next
  case (killed y x)
  then show ?thesis by (auto simp: killed_def)
next
  case (other e)
  with follows_quiet [OF f, of "[RecvReport (Some e), Did (LogError e)]"] show ?thesis by simp
qed

interpretation breakers: life os gs h
  "\<lambda>s w. breaker_follows s (trace w)" "\<lambda>rdy s w. breaker_follows s (trace w)" "\<lambda>l s w. breaker_follows s (trace w)"
  "\<lambda>l s w. breaker_follows s (trace w)" "\<lambda>b l s w. breaker_follows s (trace w)" "\<lambda>b s w. breaker_follows s (trace w)"
  "\<lambda>c s w. breaker_follows s (trace w)" "\<lambda>s w. breaker_watches s (trace w)"
  for os gs h
proof (unfold_locales, goal_cases)
  case (1 s w m)
  from clock.snoc [OF 1] show ?case by (simp add: breaker_watches_def)
next
  case (2 s w c)
  from clock.snoc [OF 2] show ?case by simp
next
  case (3 s w e c)
  from clock.snoc [OF clock.snoc [OF 3]] show ?case by simp
next
  case (4 s w rt r s' w')
  note w' = init_follows [OF 4(2,1)]
  with clock.snoc [OF w', of "Did (LogError e)" for e] show ?case
    by (auto simp: breaker_watches_def split: exec.splits)
next
  case (5 rdy s w x w')
  define y where "y = ask_spawn os (trace w) (WelcomeThread (welcome_socket rdy) (shutdown_event rdy) (reload_event rdy))"
  show ?case
    using 5(2) clock.snoc [OF 5(1)] clock.snoc [OF clock.snoc [OF clock.snoc [OF 5(1)]]]
    by (cases y) (auto simp: listen_runtime_def exec_defs sys_call_defs y_def [symmetric])
next
  case (6 l s w c)
  from clock.snoc [OF 6] show ?case by simp
next
  case (7 l s w e c)
  from clock.snoc [OF clock.snoc [OF 7]] show ?case by simp
next
  case (8 l s w q w')
  from listening_drop_follows [OF this] show ?case by (auto simp: breaker_watches_def split: exec.splits)
next
  case (9 l s w y s' w')
  from receive_turn_follows [OF this] show ?case
    by (auto simp: breaker_watches_def split: exec.splits turn.splits)
next
  case (10 b l s w q w')
  from listening_drop_follows [OF this] show ?case by (auto simp: breaker_watches_def split: exec.splits)
next
  case (11 b s w p s' w')
  from 11(2) show ?case
  proof (cases rule: drain_turn_cases)
    case empty
    with clock.snoc [OF 11(1), of "TryRecvReport None"] show ?thesis by simp
  next
    case (more e)
    with follows_quiet [OF 11(1), of "[TryRecvReport (Some e), Did (LogError e)]"] show ?thesis by simp
  qed
qed (simp_all add: breaker_watches_def)

text \<open>
  C11: the daemon cannot be restarted in a loop. Unless the process has been killed, the number of
  welcome threads ever started is at most one more than the number of clock readings of the
  circuit breaker, and of any consecutive readings that lie within less than four seconds there
  are at most 198. (The clock is monotonic and its time stamps are valid.)
\<close>

theorem restarts_are_bounded:
  assumes run: "main os gs h fuel (statics_init, w) = (r :: (unit, u8) exec, s', w')" and start: "trace w = []"
    and alive: "\<not> killed (trace w')" and clocks: "clock_readings (trace w') = xs @ ts @ ys"
    and mono: "clock_run (xs @ ts @ ys)"
    and window: "\<forall>t \<in> set ts. \<forall>u \<in> set ts. nanos u - nanos t < 4 * 10 ^ 9"
  shows "starts (trace w') \<le> length (xs @ ts @ ys) + 1 \<and> length ts \<le> 198"
proof -
  have "phase_after (trace w) = Some (Stopped True)" by (simp add: start phase_after_def)
  from phases.whole_life [OF run this] obtain p where p: "phase_after (trace w') = Some p"
    by (auto split: exec.splits)
  have few: "starts (trace w') \<le> length (xs @ ts @ ys) + 1"
    using starts_counted [OF p] by (simp add: clocks pending_start_def split: if_splits)
  have "breaker_follows statics_init (trace w)" by (simp add: start breaker_follows_def statics_init_def)
  from breakers.whole_life [OF run this] alive have "breaker_follows s' (trace w')"
    by (auto simp: breaker_watches_def split: exec.splits)
  then obtain b b' where b: "breaker_run xs breaker_init = Some b" "breaker_run ts b = Some b'"
    by (auto simp: breaker_follows_def clocks breaker_run_append bind_eq_Some_conv)
  have at: "breaker_at t b" if "t \<in> set ts" for t
    by (rule breaker_run_at [OF b(1)]) (use mono that breaker_init_at in \<open>auto simp: clock_run_def sorted_append\<close>)
  show ?thesis
  proof (cases ts)
    case (Cons t us)
    then have "breaker_wf b" using at [of t] by (simp add: breaker_at_def)
    moreover have "clock_run ts" using mono by (auto simp: clock_run_def sorted_append)
    ultimately show ?thesis using few breaker_run_window [OF b(2) _ _ _ window] at by simp
  qed (use few in simp)
qed

theorem restarts_are_bounded_witness:
  "clock_readings (trace (snd (snd demo_main))) = [Timespec 1000 0] \<and> starts (trace (snd (snd demo_main))) \<le> 2"
proof -
  have c: "clock_readings (trace (snd (snd demo_main))) = [] @ [Timespec 1000 0] @ []" by code_simp
  have alive: "\<not> killed (trace (snd (snd demo_main)))"
  proof -
    have "list_all (\<lambda>e. case e of UnitAns KillSelf _ \<Rightarrow> False | _ \<Rightarrow> True) (trace (snd (snd demo_main)))" by code_simp
    then show ?thesis by (auto simp: killed_def list_all_iff)
  qed
  from restarts_are_bounded [OF demo_run demo_start alive c] c show ?thesis
    by (auto simp: clock_run_def valid_time_def nanos_def)
qed

end
