(* ===== verification/Daemon_Descriptors.thy ===== *)
theory Daemon_Descriptors imports Daemon begin

text \<open>
  The descriptors of the main thread over the whole life of the daemon: only the two events of the
  signal handlers stay open, they are never replaced, and every welcome thread polls them. The
  theory also shows what happens when systemd cannot be told that the daemon listens.
\<close>

section \<open>The events every welcome thread is given\<close>

fun given_events :: "event list \<Rightarrow> (raw_fd \<times> raw_fd) set" where
  "given_events [] = {}"
| "given_events (Spawn (WelcomeThread _ a b) _ # es) = insert (a, b) (given_events es)"
| "given_events (_ # es) = given_events es"

lemma given_events_append [simp]: "given_events (xs @ ys) = given_events xs \<union> given_events ys"
  by (induction xs rule: given_events.induct) auto

fun gives_events :: "event \<Rightarrow> bool" where
  "gives_events (Spawn (WelcomeThread _ _ _) _) = True"
| "gives_events _ = False"

lemma gives_nothing: "\<not> gives_events e \<Longrightarrow> given_events [e] = {}"
  by (cases e rule: gives_events.cases) auto

definition same_events :: "statics \<Rightarrow> event list \<Rightarrow> bool" where
  "same_events s tr \<longleftrightarrow> given_events tr \<subseteq> {(shutdown_event_for_signal s, reload_event_for_signal s)}
     \<and> (given_events tr \<noteq> {} \<longrightarrow> shutdown_event_for_signal s \<noteq> - 1 \<and> reload_event_for_signal s \<noteq> - 1)"

interpretation given: trace_invariant "\<lambda>tr. given_events tr = G" "\<lambda>e. \<not> gives_events e" for G
  by unfold_locales (simp add: gives_nothing)

text \<open>Once they hold descriptors, the statics do not change.\<close>

definition keeps_held :: "statics \<Rightarrow> statics \<Rightarrow> bool" where
  "keeps_held s s' \<longleftrightarrow> shutdown_event_for_signal s \<in> {- 1, shutdown_event_for_signal s'}
     \<and> reload_event_for_signal s \<in> {- 1, reload_event_for_signal s'}"

lemma init_keeps_held:
  assumes run: "init os gs h rt (s, w) = (r, s', w')"
  shows "keeps_held s s'"
proof -
  have ev: "keeps (\<lambda>sw. keeps_held s (fst sw)) (setup_events os)"
  proof (rule keepsI)
    fix sw r sw' assume c: "keeps_held s (fst sw)" and run: "setup_events os sw = (r, sw')"
    obtain s1 w1 s2 w2 where sw: "sw = (s1, w1)" "sw' = (s2, w2)" by (cases sw, cases sw')
    from run [unfolded sw] show "keeps_held s (fst sw')"
      by (cases rule: setup_events_cases) (use c in \<open>auto simp: sw offer_def taken_def keeps_held_def\<close>)
  qed
  have "keeps (\<lambda>sw. keeps_held s (fst sw)) (init os gs h rt)"
    unfolding init_def
    by (intro keeps_bind keeps_on_exit keeps_lift keeps_case_prod keeps_pure ev) (simp_all only: fst_conv keeps_frame fst_apsnd)
  from keepsD [OF this _ run] show ?thesis by (simp add: keeps_held_def)
qed

lemma init_given:
  assumes run: "init os gs h rt (s, w) = (r, s', w')" and same: "same_events s (trace w)"
  shows "same_events s' (trace w')"
proof -
  have "keeps (\<lambda>sw. given_events (trace (snd sw)) = given_events (trace w)) (init os gs h rt)"
  proof (rule given.init_calls)
    show "\<not> gives_events e" if "setup_call e" for e using that by (cases e rule: setup_call.cases) auto
  qed
  from keepsD [OF this _ run] have "given_events (trace w') = given_events (trace w)" by simp
  with same init_keeps_held [OF run] show ?thesis
    by (auto simp: same_events_def keeps_held_def)
qed

section \<open>What is open\<close>

definition sound_kernel :: "os \<Rightarrow> bool" where
  "sound_kernel os \<longleftrightarrow> fresh_fds os \<and> nonnegative_fds os"

text \<open>Exactly the events are open, and every welcome thread was given them.\<close>

definition only_events :: "os \<Rightarrow> statics \<Rightarrow> event list \<Rightarrow> bool" where
  "only_events os s tr \<longleftrightarrow> (sound_kernel os \<longrightarrow> owns (event_fds s) tr \<and> same_events s tr)"

definition set_up_to_listen :: "os \<Rightarrow> ready_runtime \<Rightarrow> statics \<Rightarrow> event list \<Rightarrow> bool" where
  "set_up_to_listen os rdy s tr \<longleftrightarrow> (sound_kernel os \<longrightarrow>
     owns (insert (welcome_socket rdy) (event_fds s)) tr \<and> welcome_socket rdy \<notin> event_fds s
     \<and> shutdown_event rdy = shutdown_event_for_signal s \<and> reload_event rdy = reload_event_for_signal s
     \<and> shutdown_event_for_signal s \<noteq> - 1 \<and> reload_event_for_signal s \<noteq> - 1 \<and> same_events s tr)"

interpretation events: trace_invariant "only_events os s" "\<lambda>e. \<not> moves_fd e \<and> \<not> gives_events e" for os s
  by unfold_locales (auto simp: only_events_def same_events_def fds.snoc gives_nothing)

lemma events_quiet:
  "only_events os s tr \<Longrightarrow> list_all (\<lambda>e. \<not> moves_fd e \<and> \<not> gives_events e) es \<Longrightarrow> only_events os s (tr @ es)"
  by (rule events.extends_keeps [of tr]) (auto simp: extends_def)

lemma stderr_events: "list_all is_stderr es \<Longrightarrow> list_all (\<lambda>e. \<not> moves_fd e \<and> \<not> gives_events e) es"
  by (induction es) (auto simp: is_stderr_def)

lemma if_failed_events: "list_all (\<lambda>e. \<not> moves_fd e \<and> \<not> gives_events e) (if_failed x)"
  by (cases x) (simp_all add: if_failed_def)

lemma only_events_circuit [simp]: "only_events os (s\<lparr>circuit := b\<rparr>) tr = only_events os s tr"
  by (simp add: only_events_def event_fds_def same_events_def)

lemma init_ok_events:
  assumes run: "init os gs h rt (s, w) = (r, s', w')" and ok: "\<exists>rdy. r = Ok rdy" and os: "nonnegative_fds os"
  shows "shutdown_event_for_signal s' \<noteq> - 1 \<and> reload_event_for_signal s' \<noteq> - 1"
proof -
  obtain x v where p: "check_privileges (debug_assertions h) os (credentials_at h (trace w)) (securebits_values h) w = (x, v)"
    by (cases "check_privileges (debug_assertions h) os (credentials_at h (trace w)) (securebits_values h) w")
  obtain y u where sock: "setup_socket os gs v = (y, u)" by (cases "setup_socket os gs v")
  obtain z s2 t where ev: "setup_events os (s, u) = (z, s2, t)" by (cases "setup_events os (s, u)")
  have "\<exists>sh re. z = Ok (sh, re) \<and> s2 = s'"
    using run ok p sock ev
    by (cases x; cases y; cases z) (auto simp: init_def bind_io_def lift_io_def on_exit_drop_def ret_def)
  then obtain sh re where "setup_events os (s, u) = (Ok (sh, re), s', t)" using ev by auto
  then show ?thesis
  proof (cases rule: setup_events_cases)
    case (made a b es)
    with nonnegative_fdsD [OF os] show ?thesis by (auto simp: offer_def taken_def)
  qed simp_all
qed

lemma init_events:
  assumes run: "init os gs h rt (s, w) = (r, s', w')" and e: "only_events os s (trace w)"
  shows "case r of Ok rdy \<Rightarrow> set_up_to_listen os rdy s' (trace w') | _ \<Rightarrow> only_events os s' (trace w')"
proof (cases "sound_kernel os")
  case True
  then have os: "fresh_fds os" "nonnegative_fds os" and own: "owns (event_fds s) (trace w)"
      and same: "same_events s (trace w)"
    using e by (simp_all add: sound_kernel_def only_events_def)
  have ne: "shutdown_event_for_signal s' \<noteq> - 1 \<and> reload_event_for_signal s' \<noteq> - 1" if "\<exists>rdy. r = Ok rdy"
    by (rule init_ok_events [OF run _ os(2)]) (use that in blast)
  from init_owns [OF run os own] ne init_given [OF run same] show ?thesis
    by (auto simp: only_events_def set_up_to_listen_def)
qed (auto simp: only_events_def set_up_to_listen_def split: exec.splits)

lemma listen_events:
  assumes run: "listen_runtime os rdy w = (x, w')" and e: "set_up_to_listen os rdy s (trace w)"
  shows "only_events os s (trace w')"
proof (cases "sound_kernel os")
  case True
  with e have own: "owns (insert (welcome_socket rdy) (event_fds s)) (trace w)" "welcome_socket rdy \<notin> event_fds s"
    and ev: "shutdown_event rdy = shutdown_event_for_signal s" "reload_event rdy = reload_event_for_signal s"
      "shutdown_event_for_signal s \<noteq> - 1" "reload_event_for_signal s \<noteq> - 1" "same_events s (trace w)"
    by (simp_all add: set_up_to_listen_def)
  from listen_owns [OF run own] ev show ?thesis
    by (auto simp: only_events_def same_events_def)
qed (simp add: only_events_def)

lemma listening_drop_events:
  assumes f: "only_events os s (trace w)" and drop: "listening_drop os gs l w = (q :: (unit, unit) exec, w')"
  shows "only_events os s (trace w')"
proof -
  from listening_drop_result [OF drop] obtain b ns where
    tr: "trace w' = trace w @ BoolAns (Join (welcome_thread l)) b # ns" "list_all is_stderr ns" by auto
  from events_quiet [OF f, of "BoolAns (Join (welcome_thread l)) b # ns"] stderr_events [OF tr(2)] show ?thesis
    by (simp add: tr(1))
qed

lemma receive_turn_events:
  assumes f: "only_events os s (trace w)"
    and run: "receive_turn os u (s, w) = (r :: (unit, (unit, bool) turn) exec, s', w')"
  shows "only_events os s' (trace w')"
  using run
proof (cases rule: receive_turn_cases)
  case closed
  with events_quiet [OF f, of "[RecvReport None]"] show ?thesis by simp
next
  case (shutdown c x)
  from events_quiet [OF f, of "RecvReport (Some ShutdownSignal) # UnitAns (Notify c) x # if_failed x @ [Did (LogError ShutdownSignal)]"]
  show ?thesis using shutdown if_failed_events by simp
next
  case (reload ts b c x)
  from events_quiet [OF f, of "RecvReport (Some ReloadRequest) # ClockGettime (Inr ts) # UnitAns (Notify c) x # if_failed x @ [Did (LogError ReloadRequest)]"]
  show ?thesis using reload if_failed_events by simp
next
  case (killed y x)
  with events_quiet [OF f, of "[RecvReport (Some ReloadRequest), ClockGettime y, UnitAns KillSelf x]"] show ?thesis by simp
next
  case (other e)
  with events_quiet [OF f, of "[RecvReport (Some e), Did (LogError e)]"] show ?thesis by simp
qed

interpretation descriptors: life os gs h
  "\<lambda>s w. only_events os s (trace w)" "\<lambda>rdy s w. set_up_to_listen os rdy s (trace w)"
  "\<lambda>l s w. only_events os s (trace w)" "\<lambda>l s w. only_events os s (trace w)"
  "\<lambda>b l s w. only_events os s (trace w)" "\<lambda>b s w. only_events os s (trace w)"
  "\<lambda>c s w. only_events os s (trace w)" "\<lambda>s w. only_events os s (trace w)"
  for os gs h
proof (unfold_locales, goal_cases)
  case (1 s w m)
  from events.snoc [OF 1] show ?case by simp
next
  case (2 s w c)
  from events.snoc [OF 2] show ?case by simp
next
  case (3 s w e c)
  from events.snoc [OF events.snoc [OF 3]] show ?case by simp
next
  case (4 s w rt r s' w')
  from init_events [OF 4(2,1)] events.snoc [of os s' "trace w'" "Did (LogError e)" for e] show ?case
    by (auto split: exec.splits)
next
  case (5 rdy s w x w')
  note w' = listen_events [OF 5(2,1)]
  with events.snoc [OF w', of "Did (LogError e)" for e] show ?case by (auto split: exec.splits)
next
  case (6 l s w c)
  from events.snoc [OF 6] show ?case by simp
next
  case (7 l s w e c)
  from events.snoc [OF events.snoc [OF 7]] show ?case by simp
next
  case (8 l s w q w')
  from listening_drop_events [OF this] show ?case by (auto split: exec.splits)
next
  case (9 l s w y s' w')
  from receive_turn_events [OF this] show ?case by (auto split: exec.splits turn.splits)
next
  case (10 b l s w q w')
  from listening_drop_events [OF this] show ?case by (auto split: exec.splits)
next
  case (11 b s w p s' w')
  from 11(2) show ?case
  proof (cases rule: drain_turn_cases)
    case empty
    with events.snoc [OF 11(1), of "TryRecvReport None"] show ?thesis by simp
  next
    case (more e)
    with events_quiet [OF 11(1), of "[TryRecvReport (Some e), Did (LogError e)]"] show ?thesis by simp
  qed
qed simp_all

text \<open>
  C9: across all reloads the main thread keeps two descriptors and no other. However long it has
  run and however it ends, the descriptors it has open are exactly the events the signal handlers
  write to, none was closed twice, and all welcome threads it ever started were given these two:
  a signal that arrives between two lives is seen by the next.
\<close>

theorem main_keeps_only_the_events:
  assumes run: "main os gs h fuel (statics_init, w) = (r :: (unit, u8) exec, s', w')" and start: "trace w = []"
    and os: "fresh_fds os" "nonnegative_fds os"
  shows "owned (trace w') = {shutdown_event_for_signal s', reload_event_for_signal s'} - {- 1}
    \<and> closes_only_owned (trace w')
    \<and> given_events (trace w') \<subseteq> {(shutdown_event_for_signal s', reload_event_for_signal s')}"
proof -
  have "only_events os statics_init (trace w)"
    by (simp add: start only_events_def owns_def owned_def owned_from_def closes_only_owned_def event_fds_def
        statics_init_def same_events_def)
  from descriptors.whole_life [OF run this] have "only_events os s' (trace w')" by (cases r) simp_all
  with os show ?thesis by (simp add: only_events_def sound_kernel_def owns_def same_events_def event_fds_def)
qed

theorem main_keeps_only_the_events_witness:
  "owned (trace (snd (snd demo_main))) = {105, 106} \<and> given_events (trace (snd (snd demo_main))) = {(105, 106)}"
proof -
  have "shutdown_event_for_signal (fst (snd demo_main)) = 105" "reload_event_for_signal (fst (snd demo_main)) = 106"
    by code_simp+
  moreover have "fresh_fds demo_main_os" "nonnegative_fds demo_main_os"
    using calm_os_fresh calm_os_nonnegative by (simp_all add: fresh_fds_def nonnegative_fds_def demo_main_os_def)
  moreover have "(105, 106) \<in> given_events (trace (snd (snd demo_main)))" by code_simp
  ultimately show ?thesis using main_keeps_only_the_events [OF demo_run demo_start] by auto
qed

section \<open>When systemd cannot be told\<close>

text \<open>
  C37: a failed notification does not end the daemon. If systemd cannot be told that the daemon
  listens, the main thread logs that and then waits for the welcome thread, which nobody has told to
  end: between the start of the thread and the join there is no call that writes to an event.
\<close>

theorem failed_notification_waits:
  assumes run: "serve os gs fuel l (s, w) = (r :: (unit, (unit, u8) turn) exec, s', w')"
    and fails: "\<And>c. ask_unit os (trace w) (Notify c) = Inl e"
  shows "\<exists>c b ns. trace w' = trace w @ [UnitAns (Notify c) (Inl e), Did (LogError e),
       BoolAns (Join (welcome_thread l)) b] @ ns \<and> list_all is_stderr ns"
proof -
  let ?c = "[(''READY'', ''1''), (''STATUS'', ''Listening...'')]"
  let ?w2 = "log_event (Did (LogError e)) (log_event (UnitAns (Notify ?c) (Inl e)) w)"
  obtain q v where d: "listening_drop os gs l ?w2 = (q :: (unit, unit) exec, v)"
    by (cases "listening_drop os gs l ?w2 :: (unit, unit) exec \<times> world")
  have "w' = v"
    using run d fails by (cases q)
      (auto simp: serve_def match_io_def lift_io_def notify_system_listening_def sys_unit_def Let_def bind_io_def
        log_error_result ret_def)
  moreover from listening_drop_result [OF d] obtain b ns where
    "trace v = trace ?w2 @ BoolAns (Join (welcome_thread l)) b # ns" "list_all is_stderr ns" by blast
  ultimately show ?thesis by (intro exI [of _ ?c] exI [of _ b] exI [of _ ns]) simp
qed

definition demo_mute_os :: os where
  "demo_mute_os = calm_os\<lparr>ask_unit := (\<lambda>tr c. case c of Notify _ \<Rightarrow> Inl (ForeignError 3) | _ \<Rightarrow> Inr ())\<rparr>"

theorem failed_notification_waits_witness:
  "\<exists>r s w. (serve demo_mute_os demo_gs 5 \<lparr>working_dir_path = ''/'', welcome_thread = 9\<rparr> (statics_init, start_world)
      :: (unit, (unit, u8) turn) exec \<times> statics \<times> world) = (r, s, w) \<and> (\<exists>b. BoolAns (Join 9) b \<in> set (trace w))"
proof -
  let ?m = "serve demo_mute_os demo_gs 5 \<lparr>working_dir_path = ''/'', welcome_thread = 9\<rparr> (statics_init, start_world)
      :: (unit, (unit, u8) turn) exec \<times> statics \<times> world"
  obtain r s w where run: "?m = (r, s, w)" by (cases ?m)
  have "ask_unit demo_mute_os (trace start_world) (Notify c) = Inl (ForeignError 3)" for c
    by (simp add: demo_mute_os_def)
  from failed_notification_waits [OF run this] run show ?thesis by auto
qed

end
