(* ===== verification/Spec2Isabelle.thy ===== *)
theory Spec2Isabelle imports Circuit_Breaker Welcome_Promises Composition Daemon_Descriptors begin

text \<open>
  garnd is a daemon that gives processes named, shared resources (mutexes) in memory they share.
  This development models its implementation under \<open>src/src/\<close> and proves what makes it correct.

  \<^bold>\<open>The program.\<close> The main thread (\<open>main.rs\<close>) brings the daemon up (\<open>linux/runtime.rs\<close>): it checks
  that the process is unprivileged, makes the welcome socket, two eventfds and the two signal
  handlers, and starts the welcome thread. It then logs the errors the other threads report
  (\<open>linux/logger.rs\<close>) until a report is the shutdown signal or a reload request; a reload asks the
  circuit breaker (\<open>linux/circuit_breaker.rs\<close>) and starts over. The welcome thread
  (\<open>linux/welcome_thread.rs\<close>) polls the welcome socket, the two eventfds and a close event. It accepts
  clients, refuses root's, and hands each client to the environment it names, one
  \<open>linux/environment.rs\<close> per name, which is started on demand and runs a thread
  (\<open>linux/environment_synchronization_thread.rs\<close>). That thread waits on an epoll for its clients'
  requests, places the mutexes they ask for in shared pages (\<open>linux/shm_allocator.rs\<close>), and announces
  its end to the welcome thread by name when its last client has left.

  \<^bold>\<open>Shape of the model.\<close> A piece of code that may fail, panic, end the process or not return is a
  function from the state it runs in to an outcome and the state it leaves (\<open>Prelude\<close>: \<open>exec\<close> has
  \<open>Ok\<close>, \<open>Err\<close>, \<open>Panic\<close>, \<open>Exit\<close>, \<open>NoReturn\<close>). The \<open>?\<close> operator is \<open>bind_io\<close>, \<open>match\<close> on a result
  \<open>match_io\<close>, the drop of a local \<open>finally_drop\<close>, \<open>on_exit_drop\<close> or \<open>with_drop\<close> (which models a panic
  inside a drop while unwinding: the process dies). The \<open>world\<close> (\<open>Kernel\<close>) is the list of all calls made
  so far with their answers, the flag \<open>std::thread::panicking\<close> and \<open>errno\<close>. An answer comes from an
  \<open>os\<close>, a record of functions of the calls made before; every theorem holds for every such record,
  so for every kernel, every client and every other thread, whatever they answer and however their
  actions interleave with the thread at hand. What a theorem needs of the kernel is a hypothesis with
  a name: \<open>fresh_fds\<close> (a descriptor returned is not one already held), \<open>nonnegative_fds\<close>,
  \<open>fresh_listeners\<close>, \<open>fresh_threads\<close>, \<open>honest_epoll\<close>, \<open>main_listens\<close>, \<open>sound_kernel\<close>. The structs are records and the enums datatypes,
  the integers have the width they have in Rust where the code computes with them.

  \<^bold>\<open>Theories and sources.\<close>
  \<^item> \<open>Prelude\<close>, \<open>Kernel\<close>, \<open>Routine\<close>: the outcomes and their combinators, the calls and the trace, and
    the rules \<open>keeps\<close>, \<open>no_err\<close>, \<open>only\<close> that follow the structure of a routine. The locale
    \<open>loop_invariant\<close> is the contract of a loop, \<open>trace_invariant\<close> that of a predicate on the trace
    which calls of some kind keep; most properties are interpretations of these two.
  \<^item> \<open>Errors\<close> (\<open>constants.rs\<close>, \<open>linux/runtime_error.rs\<close>, \<open>shutdown_signal.rs\<close>), \<open>Reporting\<close>
    (\<open>util.rs\<close>, \<open>linux/util.rs\<close>, \<open>early_failure.rs\<close>, \<open>linux/logger.rs\<close>, \<open>join_guard.rs\<close>), \<open>Utf8\<close>
    (\<open>str::from_utf8\<close> of the standard library, which decides whether a request is malformed).
  \<^item> \<open>Circuit_Breaker\<close> (\<open>linux/circuit_breaker.rs\<close>): the three atomics as a record; how fast a daemon
    may reload and when the breaker ends the process.
  \<^item> \<open>Shm_Allocator\<close> (\<open>linux/shm_allocator.rs\<close>): pages, resources, placement, lookup and the destructor;
    well-formedness is kept, resources share no byte, nothing leaks, the destructor runs each
    resource's destructor before any page is unmapped.
  \<^item> \<open>Env_Sync\<close> (\<open>linux/environment_synchronization_thread.rs\<close>): the whole thread with the drops at
    its end. The locale \<open>object_store\<close> is the contract of the allocator as the handlers see it; its
    interpretation \<open>mutexes\<close> is proved of the allocator. All answers over the thread's life agree with
    one table. \<open>Env_Ownership\<close>: the thread ends once, answers once, gives back every descriptor.
    \<open>Env_Clients\<close>: it talks only to clients it was handed and still holds.
  \<^item> \<open>Environment\<close> (\<open>linux/environment.rs\<close>): starting a thread, handing it a client, the destructor.
  \<^item> \<open>Welcome\<close> (\<open>linux/welcome_thread.rs\<close>): the poll loop and its handlers. \<open>Registry\<close>: clients of
    root's are not talked to, the thread says why it ends. \<open>Dispatch\<close>: one thread per name, clients go
    to the thread of the name they asked for. \<open>Introductions\<close>: what is handed over is a fresh duplicate
    of the socket of a client that was vetted and asked. \<open>Welcome_Promises\<close>: one answer per request,
    descriptors. \<open>Composition\<close>: the welcome thread and an environment's thread together.
  \<^item> \<open>Privileges\<close>, \<open>Runtime\<close> (\<open>linux/runtime.rs\<close>): the privilege checks; the statics, one record per
    state of \<open>Runtime<S>\<close>, the set-up of socket, events and handlers, the signal handlers.
  \<^item> \<open>Main_Loop\<close> (\<open>main.rs\<close>): the whole of \<open>main\<close>. \<open>Lifecycle\<close>: the automaton of its calls and the
    contract \<open>life\<close>. \<open>Daemon\<close> and \<open>Daemon_Descriptors\<close> interpret \<open>life\<close> four times.

  \<^bold>\<open>How components meet.\<close> A channel or an eventfd between two threads is a call in the trace of each:
  what the welcome thread reports (\<open>SendToMain\<close>) the main thread receives (\<open>RecvReport\<close>); a client handed
  over (\<open>SendListener\<close>) is received by the environment's thread (\<open>RecvListener\<close>) and answered by a
  response; the name of a thread that ends is read by the welcome thread. The contracts of the two
  ends are proved for each end: \<open>clients_are_introduced\<close> and \<open>environment_speaks_to_clients\<close>,
  \<open>one_response_per_handover\<close> and \<open>one_thread_per_name\<close>, \<open>thread_ends_once\<close> and \<open>environment_drop_joins\<close>,
  \<open>welcome_thread_says_why\<close> and \<open>main_follows_protocol\<close>. \<open>Composition\<close> joins the first two: two runs, each
  on a kernel of its own, connected by the law of the channel between them.

  \<^bold>\<open>Fuel.\<close> The loops that serve for ever take a bound on their turns; when it is used up the outcome is
  \<open>NoReturn\<close>. By \<open>run_loop_more_fuel\<close> a run that ends has the same outcome with every larger bound,
  and the theorems hold for every bound, so they speak of every finite prefix of an endless run. The
  loop that drains the hand-over queue ends by itself, and \<open>handover_terminates\<close> gives the number of
  turns that is enough. Every other recursion is structural.

  \<^bold>\<open>Parameters.\<close> The crate \<open>garnshared\<close> (sizes, serialization and parsing of messages, the mutex
  type) is the record \<open>garnshared\<close>; the user database, capabilities and securebits are the records
  \<open>credentials\<close> and \<open>securebits\<close>; environment variables and what else the host gives are \<open>host\<close>. The
  order in which a \<open>HashMap\<close> or \<open>HashSet\<close> is dropped is a function.

  \<^bold>\<open>Not modelled.\<close> The module declarations of \<open>linux.rs\<close> and the build files hold no code. A blocking
  call that never returns is not distinguished from one that has not returned yet. A failure of
  \<open>eprintln!\<close> itself (it would panic) and allocation failure are left out. The overflow checks of a
  debug build are left out too: the arithmetic wraps as in a release build. When a socket cannot be
  sent to a thread that has ended, it comes back inside the error and is closed with it, once the
  error has been logged; the accounts of descriptors count it as given away. The threads are not
  composed into one transition system: each is proved against every behaviour of the others, and
  what needs two of them relates their traces by the laws of the channel between them. The memory model of the
  atomics is not modelled: the statics of the signal handlers and of the breaker are written by the
  main thread only, and a handler reads a value that was stored whole.
\<close>

end
